(* ===== verification/Prelude.thy ===== *)
theory Prelude
  imports Main "HOL-Library.Word" "HOL-Library.Monad_Syntax"
begin

unbundle bit_operations_syntax

text \<open>
  What every component shares.  C++ code that can stop (an \<open>ASSERT\<close> that fails, an
  \<open>UNREACHABLE()\<close> or \<open>UNIMPLEMENTED()\<close>, a \<open>Vector\<close> index out of bounds) is a value of type
  \<open>'a option\<close>: \<open>None\<close> is the stop, \<open>Some x\<close> is the normal result.  The build modelled is
  the one of \<open>utils.h\<close> as it stands, where \<open>ASSERT\<close> is \<open>assert\<close> and \<open>Vector::operator[]\<close>
  checks its index; a theorem that the result is \<open>Some\<close> therefore also says that no
  assertion fires and no access leaves its array.  \<open>wp m Q\<close> says that \<open>m\<close> returns and its
  result satisfies \<open>Q\<close>; the loop combinators have one invariant rule each.
\<close>

section \<open>Machine integers\<close>

type_synonym u16 = "16 word"
type_synonym u32 = "32 word"
type_synonym u64 = "64 word"

section \<open>Code that can stop\<close>

named_theorems wp_simps "weakest preconditions of the operations that can stop"

definition wp :: "'a option \<Rightarrow> ('a \<Rightarrow> bool) \<Rightarrow> bool" where
  "wp m Q = (case m of None \<Rightarrow> False | Some x \<Rightarrow> Q x)"

definition ASSERT :: "bool \<Rightarrow> unit option" where
  "ASSERT c = (if c then Some () else None)"

text \<open>\<open>Vector<T>::operator[]\<close> of \<open>utils.h\<close>, as a read and as a write.\<close>

definition rd :: "'a list \<Rightarrow> nat \<Rightarrow> 'a option" where
  "rd xs i = (if i < length xs then Some (xs ! i) else None)"

definition wr :: "'a list \<Rightarrow> nat \<Rightarrow> 'a \<Rightarrow> 'a list option" where
  "wr xs i v = (if i < length xs then Some (xs[i := v]) else None)"

lemma wp_Some [wp_simps, simp]: "wp (Some x) Q = Q x"
  by (simp add: wp_def)

lemma wp_None [wp_simps, simp]: "wp None Q = False"
  by (simp add: wp_def)

lemma wp_bind [wp_simps]: "wp (Option.bind m f) Q = wp m (\<lambda>x. wp (f x) Q)"
  by (cases m) (simp_all add: wp_def)

lemma wp_map_option [wp_simps]: "wp (map_option f m) Q = wp m (\<lambda>x. Q (f x))"
  by (cases m) (simp_all add: wp_def)

lemma wp_ASSERT [wp_simps]: "wp (ASSERT c) Q = (c \<and> Q ())"
  by (simp add: wp_def ASSERT_def)

lemma wp_rd [wp_simps]: "wp (rd xs i) Q = (i < length xs \<and> Q (xs ! i))"
  by (simp add: wp_def rd_def)

lemma wp_wr [wp_simps]: "wp (wr xs i v) Q = (i < length xs \<and> Q (xs[i := v]))"
  by (simp add: wp_def wr_def)

lemma wp_if [wp_simps]: "wp (if c then m else n) Q = (if c then wp m Q else wp n Q)"
  by simp

lemma wp_case_prod [wp_simps]: "wp (case p of (x, y) \<Rightarrow> m x y) Q = (case p of (x, y) \<Rightarrow> wp (m x y) Q)"
  by (cases p) simp

lemma wp_Let [wp_simps]: "wp (Let x f) Q = wp (f x) Q"
  by simp

lemma wp_mono: "wp m P \<Longrightarrow> (\<And>x. P x \<Longrightarrow> Q x) \<Longrightarrow> wp m Q"
  by (cases m) auto

lemma wp_seq: "wp m P \<Longrightarrow> (\<And>x. P x \<Longrightarrow> wp (f x) Q) \<Longrightarrow> wp (Option.bind m f) Q"
  by (cases m) auto

lemma wp_conj: "wp m P \<Longrightarrow> wp m Q \<Longrightarrow> wp m (\<lambda>x. P x \<and> Q x)"
  by (cases m) auto

lemma wpD: "wp m Q \<Longrightarrow> \<exists>x. m = Some x \<and> Q x"
  by (cases m) auto

lemma wpI: "m = Some x \<Longrightarrow> Q x \<Longrightarrow> wp m Q"
  by simp

lemma wpE:
  assumes "wp m Q"
  obtains x where "m = Some x" and "Q x"
  using assms by (cases m) auto

lemma wp_pairE:
  assumes "wp m Q"
  obtains x y where "m = Some (x, y)" and "Q (x, y)"
  using assms by (cases m) auto

section \<open>Loops\<close>

text \<open>\<open>for (int i = lo; i < hi; ++i)\<close> and \<open>for (int i = hi - 1; i >= lo; --i)\<close>.\<close>

primrec for_n :: "nat \<Rightarrow> nat \<Rightarrow> (nat \<Rightarrow> 's \<Rightarrow> 's option) \<Rightarrow> 's \<Rightarrow> 's option" where
  "for_n 0 i f s = Some s"
| "for_n (Suc n) i f s = Option.bind (f i s) (for_n n (Suc i) f)"

definition for_up :: "nat \<Rightarrow> nat \<Rightarrow> (nat \<Rightarrow> 's \<Rightarrow> 's option) \<Rightarrow> 's \<Rightarrow> 's option" where
  "for_up lo hi f s = for_n (hi - lo) lo f s"

primrec for_down_n :: "nat \<Rightarrow> nat \<Rightarrow> (nat \<Rightarrow> 's \<Rightarrow> 's option) \<Rightarrow> 's \<Rightarrow> 's option" where
  "for_down_n 0 lo f s = Some s"
| "for_down_n (Suc n) lo f s = Option.bind (f (lo + n) s) (for_down_n n lo f)"

definition for_down :: "nat \<Rightarrow> nat \<Rightarrow> (nat \<Rightarrow> 's \<Rightarrow> 's option) \<Rightarrow> 's \<Rightarrow> 's option" where
  "for_down hi lo f s = for_down_n (hi - lo) lo f s"

text \<open>\<open>while (b s) s = c s\<close>: \<open>None\<close> when the body stops and when the loop does not end.\<close>

partial_function (option) while_opt :: "('s \<Rightarrow> bool) \<Rightarrow> ('s \<Rightarrow> 's option) \<Rightarrow> 's \<Rightarrow> 's option" where
  "while_opt b c s = (if b s then Option.bind (c s) (\<lambda>t. while_opt b c t) else Some s)"

declare while_opt.simps [code]

lemma for_n_rule:
  assumes "I i s"
    and "\<And>j t. i \<le> j \<Longrightarrow> j < i + n \<Longrightarrow> I j t \<Longrightarrow> wp (f j t) (I (Suc j))"
  shows "wp (for_n n i f s) (I (i + n))"
  using assms
proof (induction n arbitrary: i s)
  case 0
  then show ?case by simp
next
  case (Suc n)
  have "wp (f i s) (I (Suc i))"
    using Suc.prems by simp
  then obtain t where t: "f i s = Some t" and I: "I (Suc i) t"
    by (rule wpE)
  have "wp (for_n n (Suc i) f t) (I (Suc i + n))"
    by (rule Suc.IH [OF I]) (use Suc.prems(2) in auto)
  then show ?case by (simp add: t)
qed

lemma for_up_rule:
  assumes "I lo s" and "lo \<le> hi"
    and "\<And>j t. lo \<le> j \<Longrightarrow> j < hi \<Longrightarrow> I j t \<Longrightarrow> wp (f j t) (I (Suc j))"
    and "\<And>t. I hi t \<Longrightarrow> Q t"
  shows "wp (for_up lo hi f s) Q"
proof -
  have "wp (for_n (hi - lo) lo f s) (I (lo + (hi - lo)))"
    by (rule for_n_rule) (use assms in auto)
  then show ?thesis
    unfolding for_up_def by (rule wp_mono) (use assms in auto)
qed

lemma for_down_n_rule:
  assumes "I (lo + n) s"
    and "\<And>j t. lo \<le> j \<Longrightarrow> j < lo + n \<Longrightarrow> I (Suc j) t \<Longrightarrow> wp (f j t) (I j)"
  shows "wp (for_down_n n lo f s) (I lo)"
  using assms
proof (induction n arbitrary: s)
  case 0
  then show ?case by simp
next
  case (Suc n)
  have "wp (f (lo + n) s) (I (lo + n))"
    using Suc.prems by simp
  then obtain t where t: "f (lo + n) s = Some t" and I: "I (lo + n) t"
    by (rule wpE)
  have "wp (for_down_n n lo f t) (I lo)"
    by (rule Suc.IH [OF I]) (use Suc.prems(2) in auto)
  then show ?case by (simp add: t)
qed

lemma for_down_rule:
  assumes "I hi s" and "lo \<le> hi"
    and "\<And>j t. lo \<le> j \<Longrightarrow> j < hi \<Longrightarrow> I (Suc j) t \<Longrightarrow> wp (f j t) (I j)"
    and "\<And>t. I lo t \<Longrightarrow> Q t"
  shows "wp (for_down hi lo f s) Q"
proof -
  have "wp (for_down_n (hi - lo) lo f s) (I lo)"
    by (rule for_down_n_rule) (use assms in auto)
  then show ?thesis
    unfolding for_down_def by (rule wp_mono) (use assms in auto)
qed

lemma while_opt_rule:
  fixes m :: "'s \<Rightarrow> nat"
  assumes "I s"
    and step: "\<And>t. I t \<Longrightarrow> b t \<Longrightarrow> wp (c t) (\<lambda>u. I u \<and> m u < m t)"
    and "\<And>t. I t \<Longrightarrow> \<not> b t \<Longrightarrow> Q t"
  shows "wp (while_opt b c s) Q"
  using assms(1)
proof (induction "m s" arbitrary: s rule: less_induct)
  case less
  show ?case
  proof (cases "b s")
    case True
    from step [OF less.prems True] obtain u where
      u: "c s = Some u" and I: "I u" and m: "m u < m s"
      by (auto elim: wpE)
    from less.hyps [OF m I] show ?thesis
      by (simp add: while_opt.simps [of b c s] True u)
  next
    case False
    with less.prems assms(3) show ?thesis
      by (simp add: while_opt.simps [of b c s])
  qed
qed

end
