(* ===== verification/Positional.thy ===== *)
theory Positional
  imports Prelude
begin

text \<open>
  Positional numbers.  \<open>digits_val B f n\<close> is the value of the \<open>n\<close> digits \<open>f 0, ..., f (n - 1)\<close>
  to the base \<open>B\<close>, least significant first.  The locale states what every base gives; it is
  interpreted for the base \<open>2 ^ 28\<close> of a \<open>Bignum\<close>, for the decimal digits of the text buffers
  and for the hexadecimal ones.
\<close>

definition digits_val :: "nat \<Rightarrow> (nat \<Rightarrow> nat) \<Rightarrow> nat \<Rightarrow> nat" where
  "digits_val B f n = (\<Sum>i<n. f i * B ^ i)"

lemma digits_val_0 [simp]: "digits_val B f 0 = 0"
  by (simp add: digits_val_def)

lemma digits_val_Suc: "digits_val B f (Suc n) = digits_val B f n + f n * B ^ n"
  by (simp add: digits_val_def)

lemma digits_val_cong: "(\<And>i. i < n \<Longrightarrow> f i = g i) \<Longrightarrow> digits_val B f n = digits_val B g n"
  by (simp add: digits_val_def)

lemma digits_val_split:
  "digits_val B f (m + n) = digits_val B f m + B ^ m * digits_val B (\<lambda>i. f (m + i)) n"
  by (induction n) (simp_all add: digits_val_Suc algebra_simps power_add)

lemma digits_val_Suc_low: "digits_val B f (Suc n) = f 0 + B * digits_val B (\<lambda>i. f (Suc i)) n"
  using digits_val_split [of B f "Suc 0" n] by (simp add: digits_val_Suc)

lemma digits_val_zeros:
  "m \<le> n \<Longrightarrow> (\<And>i. m \<le> i \<Longrightarrow> i < n \<Longrightarrow> f i = 0) \<Longrightarrow> digits_val B f n = digits_val B f m"
proof (induction n)
  case (Suc n)
  then show ?case
    by (cases "m = Suc n") (simp_all add: digits_val_Suc)
qed simp

lemma digits_val_shift:
  "(\<And>i. i < m \<Longrightarrow> f i = 0) \<Longrightarrow>
    digits_val B f (m + n) = B ^ m * digits_val B (\<lambda>i. f (m + i)) n"
  using digits_val_zeros [of 0 m f B] by (simp add: digits_val_split)

lemma digits_val_ge_digit: "i < n \<Longrightarrow> f i * B ^ i \<le> digits_val B f n"
  unfolding digits_val_def by (rule member_le_sum) auto

locale radix =
  fixes base :: nat
  assumes base_gt: "1 < base"
begin

lemma base_pos: "0 < base"
  using base_gt by simp

lemma val_less: "(\<And>i. i < n \<Longrightarrow> f i < base) \<Longrightarrow> digits_val base f n < base ^ n"
proof (induction n)
  case (Suc n)
  then have "digits_val base f n < base ^ n" and "f n \<le> base - 1"
    by (auto simp: less_Suc_eq) (metis Suc.prems Suc_pred base_pos less_Suc_eq_le lessI)
  then have "digits_val base f n + f n * base ^ n < base ^ n + (base - 1) * base ^ n"
    by (meson add_less_le_mono mult_le_mono1)
  also have "\<dots> = base ^ Suc n"
    using base_pos by (simp add: algebra_simps)
  finally show ?case by (simp add: digits_val_Suc)
qed simp

lemma val_ge: "i < n \<Longrightarrow> f i \<noteq> 0 \<Longrightarrow> base ^ i \<le> digits_val base f n"
  by (rule order_trans [OF _ digits_val_ge_digit [of i n f]]) simp_all

lemma val_top_less:
  "(\<And>i. i < n \<Longrightarrow> f i < base) \<Longrightarrow> digits_val base f (Suc n) < (f n + 1) * base ^ n"
  using val_less [of n f] by (simp add: digits_val_Suc)

text \<open>The number with the greater most significant digit that differs is the greater one.\<close>

lemma val_less_top:
  assumes "i < n" and "f i < g i"
    and "\<And>j. i < j \<Longrightarrow> j < n \<Longrightarrow> f j = g j"
    and "\<And>j. j < i \<Longrightarrow> f j < base"
  shows "digits_val base f n < digits_val base g n"
proof -
  define k where "k = n - Suc i"
  have n: "n = Suc i + k"
    using assms(1) by (simp add: k_def)
  have hi: "digits_val base (\<lambda>j. f (Suc i + j)) k = digits_val base (\<lambda>j. g (Suc i + j)) k"
    by (rule digits_val_cong) (use assms(3) n in auto)
  have "digits_val base f (Suc i) < (f i + 1) * base ^ i"
    by (rule val_top_less) (use assms(4) in auto)
  also have "\<dots> \<le> g i * base ^ i"
    using assms(2) by (intro mult_le_mono1) simp
  also have "\<dots> \<le> digits_val base g (Suc i)"
    by (simp add: digits_val_Suc)
  finally show ?thesis
    unfolding n digits_val_split [of base _ "Suc i" k] hi by simp
qed

lemma digit_eq:
  assumes "i < n" and "\<And>j. j < n \<Longrightarrow> f j < base"
  shows "digits_val base f n div base ^ i mod base = f i"
proof -
  define k where "k = n - Suc i"
  have n: "n = i + Suc k"
    using assms(1) by (simp add: k_def)
  have lo: "digits_val base f i < base ^ i"
    by (rule val_less) (use assms in auto)
  have "digits_val base f n div base ^ i = digits_val base (\<lambda>j. f (i + j)) (Suc k)"
    unfolding n digits_val_split [of base f i "Suc k"] using lo base_pos by simp
  also have "\<dots> mod base = f i"
    unfolding digits_val_Suc_low using assms by simp
  finally show ?thesis .
qed

end

interpretation bigit: radix 268435456
  by unfold_locales simp

interpretation decimal: radix 10
  by unfold_locales simp

interpretation hexadecimal: radix 16
  by unfold_locales simp

end
