(* ===== verification/Machine_Words.thy ===== *)
theory Machine_Words
  imports Prelude
begin

unbundle bit_operations_syntax

text \<open>
  The value of an unsigned operation as a natural number: \<open>+\<close>, \<open>-\<close> and \<open>*\<close> where they do not
  wrap, shifts, masks and the conversions between the widths that the code uses.
\<close>

named_theorems nat_words "unsigned operations as operations on nat"

lemma unat_lt32 [simp]: "unat (x :: u32) < 4294967296"
  using unsigned_less [of x, where ?'a = nat] by simp

lemma unat_lt64 [simp]: "unat (x :: u64) < 18446744073709551616"
  using unsigned_less [of x, where ?'a = nat] by simp

lemma unat_lt16 [simp]: "unat (x :: u16) < 65536"
  using unsigned_less [of x, where ?'a = nat] by simp

lemma mask28: "0xFFFFFFF = (mask 28 :: 'a::len word)"
  by (simp add: mask_numeral)

lemma mask32: "0xFFFFFFFF = (mask 32 :: 'a::len word)"
  by (simp add: mask_numeral)

lemma unat_take [nat_words]: "unat (take_bit n x) = unat x mod 2 ^ n" for x :: "'a::len word"
  by (simp only: unsigned_take_bit_eq flip: take_bit_eq_mod)

lemma unat_and_mask: "unat (x AND mask n) = unat x mod 2 ^ n" for x :: "'a::len word"
  by (simp only: unat_take flip: take_bit_eq_mask)

lemma unat_and28 [nat_words]: "unat (x AND 0xFFFFFFF) = unat x mod 2 ^ 28" for x :: "'a::len word"
  unfolding mask28 by (rule unat_and_mask)

lemma unat_and32 [nat_words]: "unat (x AND 0xFFFFFFFF) = unat x mod 2 ^ 32" for x :: "'a::len word"
  unfolding mask32 by (rule unat_and_mask)

lemma unat_and1 [nat_words]: "unat (x AND 1) = unat x mod 2" for x :: "'a::len word"
  using unat_and_mask [of x 1] by simp

lemma unat_drop [nat_words]: "unat (drop_bit n x) = unat x div 2 ^ n" for x :: "'a::len word"
  by (subst unat_drop_bit_eq) (rule drop_bit_eq_div)

lemma unat_push_mod: "unat (push_bit n x) = unat x * 2 ^ n mod 2 ^ LENGTH('a)"
  for x :: "'a::len word"
  using unsigned_push_bit_eq [of n x, where ?'a = nat]
  by (simp only: push_bit_eq_mult [where ?'a = nat] take_bit_eq_mod [where ?'a = nat])

lemma unat_push: "unat x * 2 ^ n < 2 ^ LENGTH('a) \<Longrightarrow> unat (push_bit n x) = unat x * 2 ^ n"
  for x :: "'a::len word"
  by (simp only: unat_push_mod mod_less)

lemma unat_plus: "unat x + unat y < 2 ^ LENGTH('a) \<Longrightarrow> unat (x + y) = unat x + unat y"
  for x :: "'a::len word"
  by (simp add: unat_word_ariths)

lemma unat_times: "unat x * unat y < 2 ^ LENGTH('a) \<Longrightarrow> unat (x * y) = unat x * unat y"
  for x :: "'a::len word"
  by (simp add: unat_word_ariths)

lemma unat_minus: "unat y \<le> unat x \<Longrightarrow> unat (x - y) = unat x - unat y"
  for x :: "'a::len word"
  by (simp add: unat_sub word_le_nat_alt)

lemma unat_minus_mod:
  "unat (x - y) = (unat x + 2 ^ LENGTH('a) - unat y) mod 2 ^ LENGTH('a)" for x :: "'a::len word"
proof -
  have y: "unat y < 2 ^ LENGTH('a)"
    by (rule unsigned_less)
  show ?thesis
  proof (cases "unat y \<le> unat x")
    case True
    moreover have "unat x - unat y < 2 ^ LENGTH('a)"
      by (rule le_less_trans [OF diff_le_self unsigned_less])
    moreover have "unat x + 2 ^ LENGTH('a) - unat y = (unat x - unat y) + 2 ^ LENGTH('a)"
      using True by simp
    ultimately show ?thesis
      by (simp only: unat_minus mod_add_self2 mod_less)
  next
    case False
    then have "unat (x - y) = unat x + 2 ^ LENGTH('a) - unat y"
      using y by (simp add: unat_sub_if' add.commute)
    moreover have "unat x + 2 ^ LENGTH('a) - unat y < 2 ^ LENGTH('a)"
      using False y by linarith
    ultimately show ?thesis
      by (simp only: mod_less)
  qed
qed

lemma unat_div_word [nat_words]: "unat (x div y) = unat x div unat y" for x :: "'a::len word"
  by (rule unat_div)

lemma unat_mod_word [nat_words]: "unat (x mod y) = unat x mod unat y" for x :: "'a::len word"
  by (rule unat_mod)

lemma unat_u32_u64 [nat_words]: "unat (ucast (x :: u32) :: u64) = unat x"
  using unat_lt32 [of x] by (simp add: unsigned_ucast_eq take_bit_nat_eq_self del: unat_lt32)

lemma unat_u16_u32 [nat_words]: "unat (ucast (x :: u16) :: u32) = unat x"
  using unat_lt16 [of x] by (simp add: unsigned_ucast_eq take_bit_nat_eq_self del: unat_lt16)

lemma unat_u16_u64 [nat_words]: "unat (ucast (x :: u16) :: u64) = unat x"
  using unat_lt16 [of x] by (simp add: unsigned_ucast_eq take_bit_nat_eq_self del: unat_lt16)

lemma unat_u64_u32 [nat_words]: "unat (ucast (x :: u64) :: u32) = unat x mod 2 ^ 32"
  by (simp add: unsigned_ucast_eq take_bit_eq_mod)

lemma unat_u32_u16 [nat_words]: "unat (ucast (x :: u32) :: u16) = unat x mod 2 ^ 16"
  by (simp add: unsigned_ucast_eq take_bit_eq_mod)

lemma mod_pow_mod: "m \<le> k \<Longrightarrow> n mod 2 ^ m mod 2 ^ k = n mod (2 :: nat) ^ m"
proof -
  assume "m \<le> k"
  have "n mod 2 ^ m < (2 :: nat) ^ m"
    by (rule mod_less_divisor) simp
  also have "\<dots> \<le> 2 ^ k"
    using \<open>m \<le> k\<close> by (rule power_increasing) simp
  finally show ?thesis
    by (rule mod_less)
qed

text \<open>The conversion to a narrower type is a ring homomorphism.\<close>

lemma take_bit_32_64_minus: "take_bit 32 (take_bit 64 x - take_bit 64 y) = take_bit 32 (x - y :: int)"
proof -
  have "take_bit 32 (take_bit 64 x - take_bit 64 y) =
      take_bit 32 (take_bit 32 (take_bit 64 x) - take_bit 32 (take_bit 64 y))"
    by (rule take_bit_diff [symmetric])
  also have "\<dots> = take_bit 32 (take_bit 32 x - take_bit 32 y)"
    by (simp add: take_bit_take_bit)
  also have "\<dots> = take_bit 32 (x - y)"
    by (rule take_bit_diff)
  finally show ?thesis .
qed

lemma ucast_u32_minus: "(ucast (x - y :: u64) :: u32) = ucast x - ucast y"
  by transfer (simp add: take_bit_32_64_minus)

lemma ucast_u32_u64_u32 [simp]: "(ucast (ucast (x :: u32) :: u64) :: u32) = x"
  by (simp add: word_unat_eq_iff nat_words)

lemma unat_low28: "unat (ucast (r :: u64) AND 0xFFFFFFF :: u32) = unat r mod 268435456"
  unfolding unat_and28 unat_u64_u32 by (subst mod_mod_cancel) simp_all

lemma sint_small:
  assumes "unat (x :: u32) < 2147483648"
  shows "sint x = int (unat x)"
proof -
  have "uint x < 2147483648"
    using assms by (simp only: unat_eq_nat_uint nat_less_iff uint_ge_0)
  then have "sint x = uint x"
    unfolding sint_uint using order_trans [OF _ uint_ge_0 [of x], of "- 2147483648"]
    by (subst signed_take_bit_int_eq_self) simp_all
  then show ?thesis
    by simp
qed

text \<open>No bit is set from index \<open>n\<close> on.\<close>

lemma and_not_mask_zero: "x AND NOT (mask n) = 0 \<longleftrightarrow> unat x < 2 ^ n" for x :: "'a::len word"
proof -
  have "x AND NOT (mask n) = 0 \<longleftrightarrow> take_bit n x = x"
    by (auto simp: bit_eq_iff bit_simps)
  also have "\<dots> \<longleftrightarrow> unat x mod 2 ^ n = unat x"
    by (simp only: word_unat_eq_iff unat_take)
  also have "\<dots> \<longleftrightarrow> unat x < 2 ^ n"
    by (metis mod_less mod_less_divisor zero_less_numeral zero_less_power)
  finally show ?thesis .
qed

lemma high_bits_zero: "(x :: u64) AND NOT (push_bit n 1 - 1) = 0 \<longleftrightarrow> unat x < 2 ^ n"
  by (simp add: and_not_mask_zero flip: mask_eq_exp_minus_1)

lemma unat_eq_zero: "x = 0 \<longleftrightarrow> unat x = 0" for x :: "'a::len word"
  by (simp add: unat_eq_0)

section \<open>Shifts by an int and conversions to int\<close>

text \<open>
  A shift by a negative amount, or by the width and more, is undefined in C++; \<open>shl\<close> and \<open>shr\<close> are
  the shifts that stop there.  \<open>to_int\<close> is \<open>static_cast<int>\<close> of a 64 bit word.
\<close>

definition shl :: "'a::len word \<Rightarrow> int \<Rightarrow> 'a word option" where
  "shl x n = do { ASSERT (0 \<le> n \<and> n < int LENGTH('a)); Some (push_bit (nat n) x) }"

definition shr :: "'a::len word \<Rightarrow> int \<Rightarrow> 'a word option" where
  "shr x n = do { ASSERT (0 \<le> n \<and> n < int LENGTH('a)); Some (drop_bit (nat n) x) }"

definition to_int :: "u64 \<Rightarrow> int" where
  "to_int x = sint (ucast x :: u32)"

lemma shl_Some [simp]: "0 \<le> n \<Longrightarrow> n < int LENGTH('a) \<Longrightarrow> shl x n = Some (push_bit (nat n) x)" for x :: "'a::len word"
  by (simp add: shl_def ASSERT_def)

lemma shr_Some [simp]: "0 \<le> n \<Longrightarrow> n < int LENGTH('a) \<Longrightarrow> shr x n = Some (drop_bit (nat n) x)" for x :: "'a::len word"
  by (simp add: shr_def ASSERT_def)

lemma to_int_small: "unat x < 2147483648 \<Longrightarrow> to_int x = int (unat x)"
  by (simp add: to_int_def sint_small unat_u64_u32)

lemmas word_nat_order = word_less_nat_alt word_le_nat_alt

end
