(* ===== verification/Bignum.thy ===== *)
theory Bignum
  imports Positional Machine_Words
begin

unbundle bit_operations_syntax

text \<open>
  \<open>class Bignum\<close> of \<open>bignum.h\<close> and \<open>bignum.cc\<close>: its state, the constants, the private helpers
  and the assignments.  A method is a function from the object to the object after the call
  (and its result); the fields \<open>used_digits_\<close> and \<open>exponent_\<close> are C++ ints that are never
  negative and are natural numbers here.  \<open>bignum_ok\<close> is the representation invariant,
  \<open>bvalue\<close> the number that an object stands for.
\<close>

section \<open>State and constants\<close>

record bignum =
  bigits :: "u32 list"
  used_digits :: nat
  exponent :: nat

definition kMaxSignificantBits :: nat where "kMaxSignificantBits = 3584"
definition kChunkSize :: nat where "kChunkSize = 32"
definition kDoubleChunkSize :: nat where "kDoubleChunkSize = 64"
definition kBigitSize :: nat where "kBigitSize = 28"
definition kBigitMask :: u32 where "kBigitMask = push_bit kBigitSize 1 - 1"
definition kBigitCapacity :: nat where "kBigitCapacity = kMaxSignificantBits div kBigitSize"

lemmas bignum_consts =
  kMaxSignificantBits_def kChunkSize_def kDoubleChunkSize_def kBigitSize_def

lemma kBigitCapacity_eq [simp]: "kBigitCapacity = 128"
  by (simp add: kBigitCapacity_def bignum_consts)

lemma kBigitMask_eq [simp]: "kBigitMask = 0xFFFFFFF"
  by (simp add: kBigitMask_def bignum_consts)

declare bignum_consts [simp]

text \<open>The constructor.\<close>

definition Bignum_new :: bignum where
  "Bignum_new = \<lparr>bigits = replicate kBigitCapacity 0, used_digits = 0, exponent = 0\<rparr>"

section \<open>Private helpers\<close>

definition EnsureCapacity :: "nat \<Rightarrow> unit option" where
  "EnsureCapacity n = (if kBigitCapacity < n then None else Some ())"

definition BigitLength :: "bignum \<Rightarrow> nat" where
  "BigitLength b = used_digits b + exponent b"

text \<open>\<open>bigits_[used_digits_ - 1]\<close>: with no digit in use the index is \<open>-1\<close>, out of bounds.\<close>

definition top_bigit :: "bignum \<Rightarrow> u32 option" where
  "top_bigit b = (if used_digits b = 0 then None else rd (bigits b) (used_digits b - 1))"

definition IsClamped :: "bignum \<Rightarrow> bool option" where
  "IsClamped b =
    (if used_digits b = 0 then Some True else map_option (\<lambda>x. x \<noteq> 0) (top_bigit b))"

definition ASSERT_IsClamped :: "bignum \<Rightarrow> unit option" where
  "ASSERT_IsClamped b = do { c \<leftarrow> IsClamped b; ASSERT c }"

primrec clamp_loop :: "u32 list \<Rightarrow> nat \<Rightarrow> nat option" where
  "clamp_loop bs 0 = Some 0"
| "clamp_loop bs (Suc n) = do { x \<leftarrow> rd bs n; if x = 0 then clamp_loop bs n else Some (Suc n) }"

definition Clamp :: "bignum \<Rightarrow> bignum option" where
  "Clamp b = do {
     n \<leftarrow> clamp_loop (bigits b) (used_digits b);
     let b = b\<lparr>used_digits := n\<rparr>;
     Some (if n = 0 then b\<lparr>exponent := 0\<rparr> else b) }"

definition Zero :: "bignum \<Rightarrow> bignum option" where
  "Zero b = do {
     bs \<leftarrow> for_up 0 (used_digits b) (\<lambda>i bs. wr bs i 0) (bigits b);
     Some (b\<lparr>bigits := bs, used_digits := 0, exponent := 0\<rparr>) }"

definition Align :: "bignum \<Rightarrow> bignum \<Rightarrow> bignum option" where
  "Align b other =
    (if exponent other < exponent b then do {
       let zero_digits = exponent b - exponent other;
       EnsureCapacity (used_digits b + zero_digits);
       bs \<leftarrow> for_down (used_digits b) 0
               (\<lambda>i bs. do { x \<leftarrow> rd bs i; wr bs (i + zero_digits) x }) (bigits b);
       bs \<leftarrow> for_up 0 zero_digits (\<lambda>i bs. wr bs i 0) bs;
       Some (b\<lparr>bigits := bs, used_digits := used_digits b + zero_digits,
               exponent := exponent b - zero_digits\<rparr>) }
     else Some b)"

definition BigitsShiftLeft :: "bignum \<Rightarrow> nat \<Rightarrow> bignum option" where
  "BigitsShiftLeft b shift_amount = do {
     ASSERT (shift_amount < kBigitSize);
     (carry, bs) \<leftarrow> for_up 0 (used_digits b)
       (\<lambda>i (carry, bs). do {
          x \<leftarrow> rd bs i;
          let new_carry = drop_bit (kBigitSize - shift_amount) x;
          bs \<leftarrow> wr bs i ((push_bit shift_amount x + carry) AND kBigitMask);
          Some (new_carry, bs) }) (0 :: u32, bigits b);
     if carry \<noteq> 0 then do {
       bs \<leftarrow> wr bs (used_digits b) carry;
       Some (b\<lparr>bigits := bs, used_digits := used_digits b + 1\<rparr>) }
     else Some (b\<lparr>bigits := bs\<rparr>) }"

definition BigitAt :: "bignum \<Rightarrow> nat \<Rightarrow> u32 option" where
  "BigitAt b index =
    (if BigitLength b \<le> index then Some 0
     else if index < exponent b then Some 0
     else rd (bigits b) (index - exponent b))"

section \<open>Assignments\<close>

definition AssignUInt16 :: "bignum \<Rightarrow> u16 \<Rightarrow> bignum option" where
  "AssignUInt16 b v = do {
     ASSERT (16 \<le> kBigitSize);
     b \<leftarrow> Zero b;
     if v = 0 then Some b else do {
       EnsureCapacity 1;
       bs \<leftarrow> wr (bigits b) 0 (ucast v);
       Some (b\<lparr>bigits := bs, used_digits := 1\<rparr>) } }"

definition AssignUInt64 :: "bignum \<Rightarrow> u64 \<Rightarrow> bignum option" where
  "AssignUInt64 b v = do {
     b \<leftarrow> Zero b;
     if v = 0 then Some b else do {
       let needed_bigits = 64 div kBigitSize + 1;
       EnsureCapacity needed_bigits;
       (v, bs) \<leftarrow> for_up 0 needed_bigits
         (\<lambda>i (v, bs). do {
            bs \<leftarrow> wr bs i (ucast (v AND ucast kBigitMask));
            Some (drop_bit kBigitSize v, bs) }) (v, bigits b);
       Clamp (b\<lparr>bigits := bs, used_digits := needed_bigits\<rparr>) } }"

definition AssignBignum :: "bignum \<Rightarrow> bignum \<Rightarrow> bignum option" where
  "AssignBignum b other = do {
     bs \<leftarrow> for_up 0 (used_digits other)
             (\<lambda>i bs. do { x \<leftarrow> rd (bigits other) i; wr bs i x }) (bigits b);
     bs \<leftarrow> for_up (used_digits other) (used_digits b) (\<lambda>i bs. wr bs i 0) bs;
     Some (b\<lparr>bigits := bs, used_digits := used_digits other, exponent := exponent other\<rparr>) }"

definition ShiftLeft :: "bignum \<Rightarrow> nat \<Rightarrow> bignum option" where
  "ShiftLeft b shift_amount =
    (if used_digits b = 0 then Some b
     else do {
       let b = b\<lparr>exponent := exponent b + shift_amount div kBigitSize\<rparr>;
       let local_shift = shift_amount mod kBigitSize;
       EnsureCapacity (used_digits b + 1);
       BigitsShiftLeft b local_shift })"

section \<open>Representation invariant and value\<close>

abbreviation B28 :: nat where "B28 \<equiv> 268435456"

definition dv :: "u32 list \<Rightarrow> nat \<Rightarrow> nat" where
  "dv bs n = digits_val B28 (\<lambda>i. unat (bs ! i)) n"

definition bigits_ok :: "u32 list \<Rightarrow> nat \<Rightarrow> bool" where
  "bigits_ok bs n \<longleftrightarrow> length bs = 128 \<and> n \<le> 128 \<and>
     (\<forall>i<n. unat (bs ! i) < B28) \<and> (\<forall>i. n \<le> i \<and> i < 128 \<longrightarrow> bs ! i = 0)"

definition bvalue :: "bignum \<Rightarrow> nat" where
  "bvalue b = dv (bigits b) (used_digits b) * B28 ^ exponent b"

abbreviation bsig :: "bignum \<Rightarrow> nat" where
  "bsig b \<equiv> dv (bigits b) (used_digits b)"

definition bignum_rep :: "bignum \<Rightarrow> bool" where
  "bignum_rep b \<longleftrightarrow> bigits_ok (bigits b) (used_digits b)"

definition bignum_ok :: "bignum \<Rightarrow> bool" where
  "bignum_ok b \<longleftrightarrow> bignum_rep b \<and>
     (if used_digits b = 0 then exponent b = 0 else bigits b ! (used_digits b - 1) \<noteq> 0)"

lemma bigits_okD:
  assumes "bigits_ok bs n"
  shows "length bs = 128" and "n \<le> 128"
    and "i < 128 \<Longrightarrow> unat (bs ! i) < B28"
    and "n \<le> i \<Longrightarrow> i < 128 \<Longrightarrow> bs ! i = 0"
  using assms by (auto simp: bigits_ok_def) (cases "i < n"; auto)

lemma bigits_okI:
  assumes "length bs = 128" and "n \<le> 128"
    and "\<And>i. i < n \<Longrightarrow> unat (bs ! i) < B28"
    and "\<And>i. n \<le> i \<Longrightarrow> i < 128 \<Longrightarrow> bs ! i = 0"
  shows "bigits_ok bs n"
  using assms by (simp add: bigits_ok_def)

lemma dv_0 [simp]: "dv bs 0 = 0"
  by (simp add: dv_def)

lemma dv_Suc: "dv bs (Suc n) = dv bs n + unat (bs ! n) * B28 ^ n"
  by (simp add: dv_def digits_val_Suc)

lemma dv_cong: "(\<And>i. i < n \<Longrightarrow> as ! i = bs ! i) \<Longrightarrow> dv as n = dv bs n"
  by (simp add: dv_def cong: digits_val_cong)

lemma dv_update [simp]: "n \<le> i \<Longrightarrow> dv (bs[i := v]) n = dv bs n"
  by (rule dv_cong) simp

lemma dv_less: "(\<And>i. i < n \<Longrightarrow> unat (bs ! i) < B28) \<Longrightarrow> dv bs n < B28 ^ n"
  unfolding dv_def by (rule bigit.val_less)

lemma dv_zeros: "m \<le> n \<Longrightarrow> (\<And>i. m \<le> i \<Longrightarrow> i < n \<Longrightarrow> bs ! i = 0) \<Longrightarrow> dv bs n = dv bs m"
  unfolding dv_def by (rule digits_val_zeros) auto

lemma dv_extend: "bigits_ok bs n \<Longrightarrow> n \<le> m \<Longrightarrow> m \<le> 128 \<Longrightarrow> dv bs m = dv bs n"
  by (rule dv_zeros) (auto simp: bigits_ok_def)

lemma dv_ge: "i < n \<Longrightarrow> bs ! i \<noteq> 0 \<Longrightarrow> B28 ^ i \<le> dv bs n"
  unfolding dv_def by (rule bigit.val_ge) (auto simp: unat_eq_zero)

lemma pow28_less: "x < B28 ^ a \<Longrightarrow> a \<le> b \<Longrightarrow> x < B28 ^ b"
  by (rule less_le_trans [OF _ power_increasing]) simp_all

lemma pow28_le: "B28 ^ b \<le> x \<Longrightarrow> a \<le> b \<Longrightarrow> B28 ^ a \<le> x"
  by (rule order_trans [OF power_increasing]) simp_all

text \<open>The number of bigits in use bounds the value, from both sides when the top one is not zero.\<close>

lemma bignum_rep_less: "bignum_rep b \<Longrightarrow> bvalue b < B28 ^ BigitLength b"
proof -
  assume "bignum_rep b"
  then have "dv (bigits b) (used_digits b) < B28 ^ used_digits b"
    by (intro dv_less) (auto simp: bignum_rep_def bigits_ok_def)
  then show ?thesis
    by (simp add: bvalue_def BigitLength_def power_add)
qed

lemma bignum_ok_rep [simp]: "bignum_ok b \<Longrightarrow> bignum_rep b"
  by (simp add: bignum_ok_def)

lemma bignum_ok_ge:
  assumes "bignum_ok b" and "used_digits b \<noteq> 0"
  shows "B28 ^ (BigitLength b - 1) \<le> bvalue b"
proof -
  obtain n where n: "used_digits b = Suc n"
    using assms(2) not0_implies_Suc by blast
  then have "B28 ^ n \<le> dv (bigits b) (Suc n)"
    using assms(1) by (intro dv_ge) (auto simp: bignum_ok_def)
  then show ?thesis
    by (simp add: bvalue_def BigitLength_def power_add n)
qed

lemma bvalue_zero_iff: "bignum_ok b \<Longrightarrow> bvalue b = 0 \<longleftrightarrow> used_digits b = 0"
proof (cases "used_digits b = 0")
  case False
  assume "bignum_ok b"
  from bignum_ok_ge [OF this False] have "bvalue b \<noteq> 0"
    by (metis less_numeral_extra(3) not_le power_eq_0_iff zero_less_iff_neq_zero zero_neq_numeral)
  with False show ?thesis by simp
qed (simp add: bvalue_def)

lemma BigitLength_zero: "bignum_ok b \<Longrightarrow> used_digits b = 0 \<Longrightarrow> BigitLength b = 0"
  by (simp add: bignum_ok_def BigitLength_def)

lemma BigitLength_ge:
  assumes "bignum_ok b" and "n < BigitLength b"
  shows "B28 ^ n \<le> bvalue b"
proof (rule pow28_le)
  show "B28 ^ (BigitLength b - 1) \<le> bvalue b"
    using assms BigitLength_zero [of b] by (intro bignum_ok_ge) auto
  show "n \<le> BigitLength b - 1"
    using assms(2) by linarith
qed

lemma BigitLength_le:
  assumes "bignum_ok a" and "bvalue a < B28 ^ n"
  shows "BigitLength a \<le> n"
proof (cases "used_digits a = 0")
  case False
  have "B28 ^ (BigitLength a - 1) < B28 ^ n"
    using bignum_ok_ge [OF assms(1) False] assms(2) by (rule le_less_trans)
  then show ?thesis
    by (simp add: power_less_imp_less_exp)
qed (use assms in \<open>simp add: BigitLength_zero\<close>)

section \<open>The helpers and assignments are correct\<close>

lemma wp_EnsureCapacity [wp_simps]: "wp (EnsureCapacity n) Q \<longleftrightarrow> n \<le> 128 \<and> Q ()"
  by (simp add: EnsureCapacity_def)

lemma ASSERT_IsClamped_ok: "bignum_ok b \<Longrightarrow> ASSERT_IsClamped b = Some ()"
  by (auto simp: ASSERT_IsClamped_def IsClamped_def top_bigit_def bignum_ok_def bignum_rep_def
      bigits_ok_def ASSERT_def rd_def split: if_splits)

lemma wp_ASSERT_IsClamped: "bignum_ok b \<Longrightarrow> wp (ASSERT_IsClamped b) Q \<longleftrightarrow> Q ()"
  by (simp add: ASSERT_IsClamped_ok)

lemma clamp_loop_wp:
  "n \<le> length bs \<Longrightarrow> wp (clamp_loop bs n) (\<lambda>m. m \<le> n \<and> (m \<noteq> 0 \<longrightarrow> bs ! (m - 1) \<noteq> 0) \<and>
     (\<forall>i. m \<le> i \<and> i < n \<longrightarrow> bs ! i = 0))"
proof (induction n)
  case (Suc n)
  then have "wp (clamp_loop bs n) (\<lambda>m. m \<le> n \<and> (m \<noteq> 0 \<longrightarrow> bs ! (m - 1) \<noteq> 0) \<and>
     (\<forall>i. m \<le> i \<and> i < n \<longrightarrow> bs ! i = 0))"
    by simp
  with Suc.prems show ?case
    by (auto simp: wp_simps elim!: wp_mono simp: less_Suc_eq)
qed simp

lemma Clamp_wp':
  assumes "bignum_rep b"
  shows "wp (Clamp b) (\<lambda>r. bignum_ok r \<and> bvalue r = bvalue b \<and> exponent r \<le> exponent b)"
proof -
  have ok: "bigits_ok (bigits b) (used_digits b)"
    using assms by (simp add: bignum_rep_def)
  have "wp (clamp_loop (bigits b) (used_digits b)) (\<lambda>m. m \<le> used_digits b \<and>
      (m \<noteq> 0 \<longrightarrow> bigits b ! (m - 1) \<noteq> 0) \<and>
      (\<forall>i. m \<le> i \<and> i < used_digits b \<longrightarrow> bigits b ! i = 0))"
    by (rule clamp_loop_wp) (use ok in \<open>simp add: bigits_ok_def\<close>)
  then obtain m where m: "clamp_loop (bigits b) (used_digits b) = Some m" "m \<le> used_digits b"
      "m \<noteq> 0 \<longrightarrow> bigits b ! (m - 1) \<noteq> 0"
      "\<forall>i. m \<le> i \<and> i < used_digits b \<longrightarrow> bigits b ! i = 0"
    by (auto elim: wpE)
  have "bigits_ok (bigits b) m"
  proof (rule bigits_okI)
    show "\<And>i. m \<le> i \<Longrightarrow> i < 128 \<Longrightarrow> bigits b ! i = 0"
      using m(4) bigits_okD(4) [OF ok] linorder_not_less by blast
  qed (use m(2) bigits_okD [OF ok] in auto)
  moreover have "dv (bigits b) (used_digits b) = dv (bigits b) m"
    by (rule dv_zeros) (use m in auto)
  ultimately show ?thesis
    using m by (auto simp: Clamp_def Let_def bignum_ok_def bignum_rep_def bvalue_def)
qed

lemma Clamp_wp: "bignum_rep b \<Longrightarrow> wp (Clamp b) (\<lambda>r. bignum_ok r \<and> bvalue r = bvalue b)"
  by (rule wp_mono [OF Clamp_wp']) auto

lemma Zero_wp:
  assumes "bignum_rep b"
  shows "wp (Zero b) (\<lambda>r. r = Bignum_new)"
proof -
  have ok: "bigits_ok (bigits b) (used_digits b)"
    using assms by (simp add: bignum_rep_def)
  have "wp (for_up 0 (used_digits b) (\<lambda>i bs. wr bs i 0) (bigits b)) (\<lambda>bs. bs = replicate 128 0)"
  proof (rule for_up_rule [where I = "\<lambda>j bs. length bs = 128 \<and> (\<forall>i<j. bs ! i = 0) \<and>
      (\<forall>i. used_digits b \<le> i \<and> i < 128 \<longrightarrow> bs ! i = 0)"])
    fix bs :: "u32 list"
    assume "length bs = 128 \<and> (\<forall>i<used_digits b. bs ! i = 0) \<and>
      (\<forall>i. used_digits b \<le> i \<and> i < 128 \<longrightarrow> bs ! i = 0)"
    then show "bs = replicate 128 0"
      by (intro nth_equalityI) (auto, metis linorder_not_less)
  qed (use ok in \<open>auto simp: bigits_ok_def wp_simps nth_list_update less_Suc_eq\<close>)
  then show ?thesis
    by (auto simp: Zero_def wp_simps Bignum_new_def elim!: wp_mono)
qed

lemma bignum_ok_new [simp]: "bignum_ok Bignum_new" "bvalue Bignum_new = 0"
  by (simp_all add: bignum_ok_def bignum_rep_def bigits_ok_def Bignum_new_def bvalue_def)

lemma Bignum_new_simps [simp]: "used_digits Bignum_new = 0" "exponent Bignum_new = 0" "bigits Bignum_new = replicate 128 0"
  by (simp_all add: Bignum_new_def)

lemma AssignUInt16_wp:
  assumes "bignum_rep b"
  shows "wp (AssignUInt16 b v) (\<lambda>r. bignum_ok r \<and> bvalue r = unat v \<and> exponent r = 0)"
proof -
  obtain z where z: "Zero b = Some z" "z = Bignum_new"
    using Zero_wp [OF assms] by (rule wpE)
  show ?thesis
    using unat_lt16 [of v]
    by (auto simp: AssignUInt16_def z wp_simps bignum_ok_def bignum_rep_def bigits_ok_def
        bvalue_def dv_Suc Bignum_new_def nth_list_update unat_eq_zero nat_words simp del: unat_lt16)
qed

text \<open>The three bigits of a 64 bit value.\<close>

lemma three_bigits:
  fixes n :: nat
  shows "n mod B28 + n div B28 mod B28 * B28 + n div (B28 * B28) * (B28 * B28) = n"
proof -
  have "n div B28 mod B28 * B28 + n div (B28 * B28) * (B28 * B28) = n div B28 * B28"
    using div_mult_mod_eq [of "n div B28" B28] by (simp only: div_mult2_eq)
  then show ?thesis
    using mod_div_mult_eq [of n B28] by (simp only: add.assoc)
qed

lemma AssignUInt64_wp:
  assumes "bignum_rep b"
  shows "wp (AssignUInt64 b v) (\<lambda>r. bignum_ok r \<and> bvalue r = unat v \<and> exponent r = 0)"
proof (cases "v = 0")
  case True
  then show ?thesis
    using Zero_wp [OF assms] by (auto simp: AssignUInt64_def wp_simps elim!: wp_mono)
next
  case False
  obtain z where z: "Zero b = Some z" "z = Bignum_new"
    using Zero_wp [OF assms] by (rule wpE)
  define d where "d = (\<lambda>i::nat. ucast (drop_bit (28 * i) v AND 0xFFFFFFF) :: u32)"
  have d: "unat (d i) = unat v div B28 ^ i mod B28" for i
    by (simp add: d_def nat_words power_mult)
  define bs where "bs = (replicate 128 0)[0 := d 0, Suc 0 := d (Suc 0), Suc (Suc 0) := d (Suc (Suc 0))]"
  let ?r = "z\<lparr>bigits := bs, used_digits := 3\<rparr>"
  have "AssignUInt64 b v = Clamp ?r"
    using False by (simp add: AssignUInt64_def z for_up_def numeral_3_eq_3 wr_def Bignum_new_def
        EnsureCapacity_def bs_def d_def)
  moreover have "bigits_ok bs 3"
    by (auto simp: bigits_ok_def bs_def nth_list_update d)
  then have "wp (Clamp ?r) (\<lambda>r. bignum_ok r \<and> bvalue r = bvalue ?r \<and> exponent r \<le> exponent ?r)"
    by (intro Clamp_wp') (simp add: bignum_rep_def)
  moreover have "exponent ?r = 0"
    by (simp add: z Bignum_new_def)
  moreover have "unat v div 72057594037927936 < B28"
    using unat_lt64 [of v] by arith
  then have "dv bs 3 = unat v"
    using three_bigits [of "unat v"] unat_lt64 [of v]
    by (simp add: dv_Suc numeral_3_eq_3 bs_def d div_mult2_eq [of _ B28 B28, simplified, symmetric])
  then have "bvalue ?r = unat v"
    by (simp add: bvalue_def z Bignum_new_def)
  ultimately show ?thesis
    by simp
qed

lemma bignum_eqI:
  "bigits a = bigits b \<Longrightarrow> used_digits a = used_digits b \<Longrightarrow> exponent a = exponent b \<Longrightarrow> a = (b :: bignum)"
  by simp

lemma AssignBignum_wp:
  assumes "bignum_rep b" and "bignum_rep other"
  shows "wp (AssignBignum b other) (\<lambda>r. r = other)"
proof -
  let ?n = "used_digits other"
  have ok: "bigits_ok (bigits b) (used_digits b)" "bigits_ok (bigits other) ?n"
    using assms by (simp_all add: bignum_rep_def)
  have "wp (for_up 0 ?n (\<lambda>i bs. do { x \<leftarrow> rd (bigits other) i; wr bs i x }) (bigits b))
      (\<lambda>bs. length bs = 128 \<and> (\<forall>i<?n. bs ! i = bigits other ! i) \<and> (\<forall>i. used_digits b \<le> i \<and> i < 128 \<and> ?n \<le> i \<longrightarrow> bs ! i = 0))"
    by (rule for_up_rule [where I = "\<lambda>j bs. length bs = 128 \<and> (\<forall>i<j. bs ! i = bigits other ! i) \<and>
        (\<forall>i. used_digits b \<le> i \<and> i < 128 \<and> ?n \<le> i \<longrightarrow> bs ! i = 0)"])
      (use ok in \<open>auto simp: bigits_ok_def wp_simps nth_list_update less_Suc_eq\<close>)
  then obtain bs where bs: "for_up 0 ?n (\<lambda>i bs. do { x \<leftarrow> rd (bigits other) i; wr bs i x }) (bigits b) = Some bs"
      "length bs = 128" "\<forall>i<?n. bs ! i = bigits other ! i"
      "\<forall>i. used_digits b \<le> i \<and> i < 128 \<and> ?n \<le> i \<longrightarrow> bs ! i = 0"
    by (auto elim: wpE)
  have "wp (for_up ?n (used_digits b) (\<lambda>i bs. wr bs i 0) bs) (\<lambda>bs. bs = bigits other)"
  proof (cases "?n \<le> used_digits b")
    case True
    show ?thesis
    proof (rule for_up_rule [OF _ True, where I = "\<lambda>j bs. length bs = 128 \<and> (\<forall>i<?n. bs ! i = bigits other ! i) \<and>
        (\<forall>i. (i < j \<or> used_digits b \<le> i) \<and> i < 128 \<and> ?n \<le> i \<longrightarrow> bs ! i = 0)"])
      fix t :: "u32 list"
      assume "length t = 128 \<and> (\<forall>i<?n. t ! i = bigits other ! i) \<and>
        (\<forall>i. (i < used_digits b \<or> used_digits b \<le> i) \<and> i < 128 \<and> ?n \<le> i \<longrightarrow> t ! i = 0)"
      then show "t = bigits other"
        using ok(2) by (intro nth_equalityI) (auto simp: bigits_ok_def, metis linorder_not_less)
    qed (use bs ok in \<open>auto simp: bigits_ok_def wp_simps nth_list_update less_Suc_eq\<close>)
  next
    case False
    have "bs = bigits other"
      using bs ok False by (intro nth_equalityI) (auto simp: bigits_ok_def, metis leI less_or_eq_imp_le order_trans)
    with False show ?thesis by (simp add: for_up_def)
  qed
  then show ?thesis
    by (auto simp: AssignBignum_def bs(1) wp_simps elim!: wp_mono)
qed

text \<open>The result of \<open>Align\<close> as an array, and what it keeps.\<close>

lemma Align_loops_wp:
  fixes bs :: "u32 list"
  assumes "length bs = 128" and "n + z \<le> 128" and "\<forall>i. n \<le> i \<and> i < 128 \<longrightarrow> bs ! i = 0"
  shows "wp (do {
       bs \<leftarrow> for_down n 0 (\<lambda>i bs. do { x \<leftarrow> rd bs i; wr bs (i + z) x }) bs;
       for_up 0 z (\<lambda>i bs. wr bs i 0) bs })
    (\<lambda>r. length r = 128 \<and> (\<forall>i<z. r ! i = 0) \<and> (\<forall>i. z \<le> i \<and> i < 128 \<longrightarrow> r ! i = bs ! (i - z)))"
proof -
  have "wp (for_down n 0 (\<lambda>i bs. do { x \<leftarrow> rd bs i; wr bs (i + z) x }) bs)
      (\<lambda>r. length r = 128 \<and> (\<forall>i. z \<le> i \<and> i < 128 \<longrightarrow> r ! i = bs ! (i - z)))"
  proof (rule for_down_rule [where I = "\<lambda>j r. length r = 128 \<and>
      (\<forall>i. j + z \<le> i \<and> i < n + z \<longrightarrow> r ! i = bs ! (i - z)) \<and> (\<forall>i<j. r ! i = bs ! i) \<and>
      (\<forall>i. n + z \<le> i \<and> i < 128 \<longrightarrow> r ! i = 0)"])
    fix r :: "u32 list"
    assume "length r = 128 \<and> (\<forall>i. 0 + z \<le> i \<and> i < n + z \<longrightarrow> r ! i = bs ! (i - z)) \<and>
      (\<forall>i<0. r ! i = bs ! i) \<and> (\<forall>i. n + z \<le> i \<and> i < 128 \<longrightarrow> r ! i = 0)"
    then show "length r = 128 \<and> (\<forall>i. z \<le> i \<and> i < 128 \<longrightarrow> r ! i = bs ! (i - z))"
      using assms(3) by (metis add.commute add_0 add_le_imp_le_diff diff_le_self le_less_trans linorder_not_less)
  qed (use assms in \<open>auto simp: wp_simps nth_list_update Suc_le_eq\<close>)
  then obtain r where r: "for_down n 0 (\<lambda>i bs. do { x \<leftarrow> rd bs i; wr bs (i + z) x }) bs = Some r"
      "length r = 128" "\<forall>i. z \<le> i \<and> i < 128 \<longrightarrow> r ! i = bs ! (i - z)"
    by (auto elim: wpE)
  have "wp (for_up 0 z (\<lambda>i bs. wr bs i 0) r)
    (\<lambda>r. length r = 128 \<and> (\<forall>i<z. r ! i = 0) \<and> (\<forall>i. z \<le> i \<and> i < 128 \<longrightarrow> r ! i = bs ! (i - z)))"
    by (rule for_up_rule [where I = "\<lambda>j r. length r = 128 \<and> (\<forall>i<j. r ! i = 0) \<and>
        (\<forall>i. z \<le> i \<and> i < 128 \<longrightarrow> r ! i = bs ! (i - z))"])
      (use r assms in \<open>auto simp: wp_simps nth_list_update less_Suc_eq\<close>)
  then show ?thesis
    by (simp add: r(1))
qed

lemma Align_wp:
  assumes "bignum_ok b" and "exponent other < exponent b \<Longrightarrow> BigitLength b - exponent other \<le> 128"
  shows "wp (Align b other) (\<lambda>r. bignum_ok r \<and> bvalue r = bvalue b \<and>
    BigitLength r = BigitLength b \<and> exponent r = min (exponent b) (exponent other))"
proof (cases "exponent other < exponent b")
  case True
  let ?z = "exponent b - exponent other" and ?n = "used_digits b"
  have ok: "bigits_ok (bigits b) ?n" and top: "?n \<noteq> 0" "bigits b ! (?n - 1) \<noteq> 0"
    using assms(1) True by (auto simp: bignum_ok_def bignum_rep_def split: if_splits)
  have le: "?n + ?z \<le> 128"
    using assms(2) True by (simp add: BigitLength_def)
  from Align_loops_wp [OF _ le, of "bigits b"] ok obtain r where
    r: "(do { bs \<leftarrow> for_down ?n 0 (\<lambda>i bs. do { x \<leftarrow> rd bs i; wr bs (i + ?z) x }) (bigits b);
       for_up 0 ?z (\<lambda>i bs. wr bs i 0) bs }) = Some r"
      "length r = 128" "\<forall>i<?z. r ! i = 0" "\<forall>i. ?z \<le> i \<and> i < 128 \<longrightarrow> r ! i = bigits b ! (i - ?z)"
    by (auto simp: bigits_ok_def elim: wpE)
  let ?r = "b\<lparr>bigits := r, used_digits := ?n + ?z, exponent := exponent b - ?z\<rparr>"
  have eq: "Align b other = Some ?r"
    using True le r(1) by (auto simp: Align_def EnsureCapacity_def Let_def bind_eq_Some_conv)
  have "dv r (?z + ?n) = B28 ^ ?z * digits_val B28 (\<lambda>i. unat (r ! (?z + i))) ?n"
    unfolding dv_def by (rule digits_val_shift) (use r in simp)
  also have "digits_val B28 (\<lambda>i. unat (r ! (?z + i))) ?n = dv (bigits b) ?n"
    unfolding dv_def by (rule digits_val_cong) (use r le in auto)
  finally have "bvalue ?r = bvalue b"
    using True by (simp add: bvalue_def add.commute power_add [symmetric])
  moreover have "bigits_ok r (?n + ?z)"
  proof (intro bigits_okI)
    show "unat (r ! i) < B28" if "i < ?n + ?z" for i
      using that r(3,4) le bigits_okD(3) [OF ok, of "i - ?z"] by (cases "i < ?z") auto
    show "r ! i = 0" if "?n + ?z \<le> i" "i < 128" for i
      using that r(4) bigits_okD(4) [OF ok, of "i - ?z"] by auto
  qed (use r le in auto)
  moreover have "r ! (?n + ?z - 1) = bigits b ! (?n - 1)"
  proof -
    have "?z \<le> ?n + ?z - 1" "?n + ?z - 1 < 128" "?n + ?z - 1 - ?z = ?n - 1"
      using top(1) le by linarith+
    then show ?thesis
      using r(4) by metis
  qed
  then have "r ! (?n + ?z - 1) \<noteq> 0"
    using top by simp
  ultimately have "bvalue ?r = bvalue b" and "bignum_ok ?r"
    using top(1) by (simp_all add: bignum_ok_def bignum_rep_def)
  then show ?thesis
    using True by (simp add: eq BigitLength_def)
qed (use assms in \<open>simp add: Align_def\<close>)

lemma shift_arith:
  fixes y c P K :: nat
  assumes "c < P" and "0 < K"
  shows "(y * P + c) mod (P * K) = y mod K * P + c"
    and "y mod K * P + c + P * K * (y div K) = y * P + c"
proof -
  have "P * (y mod K) + P * (K * (y div K)) = P * y"
    by (metis distrib_left mod_mult_div_eq)
  then show eq: "y mod K * P + c + P * K * (y div K) = y * P + c"
    by (simp add: mult.commute mult.left_commute)
  have "P * Suc (y mod K) \<le> P * K"
    using assms(2) by (intro mult_le_mono2) (simp add: Suc_leI)
  then have "y mod K * P + c < P * K"
    using assms(1) by (simp add: mult.commute)
  then show "(y * P + c) mod (P * K) = y mod K * P + c"
    by (simp flip: eq)
qed

lemma shift_step:
  fixes x c :: u32
  assumes "unat x < B28" and "s < 28" and "unat c < 2 ^ s"
  shows "unat ((push_bit s x + c) AND 0xFFFFFFF) + B28 * unat (drop_bit (28 - s) x) = unat x * 2 ^ s + unat c"
    and "unat (drop_bit (28 - s) x) < 2 ^ s"
proof -
  have B: "2 ^ s * 2 ^ (28 - s) = B28"
    using assms(2) by (simp flip: power_add)
  note arith = shift_arith [OF assms(3), of "2 ^ (28 - s)" "unat x", unfolded B, simplified]
  have dvd: "B28 dvd 4294967296"
    by simp
  have "unat (push_bit s x + c) mod B28 = (unat x * 2 ^ s + unat c) mod B28"
    by (simp add: unat_word_ariths unat_push_mod mod_mod_cancel [OF dvd] mod_simps)
  with arith show "unat ((push_bit s x + c) AND 0xFFFFFFF) + B28 * unat (drop_bit (28 - s) x) = unat x * 2 ^ s + unat c"
    by (simp add: nat_words)
  have "unat x div 2 ^ (28 - s) < 2 ^ s"
    using assms(1) B by (simp add: less_mult_imp_div_less)
  then show "unat (drop_bit (28 - s) x) < 2 ^ s"
    by (simp add: nat_words)
qed

lemma BigitsShiftLeft_loop_wp:
  assumes "bigits_ok bs n" and "s < 28"
  shows "wp (for_up 0 n (\<lambda>i (carry, bs). do {
          x \<leftarrow> rd bs i;
          let new_carry = drop_bit (kBigitSize - s) x;
          bs \<leftarrow> wr bs i ((push_bit s x + carry) AND kBigitMask);
          Some (new_carry, bs) }) (0 :: u32, bs))
    (\<lambda>(c, r). bigits_ok r n \<and> unat c < 2 ^ s \<and> dv r n + unat c * B28 ^ n = 2 ^ s * dv bs n)"
    (is "wp (for_up 0 n ?f _) _")
proof (rule for_up_rule [where I = "\<lambda>j t. bigits_ok (snd t) n \<and> unat (fst t) < 2 ^ s \<and>
    (\<forall>i. j \<le> i \<longrightarrow> snd t ! i = bs ! i) \<and> dv (snd t) j + unat (fst t) * B28 ^ j = 2 ^ s * dv bs j"])
  fix j and t :: "u32 \<times> u32 list"
  assume j: "j < n" and I: "bigits_ok (snd t) n \<and> unat (fst t) < 2 ^ s \<and>
    (\<forall>i. j \<le> i \<longrightarrow> snd t ! i = bs ! i) \<and> dv (snd t) j + unat (fst t) * B28 ^ j = 2 ^ s * dv bs j"
  obtain c r where t: "t = (c, r)" by force
  let ?x = "r ! j"
  have x: "unat ?x < B28" "j < 128" "length r = 128" "?x = bs ! j"
    using I j by (auto simp: t bigits_ok_def)
  note step = shift_step [OF x(1) assms(2), of c]
  have "dv (r[j := (push_bit s ?x + c) AND 0xFFFFFFF]) (Suc j) + unat (drop_bit (28 - s) ?x) * B28 ^ Suc j
      = dv r j + (unat ((push_bit s ?x + c) AND 0xFFFFFFF) + B28 * unat (drop_bit (28 - s) ?x)) * B28 ^ j"
    using x by (simp add: dv_Suc algebra_simps)
  also have "\<dots> = dv r j + unat c * B28 ^ j + 2 ^ s * (unat ?x * B28 ^ j)"
    using step I by (simp add: t algebra_simps)
  also have "\<dots> = 2 ^ s * dv bs (Suc j)"
    using I by (simp add: t dv_Suc x(4) distrib_left)
  finally show "wp (?f j t) (\<lambda>t. bigits_ok (snd t) n \<and> unat (fst t) < 2 ^ s \<and>
    (\<forall>i. Suc j \<le> i \<longrightarrow> snd t ! i = bs ! i) \<and> dv (snd t) (Suc j) + unat (fst t) * B28 ^ Suc j = 2 ^ s * dv bs (Suc j))"
    using step I x j by (simp add: t wp_simps bigits_ok_def nth_list_update nat_words)
qed (use assms in \<open>auto simp: split_beta\<close>)

lemma BigitsShiftLeft_wp:
  assumes "bignum_ok b" and "s < 28" and "used_digits b + 1 \<le> 128"
  shows "wp (BigitsShiftLeft b s) (\<lambda>r. bignum_ok r \<and> bvalue r = bvalue b * 2 ^ s \<and>
    exponent r = exponent b \<and> used_digits r \<le> used_digits b + 1)"
proof -
  let ?n = "used_digits b"
  have ok: "bigits_ok (bigits b) ?n"
    using assms by (simp add: bignum_ok_def bignum_rep_def)
  obtain c bs where bs: "for_up 0 ?n (\<lambda>i (carry, bs). do {
          x \<leftarrow> rd bs i;
          let new_carry = drop_bit (kBigitSize - s) x;
          bs \<leftarrow> wr bs i ((push_bit s x + carry) AND kBigitMask);
          Some (new_carry, bs) }) (0 :: u32, bigits b) = Some (c, bs)"
      "bigits_ok bs ?n" "unat c < 2 ^ s" "dv bs ?n + unat c * B28 ^ ?n = 2 ^ s * dv (bigits b) ?n"
    using BigitsShiftLeft_loop_wp [OF ok assms(2)] by (auto elim: wpE)
  have c: "unat c < B28"
    using bs(3) power_strict_increasing [OF assms(2), of "2::nat"] by simp
  show ?thesis
  proof (cases "c = 0")
    case True
    let ?r = "b\<lparr>bigits := bs\<rparr>"
    have v: "bvalue ?r = bvalue b * 2 ^ s"
      using bs(4) True by (simp add: bvalue_def algebra_simps)
    have top: "bs ! (?n - 1) \<noteq> 0" if n: "?n \<noteq> 0"
    proof
      assume z: "bs ! (?n - 1) = 0"
      obtain m where m: "?n = Suc m" using n not0_implies_Suc by blast
      have "dv bs ?n = dv bs m"
        using z by (simp add: m dv_Suc)
      also have "\<dots> < B28 ^ m"
        by (rule dv_less) (use bs(2) m in \<open>simp add: bigits_ok_def\<close>)
      also have "\<dots> \<le> dv (bigits b) ?n"
        by (rule dv_ge) (use assms(1) m in \<open>auto simp: bignum_ok_def\<close>)
      also have "\<dots> \<le> 2 ^ s * dv (bigits b) ?n"
        by simp
      finally show False
        using bs(4) True by simp
    qed
    with bs v assms True show ?thesis
      by (auto simp: BigitsShiftLeft_def wp_simps bignum_ok_def bignum_rep_def)
  next
    case False
    let ?r = "b\<lparr>bigits := bs[?n := c], used_digits := Suc ?n\<rparr>"
    have "dv (bs[?n := c]) (Suc ?n) = 2 ^ s * dv (bigits b) ?n"
      using bs(2,4) assms(3) by (simp add: dv_Suc bigits_ok_def)
    then have v: "bvalue ?r = bvalue b * 2 ^ s"
      by (simp add: bvalue_def algebra_simps)
    have "bigits_ok (bs[?n := c]) (Suc ?n)"
      using bs(2) c assms(3) by (auto simp: bigits_ok_def nth_list_update less_Suc_eq)
    with bs v assms False show ?thesis
      by (auto simp: BigitsShiftLeft_def wp_simps bignum_ok_def bignum_rep_def bigits_ok_def)
  qed
qed

lemma ShiftLeft_wp:
  assumes "bignum_ok b" and "used_digits b + 1 \<le> 128"
  shows "wp (ShiftLeft b n) (\<lambda>r. bignum_ok r \<and> bvalue r = bvalue b * 2 ^ n \<and>
    used_digits r \<le> used_digits b + 1 \<and> (used_digits b \<noteq> 0 \<longrightarrow> exponent r = exponent b + n div 28))"
proof (cases "used_digits b = 0")
  case False
  let ?b = "b\<lparr>exponent := exponent b + n div 28\<rparr>"
  have "bignum_ok ?b"
    using assms(1) False by (simp add: bignum_ok_def bignum_rep_def)
  then have "wp (BigitsShiftLeft ?b (n mod 28)) (\<lambda>r. bignum_ok r \<and> bvalue r = bvalue ?b * 2 ^ (n mod 28) \<and>
    exponent r = exponent ?b \<and> used_digits r \<le> used_digits ?b + 1)"
    by (rule BigitsShiftLeft_wp) (use assms in simp_all)
  moreover have "bvalue ?b * 2 ^ (n mod 28) = bvalue b * 2 ^ n"
  proof -
    have "B28 ^ (n div 28) * 2 ^ (n mod 28) = 2 ^ (28 * (n div 28) + n mod 28)"
      by (simp only: power_add power_mult) simp
    then show ?thesis
      by (simp add: bvalue_def power_add)
  qed
  ultimately show ?thesis
    using False assms by (auto simp: ShiftLeft_def wp_simps elim!: wp_mono)
qed (use assms in \<open>simp add: ShiftLeft_def bvalue_def\<close>)

end
