(* ===== verification/Bignum_Add.thy ===== *)
theory Bignum_Add
  imports Bignum
begin

unbundle bit_operations_syntax

text \<open>
  Addition of \<open>bignum.cc\<close>: \<open>AddBignum\<close> and \<open>AddUInt64\<close>.  Each loop is one definition for its
  body; the ripple loop (\<open>while (carry != 0)\<close>) stays an unbounded loop, and the lemmas show
  that it ends inside the array.
\<close>

section \<open>Facts on arrays of bigits that the loops share\<close>

lemma dv_tail:
  "p \<le> n \<Longrightarrow> (\<And>i. p \<le> i \<Longrightarrow> i < n \<Longrightarrow> as ! i = bs ! i) \<Longrightarrow> dv as n + dv bs p = dv bs n + dv as p"
proof (induction n)
  case (Suc n)
  then show ?case
    by (cases "p = Suc n") (auto simp: dv_Suc le_Suc_eq)
qed simp

lemma dv_mono: "p \<le> n \<Longrightarrow> dv bs p \<le> dv bs n"
  by (induction n) (auto simp: dv_Suc le_Suc_eq)

lemma bigits_ok_mono: "bigits_ok bs n \<Longrightarrow> n \<le> m \<Longrightarrow> m \<le> 128 \<Longrightarrow> bigits_ok bs m"
  by (rule bigits_okI) (auto simp: bigits_okD)

lemma dv_less_used: "bigits_ok bs n \<Longrightarrow> p \<le> 128 \<Longrightarrow> dv bs p < B28 ^ n"
proof -
  assume ok: "bigits_ok bs n" and "p \<le> 128"
  then have "dv bs p \<le> dv bs 128"
    by (intro dv_mono)
  also have "\<dots> = dv bs n"
    using ok by (intro dv_extend) (auto simp: bigits_ok_def)
  also have "\<dots> < B28 ^ n"
    using ok by (intro dv_less) (auto simp: bigits_ok_def)
  finally show ?thesis .
qed

lemma top_nonzero:
  assumes "bigits_ok bs n" and "n \<noteq> 0" and "B28 ^ (n - 1) \<le> dv bs n"
  shows "bs ! (n - 1) \<noteq> 0"
proof
  assume z: "bs ! (n - 1) = 0"
  obtain m where m: "n = Suc m"
    using assms(2) not0_implies_Suc by blast
  have "dv bs n = dv bs m"
    using z by (simp add: m dv_Suc)
  also have "\<dots> < B28 ^ m"
    by (rule dv_less) (use assms(1) m in \<open>simp add: bigits_ok_def\<close>)
  finally show False
    using assms(3) m by simp
qed

lemma bignum_okI:
  assumes "bigits_ok (bigits b) (used_digits b)"
    and "used_digits b = 0 \<Longrightarrow> exponent b = 0"
    and "used_digits b \<noteq> 0 \<Longrightarrow> B28 ^ (used_digits b - 1) \<le> dv (bigits b) (used_digits b)"
  shows "bignum_ok b"
  using assms top_nonzero [OF assms(1)] by (simp add: bignum_ok_def bignum_rep_def)

text \<open>The value of a number relative to the exponent of another one that is not greater.\<close>

lemma pow_sum_less:
  assumes "x < B28 ^ a" and "y < B28 ^ b" and "a < n" and "b < n"
  shows "x + y < B28 ^ n"
proof -
  obtain k where n: "n = Suc k"
    using assms(3) by (cases n) auto
  have "x < B28 ^ k" "y < B28 ^ k"
    using assms(3,4) n
    by (auto intro: less_le_trans [OF assms(1)] less_le_trans [OF assms(2)] power_increasing)
  then show ?thesis
    by (simp add: n)
qed

lemma pow_mult_less: "x < B28 ^ m \<Longrightarrow> B28 ^ k * x < B28 ^ (k + m)"
  by (simp add: power_add)

lemma bvalue_scaled:
  "e \<le> exponent b \<Longrightarrow> bvalue b = B28 ^ (exponent b - e) * dv (bigits b) (used_digits b) * B28 ^ e"
  by (simp add: bvalue_def flip: power_add)

section \<open>Addition\<close>

definition AddBignum_digit :: "bignum \<Rightarrow> nat \<Rightarrow> nat \<times> u32 \<times> u32 list \<Rightarrow> (nat \<times> u32 \<times> u32 list) option" where
  "AddBignum_digit other i = (\<lambda>(bigit_pos, carry, bs). do {
     x \<leftarrow> rd bs bigit_pos;
     y \<leftarrow> rd (bigits other) i;
     let sum = x + y + carry;
     bs \<leftarrow> wr bs bigit_pos (sum AND kBigitMask);
     Some (bigit_pos + 1, drop_bit kBigitSize sum, bs) })"

definition AddBignum_carry :: "nat \<times> u32 \<times> u32 list \<Rightarrow> (nat \<times> u32 \<times> u32 list) option" where
  "AddBignum_carry = (\<lambda>(bigit_pos, carry, bs). do {
     x \<leftarrow> rd bs bigit_pos;
     let sum = x + carry;
     bs \<leftarrow> wr bs bigit_pos (sum AND kBigitMask);
     Some (bigit_pos + 1, drop_bit kBigitSize sum, bs) })"

definition AddBignum :: "bignum \<Rightarrow> bignum \<Rightarrow> bignum option" where
  "AddBignum b other = do {
     ASSERT_IsClamped b;
     ASSERT_IsClamped other;
     b \<leftarrow> Align b other;
     EnsureCapacity (1 + max (BigitLength b) (BigitLength other) - exponent b);
     ASSERT (exponent b \<le> exponent other);
     let bigit_pos = exponent other - exponent b;
     s \<leftarrow> for_up 0 (used_digits other) (AddBignum_digit other) (bigit_pos, 0, bigits b);
     (bigit_pos, carry, bs) \<leftarrow> while_opt (\<lambda>(bigit_pos, carry, bs). carry \<noteq> 0) AddBignum_carry s;
     let b = b\<lparr>bigits := bs, used_digits := max bigit_pos (used_digits b)\<rparr>;
     ASSERT_IsClamped b;
     Some b }"

definition AddUInt64 :: "bignum \<Rightarrow> u64 \<Rightarrow> bignum option" where
  "AddUInt64 b operand =
    (if operand = 0 then Some b
     else do {
       other \<leftarrow> AssignUInt64 Bignum_new operand;
       AddBignum b other })"

lemma add_step:
  fixes x y c :: u32
  assumes "unat x < B28" and "unat y < B28" and "unat c \<le> 1"
  shows "unat ((x + y + c) AND 0xFFFFFFF) + B28 * unat (drop_bit 28 (x + y + c)) = unat x + unat y + unat c"
    and "unat (drop_bit 28 (x + y + c)) \<le> 1"
proof -
  have s: "unat (x + y + c) = unat x + unat y + unat c"
    using assms by (simp add: unat_plus)
  then show "unat ((x + y + c) AND 0xFFFFFFF) + B28 * unat (drop_bit 28 (x + y + c)) = unat x + unat y + unat c"
    by (simp add: nat_words)
  show "unat (drop_bit 28 (x + y + c)) \<le> 1"
    using assms by (simp add: nat_words s)
qed

text \<open>
  The invariant of both loops: \<open>orig\<close> is the array before the addition, \<open>X\<close> the value added so
  far, \<open>n\<close> the bigits in use before.
\<close>

definition ripple_inv :: "u32 list \<Rightarrow> nat \<Rightarrow> nat \<Rightarrow> nat \<times> u32 \<times> u32 list \<Rightarrow> bool" where
  "ripple_inv orig n X = (\<lambda>(p, c, bs). p \<le> 128 \<and> bigits_ok bs (max p n) \<and> unat c \<le> 1 \<and>
     (\<forall>i. p \<le> i \<and> i < 128 \<longrightarrow> bs ! i = orig ! i) \<and> dv bs p + unat c * B28 ^ p = dv orig p + X)"

lemma ripple_invD:
  assumes "ripple_inv orig n X (p, c, bs)"
  shows "p \<le> 128" and "length bs = 128" and "i < 128 \<Longrightarrow> unat (bs ! i) < B28" and "unat c \<le> 1"
    and "p \<le> i \<Longrightarrow> i < 128 \<Longrightarrow> bs ! i = orig ! i"
    and "dv bs p + unat c * B28 ^ p = dv orig p + X"
  using assms bigits_okD(3) [of bs "max p n" i] by (auto simp: ripple_inv_def bigits_ok_def)

lemma ripple_inv_step:
  assumes inv: "ripple_inv orig n X (p, c, bs)" and p: "p < 128" and ok: "bigits_ok orig n"
    and low: "unat low < B28" and c': "unat c' \<le> 1"
    and eq: "unat low + B28 * unat c' = unat (bs ! p) + y + unat c"
  shows "ripple_inv orig n (X + y * B28 ^ p) (Suc p, c', bs[p := low])"
proof -
  have bs: "length bs = 128" "bigits_ok bs (max p n)" "bs ! p = orig ! p"
    using inv p by (auto simp: ripple_inv_def bigits_ok_def)
  have "dv bs p + (unat low + B28 * unat c') * B28 ^ p = dv orig (Suc p) + X + y * B28 ^ p"
    using inv unfolding eq by (simp add: ripple_inv_def dv_Suc algebra_simps bs(3))
  then have "dv (bs[p := low]) (Suc p) + unat c' * B28 ^ Suc p = dv orig (Suc p) + (X + y * B28 ^ p)"
    using bs(1) p by (simp add: dv_Suc algebra_simps)
  moreover have "bigits_ok (bs[p := low]) (max (Suc p) n)"
    using bs low p ok by (auto simp: bigits_ok_def nth_list_update less_Suc_eq less_max_iff_disj)
  ultimately show ?thesis
    using inv p c' by (auto simp: ripple_inv_def)
qed

lemma AddBignum_digits_wp:
  assumes "bigits_ok orig n" and "bigits_ok (bigits other) m" and "off + m \<le> 128"
  shows "wp (for_up 0 m (AddBignum_digit other) (off, 0, orig))
    (\<lambda>(p, c, bs). p = off + m \<and> ripple_inv orig n (B28 ^ off * dv (bigits other) m) (p, c, bs))"
proof (rule for_up_rule [where I = "\<lambda>j t. fst t = off + j \<and> ripple_inv orig n (B28 ^ off * dv (bigits other) j) t"])
  fix j and t :: "nat \<times> u32 \<times> u32 list"
  assume j: "j < m" and I: "fst t = off + j \<and> ripple_inv orig n (B28 ^ off * dv (bigits other) j) t"
  obtain p c bs where t: "t = (p, c, bs)" by (cases t) auto
  have p: "p = off + j" "p < 128" "length bs = 128" "length (bigits other) = 128" "j < 128"
    using I j assms by (auto simp: t ripple_inv_def bigits_ok_def)
  let ?y = "bigits other ! j"
  have "unat (bs ! p) < B28" and y: "unat ?y < B28" and "unat c \<le> 1"
    using I j p bigits_okD(3) [OF assms(2), of j] bigits_okD(3) [of bs "max p n" p]
    by (auto simp: t ripple_inv_def)
  note step = add_step [OF this]
  have "ripple_inv orig n (B28 ^ off * dv (bigits other) j + unat ?y * B28 ^ p)
      (Suc p, drop_bit 28 (bs ! p + ?y + c), bs[p := (bs ! p + ?y + c) AND 0xFFFFFFF])"
    by (rule ripple_inv_step) (use I p step assms in \<open>auto simp: t nat_words\<close>)
  then show "wp (AddBignum_digit other j t)
      (\<lambda>t. fst t = off + Suc j \<and> ripple_inv orig n (B28 ^ off * dv (bigits other) (Suc j)) t)"
    using p by (simp add: t AddBignum_digit_def wp_simps dv_Suc algebra_simps power_add)
next
  show "fst (off, 0, orig) = off + 0 \<and> ripple_inv orig n (B28 ^ off * dv (bigits other) 0) (off, 0, orig)"
    using assms bigits_ok_mono [OF assms(1), of "max off n"] bigits_okD(2) [OF assms(1)]
    by (simp add: ripple_inv_def)
qed auto

lemma AddBignum_carry_wp:
  assumes "ripple_inv orig n X (p0, c0, bs0)" and "bigits_ok orig n"
    and "dv orig 128 + X < B28 ^ N" and "N \<le> 128" and "p0 \<le> N"
  shows "wp (while_opt (\<lambda>(bigit_pos, carry, bs). carry \<noteq> 0) AddBignum_carry (p0, c0, bs0))
    (\<lambda>(p, c, bs). c = 0 \<and> p0 \<le> p \<and> ripple_inv orig n X (p, c, bs) \<and> (p0 < p \<longrightarrow> B28 ^ (p - 1) \<le> dv orig 128 + X))"
proof (rule while_opt_rule [where I = "\<lambda>t. p0 \<le> fst t \<and> fst t \<le> N \<and> ripple_inv orig n X t \<and>
      (p0 < fst t \<longrightarrow> B28 ^ (fst t - 1) \<le> dv orig 128 + X)" and m = "\<lambda>t. N - fst t"])
  fix t :: "nat \<times> u32 \<times> u32 list"
  assume I: "p0 \<le> fst t \<and> fst t \<le> N \<and> ripple_inv orig n X t \<and>
      (p0 < fst t \<longrightarrow> B28 ^ (fst t - 1) \<le> dv orig 128 + X)"
    and nz: "case t of (p, carry, bs) \<Rightarrow> carry \<noteq> 0"
  obtain p c bs where t: "t = (p, c, bs)" by (cases t) auto
  have c: "unat c = 1"
    using I nz by (auto simp: t ripple_inv_def unat_eq_zero)
  have p128: "p \<le> 128"
    using I assms(4) by (simp add: t)
  have le: "B28 ^ p \<le> dv orig 128 + X"
  proof -
    have "B28 ^ p \<le> dv bs p + unat c * B28 ^ p"
      by (simp add: c)
    also have "\<dots> = dv orig p + X"
      using I by (simp add: t ripple_inv_def)
    also have "\<dots> \<le> dv orig 128 + X"
      using p128 by (simp add: dv_mono)
    finally show ?thesis .
  qed
  then have "B28 ^ p < B28 ^ N"
    using assms(3) by (rule le_less_trans)
  then have "p < N"
    by (rule power_less_imp_less_exp [rotated]) simp
  then have p: "p < N" "p < 128"
    using assms(4) by simp_all
  have len: "length bs = 128" and "unat (bs ! p) < B28"
    using I p ripple_invD(2,3) [of orig n X p c bs] by (simp_all add: t)
  note step = add_step [of "bs ! p" 0 c, simplified, OF this(2)]
  have "ripple_inv orig n (X + 0 * B28 ^ p) (Suc p, drop_bit 28 (bs ! p + c), bs[p := (bs ! p + c) AND 0xFFFFFFF])"
    by (rule ripple_inv_step) (use I p step c assms in \<open>auto simp: t nat_words\<close>)
  then show "wp (AddBignum_carry t) (\<lambda>u. (p0 \<le> fst u \<and> fst u \<le> N \<and> ripple_inv orig n X u \<and>
      (p0 < fst u \<longrightarrow> B28 ^ (fst u - 1) \<le> dv orig 128 + X)) \<and> N - fst u < N - fst t)"
    using p len le I by (simp add: t AddBignum_carry_def wp_simps)
qed (use assms in auto)

text \<open>Both loops together, on an object whose exponent is not greater than the other one's.\<close>

lemma AddBignum_loops:
  assumes "bigits_ok orig n" and "bigits_ok (bigits other) m"
    and "n < N" and "off + m < N" and "N \<le> 128"
  shows "\<exists>s p bs. for_up 0 m (AddBignum_digit other) (off, 0, orig) = Some s \<and>
    while_opt (\<lambda>(bigit_pos, carry, bs). carry \<noteq> 0) AddBignum_carry s = Some (p, 0, bs) \<and>
    off + m \<le> p \<and> p \<le> 128 \<and> bigits_ok bs (max p n) \<and>
    dv bs (max p n) = dv orig n + B28 ^ off * dv (bigits other) m \<and>
    (off + m < p \<longrightarrow> B28 ^ (p - 1) \<le> dv bs (max p n))"
proof -
  let ?X = "B28 ^ off * dv (bigits other) m"
  have "wp (for_up 0 m (AddBignum_digit other) (off, 0, orig))
      (\<lambda>(p, c, bs). p = off + m \<and> ripple_inv orig n ?X (p, c, bs))"
    by (rule AddBignum_digits_wp) (use assms in auto)
  then obtain c0 bs0 where s: "for_up 0 m (AddBignum_digit other) (off, 0, orig) = Some (off + m, c0, bs0)"
    "ripple_inv orig n ?X (off + m, c0, bs0)"
    by (auto elim!: wpE)
  have "dv orig 128 < B28 ^ n" and "dv (bigits other) m < B28 ^ m"
    using dv_less_used [OF assms(1), of 128] dv_less_used [OF assms(2) bigits_okD(2) [OF assms(2)]] by simp_all
  then have total: "dv orig 128 + ?X < B28 ^ N"
    using assms(3,4) pow_mult_less by (blast intro: pow_sum_less)
  from AddBignum_carry_wp [OF s(2) assms(1) total assms(5)] assms(4) obtain p bs where
    w: "while_opt (\<lambda>(bigit_pos, carry, bs). carry \<noteq> 0) AddBignum_carry (off + m, c0, bs0) = Some (p, 0, bs)"
      "off + m \<le> p" "ripple_inv orig n ?X (p, 0, bs)" "off + m < p \<longrightarrow> B28 ^ (p - 1) \<le> dv orig 128 + ?X"
    by (auto elim!: wpE)
  have M: "max p n \<le> 128"
    using ripple_invD(1) [OF w(3)] bigits_okD(2) [OF assms(1)] by simp
  have "dv bs (max p n) + dv orig p = dv orig (max p n) + dv bs p"
    by (rule dv_tail) (use M ripple_invD(5) [OF w(3)] in auto)
  moreover have "dv orig (max p n) = dv orig n" "dv orig 128 = dv orig n"
    using M bigits_okD(2) [OF assms(1)] by (auto intro: dv_extend [OF assms(1)])
  ultimately have "dv bs (max p n) = dv orig n + ?X" and "dv orig 128 + ?X = dv orig n + ?X"
    using ripple_invD(6) [OF w(3)] by simp_all
  then show ?thesis
    using s(1) w M by (auto simp: ripple_inv_def)
qed

lemma add_top_nonzero:
  assumes "bignum_ok a" and "bignum_ok other" and "exponent a \<le> exponent other"
    and off: "off = exponent other - exponent a" and "off + used_digits other \<le> p"
    and v: "V = dv (bigits a) (used_digits a) + B28 ^ off * dv (bigits other) (used_digits other)"
    and top: "off + used_digits other < p \<longrightarrow> B28 ^ (p - 1) \<le> V"
    and nz: "max p (used_digits a) \<noteq> 0"
  shows "B28 ^ (max p (used_digits a) - 1) \<le> V"
proof -
  let ?n = "used_digits a" and ?m = "used_digits other"
  consider "?n \<noteq> 0" "p \<le> ?n" | "?n < p" "off + ?m < p" | "?n < p" "p = off + ?m"
    using assms(5) nz by (cases "p \<le> ?n"; cases "p = off + ?m") auto
  then show ?thesis
  proof cases
    case 1
    then have "B28 ^ (?n - 1) \<le> dv (bigits a) ?n"
      using assms(1) by (intro dv_ge) (auto simp: bignum_ok_def)
    then show ?thesis using 1 v by (simp add: max_def)
  next
    case 2
    then show ?thesis using top by simp
  next
    case 3
    then have "?m \<noteq> 0"
      using assms(2,3) off by (auto simp: bignum_ok_def split: if_splits)
    then have "B28 ^ (?m - 1) \<le> dv (bigits other) ?m"
      using assms(2) by (intro dv_ge) (auto simp: bignum_ok_def)
    then have "B28 ^ off * B28 ^ (?m - 1) \<le> V"
      using v by (metis mult_le_mono2 trans_le_add2)
    then have "B28 ^ (p - 1) \<le> V"
      using 3 \<open>?m \<noteq> 0\<close> by (simp flip: power_add)
    then show ?thesis using 3 by simp
  qed
qed

lemma AddBignum_wp:
  assumes "bignum_ok b" and "bignum_ok other"
    and cap: "1 + max (BigitLength b) (BigitLength other) - min (exponent b) (exponent other) \<le> 128"
  shows "wp (AddBignum b other) (\<lambda>r. bignum_ok r \<and> bvalue r = bvalue b + bvalue other \<and>
    exponent r = min (exponent b) (exponent other))"
proof -
  have "wp (Align b other) (\<lambda>a. bignum_ok a \<and> bvalue a = bvalue b \<and>
    BigitLength a = BigitLength b \<and> exponent a = min (exponent b) (exponent other))"
    by (rule Align_wp) (use assms in auto)
  then obtain a where a: "Align b other = Some a" "bignum_ok a" "bvalue a = bvalue b"
    "BigitLength a = BigitLength b" "exponent a = min (exponent b) (exponent other)"
    by (auto elim: wpE)
  have e: "exponent a \<le> exponent other"
    by (simp add: a(5))
  let ?n = "used_digits a" and ?m = "used_digits other" and ?off = "exponent other - exponent a"
  let ?N = "1 + max (BigitLength a) (BigitLength other) - exponent a"
  have N: "?N \<le> 128"
    using cap a(4,5) by simp
  have nm: "?n < ?N" "?off + ?m < ?N"
    using e unfolding BigitLength_def by linarith+
  have ok: "bigits_ok (bigits a) ?n" "bigits_ok (bigits other) ?m"
    using a(2) assms(2) by (simp_all add: bignum_ok_def bignum_rep_def)
  from AddBignum_loops [OF ok nm N] obtain s p bs where
    w: "for_up 0 ?m (AddBignum_digit other) (?off, 0, bigits a) = Some s"
      "while_opt (\<lambda>(bigit_pos, carry, bs). carry \<noteq> 0) AddBignum_carry s = Some (p, 0, bs)"
      "?off + ?m \<le> p" "p \<le> 128" "bigits_ok bs (max p ?n)"
      "dv bs (max p ?n) = dv (bigits a) ?n + B28 ^ ?off * dv (bigits other) ?m"
      "?off + ?m < p \<longrightarrow> B28 ^ (p - 1) \<le> dv bs (max p ?n)"
    by auto
  let ?r = "a\<lparr>bigits := bs, used_digits := max p ?n\<rparr>"
  have "bignum_ok ?r"
    using add_top_nonzero [OF a(2) assms(2) e refl w(3,6,7)] w(5) a(2)
    by (intro bignum_okI) (auto simp: bignum_ok_def split: if_splits)
  moreover have "bvalue ?r = bvalue b + bvalue other"
    using bvalue_scaled [OF e] w(6) unfolding a(3) [symmetric] by (auto simp: bvalue_def algebra_simps)
  ultimately show ?thesis
    using N e assms(1,2) a w(1,2) by (simp add: AddBignum_def wp_simps wp_ASSERT_IsClamped)
qed

lemma AddUInt64_wp:
  assumes "bignum_ok b" and "BigitLength b \<le> 127"
  shows "wp (AddUInt64 b v) (\<lambda>r. bignum_ok r \<and> bvalue r = bvalue b + unat v \<and> exponent r \<le> exponent b)"
proof (cases "v = 0")
  case False
  have "wp (AssignUInt64 Bignum_new v) (\<lambda>r. bignum_ok r \<and> bvalue r = unat v \<and> exponent r = 0)"
    by (rule AssignUInt64_wp) simp
  then obtain x where x: "AssignUInt64 Bignum_new v = Some x" "bignum_ok x" "bvalue x = unat v"
    by (auto elim: wpE)
  have "BigitLength x \<le> 3"
    by (rule BigitLength_le) (use x unat_lt64 [of v] in \<open>simp_all del: unat_lt64\<close>)
  then have "wp (AddBignum b x) (\<lambda>r. bignum_ok r \<and> bvalue r = bvalue b + bvalue x \<and>
      exponent r = min (exponent b) (exponent x))"
    using assms x by (intro AddBignum_wp) auto
  then show ?thesis
    using False x by (auto simp: AddUInt64_def elim!: wp_mono)
qed (use assms in \<open>simp add: AddUInt64_def\<close>)

end
