(* ===== verification/Bignum_Compare.thy ===== *)
theory Bignum_Compare
  imports Bignum
begin

unbundle bit_operations_syntax

text \<open>
  The comparisons of \<open>bignum.cc\<close> and \<open>bignum.h\<close>: \<open>Compare\<close>, \<open>PlusCompare\<close> and the predicates on
  top of them.  The proofs read a bigit as a digit of the value: the bigit at index \<open>i\<close> is
  \<open>x div B28 ^ i mod B28\<close>.
\<close>

primrec Compare_loop :: "bignum \<Rightarrow> bignum \<Rightarrow> nat \<Rightarrow> nat \<Rightarrow> int option" where
  "Compare_loop a b lo 0 = Some 0"
| "Compare_loop a b lo (Suc k) = do {
     let i = lo + k;
     bigit_a \<leftarrow> BigitAt a i;
     bigit_b \<leftarrow> BigitAt b i;
     if bigit_a < bigit_b then Some (- 1)
     else if bigit_b < bigit_a then Some 1
     else Compare_loop a b lo k }"

definition Compare :: "bignum \<Rightarrow> bignum \<Rightarrow> int option" where
  "Compare a b = do {
     ASSERT_IsClamped a;
     ASSERT_IsClamped b;
     let bigit_length_a = BigitLength a;
     let bigit_length_b = BigitLength b;
     if bigit_length_a < bigit_length_b then Some (- 1)
     else if bigit_length_b < bigit_length_a then Some 1
     else let lo = min (exponent a) (exponent b) in Compare_loop a b lo (bigit_length_a - lo) }"

definition Equal :: "bignum \<Rightarrow> bignum \<Rightarrow> bool option" where
  "Equal a b = map_option (\<lambda>c. c = 0) (Compare a b)"

definition LessEqual :: "bignum \<Rightarrow> bignum \<Rightarrow> bool option" where
  "LessEqual a b = map_option (\<lambda>c. c \<le> 0) (Compare a b)"

definition Less :: "bignum \<Rightarrow> bignum \<Rightarrow> bool option" where
  "Less a b = map_option (\<lambda>c. c < 0) (Compare a b)"

primrec PlusCompare_loop :: "bignum \<Rightarrow> bignum \<Rightarrow> bignum \<Rightarrow> nat \<Rightarrow> nat \<Rightarrow> u32 \<Rightarrow> int option" where
  "PlusCompare_loop a b c lo 0 borrow = Some (if borrow = 0 then 0 else - 1)"
| "PlusCompare_loop a b c lo (Suc k) borrow = do {
     let i = lo + k;
     chunk_a \<leftarrow> BigitAt a i;
     chunk_b \<leftarrow> BigitAt b i;
     chunk_c \<leftarrow> BigitAt c i;
     let sum = chunk_a + chunk_b;
     if chunk_c + borrow < sum then Some 1
     else let borrow = chunk_c + borrow - sum in
       if 1 < borrow then Some (- 1)
       else PlusCompare_loop a b c lo k (push_bit kBigitSize borrow) }"

function PlusCompare :: "bignum \<Rightarrow> bignum \<Rightarrow> bignum \<Rightarrow> int option" where
  "PlusCompare a b c = do {
     ASSERT_IsClamped a;
     ASSERT_IsClamped b;
     ASSERT_IsClamped c;
     if BigitLength a < BigitLength b then PlusCompare b a c
     else if BigitLength a + 1 < BigitLength c then Some (- 1)
     else if BigitLength c < BigitLength a then Some 1
     else if BigitLength b \<le> exponent a \<and> BigitLength a < BigitLength c then Some (- 1)
     else let min_exponent = min (min (exponent a) (exponent b)) (exponent c) in
       PlusCompare_loop a b c min_exponent (BigitLength c - min_exponent) 0 }"
  by pat_completeness auto
termination
  by (relation "measure (\<lambda>(a, b, c). BigitLength b - BigitLength a)") auto

declare PlusCompare.simps [simp del]

definition PlusEqual :: "bignum \<Rightarrow> bignum \<Rightarrow> bignum \<Rightarrow> bool option" where
  "PlusEqual a b c = map_option (\<lambda>r. r = 0) (PlusCompare a b c)"

definition PlusLessEqual :: "bignum \<Rightarrow> bignum \<Rightarrow> bignum \<Rightarrow> bool option" where
  "PlusLessEqual a b c = map_option (\<lambda>r. r \<le> 0) (PlusCompare a b c)"

definition PlusLess :: "bignum \<Rightarrow> bignum \<Rightarrow> bignum \<Rightarrow> bool option" where
  "PlusLess a b c = map_option (\<lambda>r. r < 0) (PlusCompare a b c)"

section \<open>Bigits are digits of the value\<close>

definition cmp :: "nat \<Rightarrow> nat \<Rightarrow> int" where
  "cmp x y = (if x < y then - 1 else if y < x then 1 else 0)"

definition bat :: "bignum \<Rightarrow> nat \<Rightarrow> u32" where
  "bat b i = (if BigitLength b \<le> i \<or> i < exponent b then 0 else bigits b ! (i - exponent b))"

lemma BigitAt_bat: "bignum_rep b \<Longrightarrow> BigitAt b i = Some (bat b i)"
  by (auto simp: BigitAt_def bat_def bignum_rep_def bigits_ok_def BigitLength_def rd_def)

lemma bat_less: "bignum_rep b \<Longrightarrow> unat (bat b i) < B28"
  by (auto simp: bat_def bignum_rep_def bigits_ok_def BigitLength_def)

lemma bvalue_bat:
  assumes "BigitLength b \<le> n"
  shows "bvalue b = digits_val B28 (\<lambda>i. unat (bat b i)) n"
proof -
  have "digits_val B28 (\<lambda>i. unat (bat b i)) n = digits_val B28 (\<lambda>i. unat (bat b i)) (BigitLength b)"
    by (rule digits_val_zeros) (use assms in \<open>auto simp: bat_def\<close>)
  also have "\<dots> = digits_val B28 (\<lambda>i. unat (bat b i)) (exponent b + used_digits b)"
    by (simp add: BigitLength_def add.commute)
  also have "\<dots> = B28 ^ exponent b * digits_val B28 (\<lambda>i. unat (bat b (exponent b + i))) (used_digits b)"
    by (rule digits_val_shift) (simp add: bat_def)
  also have "digits_val B28 (\<lambda>i. unat (bat b (exponent b + i))) (used_digits b) = dv (bigits b) (used_digits b)"
    unfolding dv_def by (rule digits_val_cong) (auto simp: bat_def BigitLength_def)
  finally show ?thesis
    by (simp add: bvalue_def)
qed

lemma bat_digit:
  assumes "bignum_rep b"
  shows "unat (bat b i) = bvalue b div B28 ^ i mod B28"
proof -
  have "bvalue b = digits_val B28 (\<lambda>i. unat (bat b i)) (max (BigitLength b) (Suc i))"
    by (rule bvalue_bat) simp
  also have "\<dots> div B28 ^ i mod B28 = unat (bat b i)"
    by (rule bigit.digit_eq) (use bat_less [OF assms] in auto)
  finally show ?thesis ..
qed

lemma div_step: "x div B28 ^ i = x div B28 ^ i mod B28 + B28 * (x div B28 ^ Suc i)"
  unfolding power_Suc2 div_mult2_eq by (rule mod_mult_div_eq [symmetric])

lemma div_less_imp_less: "x div n < y div n \<Longrightarrow> x < (y :: nat)"
  using div_le_mono linorder_not_less by blast

lemma bvalue_dvd: "m \<le> exponent b \<Longrightarrow> bvalue b div B28 ^ m * B28 ^ m = bvalue b"
  by (simp add: bvalue_def le_imp_power_dvd dvd_mult)

lemma Compare_loop_eq:
  assumes "bignum_rep a" and "bignum_rep b" and "lo \<le> exponent a" and "lo \<le> exponent b"
    and "bvalue a div B28 ^ (lo + k) = bvalue b div B28 ^ (lo + k)"
  shows "Compare_loop a b lo k = Some (cmp (bvalue a) (bvalue b))"
  using assms(5)
proof (induction k)
  case 0
  then have "bvalue a = bvalue b"
    using bvalue_dvd [OF assms(3)] bvalue_dvd [OF assms(4)] by (metis add_0_right)
  then show ?case by (simp add: cmp_def)
next
  case (Suc k)
  note eqs = div_step [of "bvalue a" "lo + k"] div_step [of "bvalue b" "lo + k"]
  have dig: "unat (bat a (lo + k)) = bvalue a div B28 ^ (lo + k) mod B28"
      "unat (bat b (lo + k)) = bvalue b div B28 ^ (lo + k) mod B28"
    using assms(1,2) by (simp_all add: bat_digit)
  have hi: "bvalue a div B28 ^ Suc (lo + k) = bvalue b div B28 ^ Suc (lo + k)"
    using Suc.prems by simp
  consider "bat a (lo + k) < bat b (lo + k)" | "bat b (lo + k) < bat a (lo + k)" | "bat a (lo + k) = bat b (lo + k)"
    by (rule linorder_cases)
  then show ?case
  proof cases
    case 1
    then have "bvalue a div B28 ^ (lo + k) < bvalue b div B28 ^ (lo + k)"
      using eqs hi dig by (simp add: word_less_nat_alt)
    then show ?thesis
      using 1 assms(1,2) by (auto simp: BigitAt_bat cmp_def dest: div_less_imp_less)
  next
    case 2
    then have "bvalue b div B28 ^ (lo + k) < bvalue a div B28 ^ (lo + k)"
      using eqs hi dig by (simp add: word_less_nat_alt)
    then show ?thesis
      using 2 less_not_sym [OF 2] assms(1,2)
      by (auto simp: BigitAt_bat cmp_def Let_def dest: div_less_imp_less)
  next
    case 3
    then have "bvalue a div B28 ^ (lo + k) = bvalue b div B28 ^ (lo + k)"
      using eqs hi dig by simp
    then show ?thesis
      using 3 assms(1,2) Suc.IH by (simp add: BigitAt_bat)
  qed
qed

lemma BigitLength_less_imp:
  assumes "bignum_ok a" and "bignum_ok b" and "BigitLength a < BigitLength b"
  shows "bvalue a < bvalue b"
proof -
  have "used_digits b \<noteq> 0"
    using assms BigitLength_zero by fastforce
  have "bvalue a < B28 ^ BigitLength a"
    by (rule bignum_rep_less) (use assms in simp)
  also have "\<dots> \<le> B28 ^ (BigitLength b - 1)"
    using assms(3) by (intro power_increasing) auto
  also have "\<dots> \<le> bvalue b"
    using \<open>used_digits b \<noteq> 0\<close> assms(2) by (intro bignum_ok_ge)
  finally show ?thesis .
qed

lemma Compare_eq:
  assumes "bignum_ok a" and "bignum_ok b"
  shows "Compare a b = Some (cmp (bvalue a) (bvalue b))"
proof -
  note asserts = assms [THEN ASSERT_IsClamped_ok]
  consider "BigitLength a < BigitLength b" | "BigitLength b < BigitLength a" | "BigitLength a = BigitLength b"
    by (rule linorder_cases)
  then show ?thesis
  proof cases
    case 3
    let ?lo = "min (exponent a) (exponent b)"
    have lo: "?lo \<le> BigitLength a"
      by (simp add: BigitLength_def)
    have "bvalue a div B28 ^ BigitLength a = bvalue b div B28 ^ BigitLength a"
      using bignum_rep_less [of a] bignum_rep_less [of b] assms 3 by simp
    then have "Compare_loop a b ?lo (BigitLength a - ?lo) = Some (cmp (bvalue a) (bvalue b))"
      using assms lo by (intro Compare_loop_eq) auto
    then show ?thesis
      using 3 by (simp add: Compare_def asserts)
  qed (use assms BigitLength_less_imp in \<open>auto simp: Compare_def asserts cmp_def dest: less_asym\<close>)
qed

lemma Compare_preds:
  assumes "bignum_ok a" and "bignum_ok b"
  shows "Equal a b = Some (bvalue a = bvalue b)"
    and "LessEqual a b = Some (bvalue a \<le> bvalue b)"
    and "Less a b = Some (bvalue a < bvalue b)"
  using assms by (auto simp: Equal_def LessEqual_def Less_def Compare_eq cmp_def)

section \<open>Comparing a sum\<close>

text \<open>
  What the loop of \<open>PlusCompare\<close> decides at one index, on numbers: the high parts of the three
  numbers agree up to the borrow.
\<close>

lemma plus_step:
  fixes x y z bb :: nat
  assumes "z div B28 ^ Suc i = x div B28 ^ Suc i + y div B28 ^ Suc i + bb"
  defines "s \<equiv> x div B28 ^ i mod B28 + y div B28 ^ i mod B28"
    and "c \<equiv> z div B28 ^ i mod B28 + B28 * bb"
  shows "c < s \<Longrightarrow> z < x + y"
    and "s + 1 < c \<Longrightarrow> x + y < z"
    and "s \<le> c \<Longrightarrow> z div B28 ^ i = x div B28 ^ i + y div B28 ^ i + (c - s)"
proof -
  let ?X = "x div B28 ^ i" and ?Y = "y div B28 ^ i" and ?Z = "z div B28 ^ i"
  have eq: "?Z + s = ?X + ?Y + c"
    using div_step [of x i] div_step [of y i] div_step [of z i] assms(1)
    by (simp add: s_def c_def algebra_simps)
  have bounds: "B28 ^ i * n div B28 ^ i = n" for n
    by simp
  show "z < x + y" if "c < s"
  proof -
    have "?Z < ?X + ?Y"
      using eq that by linarith
    also have "\<dots> = (B28 ^ i * ?X + B28 ^ i * ?Y) div B28 ^ i"
      by (metis bounds distrib_left)
    also have "\<dots> \<le> (x + y) div B28 ^ i"
      by (intro div_le_mono add_mono) (simp_all add: mult.commute)
    finally show ?thesis by (rule div_less_imp_less)
  qed
  show "x + y < z" if "s + 1 < c"
  proof -
    have pos: "0 < B28 ^ i" by simp
    have "x < B28 ^ i * (?X + 1)" "y < B28 ^ i * (?Y + 1)"
      using pos dividend_less_times_div by (metis add.commute mult_Suc_right plus_1_eq_Suc)+
    then have "x + y < B28 ^ i * (?X + ?Y + 2)"
      by (simp add: algebra_simps)
    also have "\<dots> \<le> B28 ^ i * ?Z"
      using eq that by (intro mult_le_mono2) linarith
    also have "\<dots> \<le> z"
      by (simp add: mult.commute)
    finally show ?thesis .
  qed
  show "?Z = ?X + ?Y + (c - s)" if "s \<le> c"
    using eq that by linarith
qed

lemma PlusCompare_loop_eq:
  assumes rep: "bignum_rep a" "bignum_rep b" "bignum_rep c"
    and lo: "lo \<le> exponent a" "lo \<le> exponent b" "lo \<le> exponent c"
    and "unat borrow = B28 * bb" and "bb \<le> 1"
    and "bvalue c div B28 ^ (lo + k) = bvalue a div B28 ^ (lo + k) + bvalue b div B28 ^ (lo + k) + bb"
  shows "PlusCompare_loop a b c lo k borrow = Some (cmp (bvalue a + bvalue b) (bvalue c))"
  using assms(7-9)
proof (induction k arbitrary: borrow bb)
  case 0
  have "bvalue c = bvalue a + bvalue b + bb * B28 ^ lo"
  proof -
    have "bvalue c div B28 ^ lo * B28 ^ lo = (bvalue a div B28 ^ lo + bvalue b div B28 ^ lo + bb) * B28 ^ lo"
      using 0(3) by simp
    then show ?thesis
      by (simp only: distrib_right bvalue_dvd [OF lo(1)] bvalue_dvd [OF lo(2)] bvalue_dvd [OF lo(3)])
  qed
  then show ?case
    using 0(1,2) by (auto simp: cmp_def unat_eq_zero)
next
  case (Suc k)
  let ?i = "lo + k"
  define s where "s = bvalue a div B28 ^ ?i mod B28 + bvalue b div B28 ^ ?i mod B28"
  define t where "t = bvalue c div B28 ^ ?i mod B28 + B28 * bb"
  have "bvalue c div B28 ^ Suc ?i = bvalue a div B28 ^ Suc ?i + bvalue b div B28 ^ Suc ?i + bb"
    using Suc.prems(3) by simp
  note step = plus_step [OF this, folded s_def t_def]
  have us: "unat (bat a ?i + bat b ?i) = s"
    using bat_less [OF rep(1), of ?i] bat_less [OF rep(2), of ?i] by (simp add: unat_plus bat_digit [OF rep(1)] bat_digit [OF rep(2)] s_def)
  have uc: "unat (bat c ?i + borrow) = t"
    using bat_less [OF rep(3), of ?i] Suc.prems(1,2) by (simp add: unat_plus bat_digit [OF rep(3)] t_def)
  consider "t < s" | "s \<le> t" "s + 1 < t" | "s \<le> t" "t - s \<le> 1"
    by linarith
  then show ?case
  proof cases
    case 1
    then have "bat c ?i + borrow < bat a ?i + bat b ?i"
      by (simp only: word_less_nat_alt us uc)
    with step(1) [OF 1] show ?thesis
      by (simp add: BigitAt_bat rep cmp_def Let_def)
  next
    case 2
    then have n: "\<not> bat c ?i + borrow < bat a ?i + bat b ?i"
      by (simp only: word_less_nat_alt us uc not_less)
    then have "unat (bat c ?i + borrow - (bat a ?i + bat b ?i)) = t - s"
      by (simp only: word_less_nat_alt unat_minus not_less us uc)
    with 2 have "1 < bat c ?i + borrow - (bat a ?i + bat b ?i)"
      by (simp add: word_less_nat_alt)
    with n step(2) [OF 2(2)] show ?thesis
      by (simp add: BigitAt_bat rep cmp_def Let_def)
  next
    case 3
    then have n: "\<not> bat c ?i + borrow < bat a ?i + bat b ?i"
      by (simp only: word_less_nat_alt us uc not_less)
    let ?d = "bat c ?i + borrow - (bat a ?i + bat b ?i)"
    from n have d: "unat ?d = t - s"
      by (simp only: word_less_nat_alt unat_minus not_less us uc)
    have le: "\<not> 1 < ?d"
      using 3 by (simp add: word_less_nat_alt d)
    have "unat (push_bit 28 ?d) = B28 * (t - s)"
      using 3 d by (subst unat_push) auto
    then have "PlusCompare_loop a b c lo k (push_bit 28 ?d) = Some (cmp (bvalue a + bvalue b) (bvalue c))"
      by (rule Suc.IH) (use 3 step(3) [OF 3(1)] in auto)
    then show ?thesis
      using n le by (simp add: BigitAt_bat rep Let_def)
  qed
qed

lemma PlusCompare_unfold:
  assumes "bignum_ok a" "bignum_ok b" "bignum_ok c" and "BigitLength b \<le> BigitLength a"
  shows "PlusCompare a b c =
    (if BigitLength a + 1 < BigitLength c then Some (- 1)
     else if BigitLength c < BigitLength a then Some 1
     else if BigitLength b \<le> exponent a \<and> BigitLength a < BigitLength c then Some (- 1)
     else let min_exponent = min (min (exponent a) (exponent b)) (exponent c) in
       PlusCompare_loop a b c min_exponent (BigitLength c - min_exponent) 0)"
  using assms by (subst PlusCompare.simps) (simp add: ASSERT_IsClamped_ok)

lemma PlusCompare_ordered_eq:
  assumes ok: "bignum_ok a" "bignum_ok b" "bignum_ok c" and le: "BigitLength b \<le> BigitLength a"
  shows "PlusCompare a b c = Some (cmp (bvalue a + bvalue b) (bvalue c))"
proof -
  note less = ok [THEN bignum_ok_rep, THEN bignum_rep_less]
  let ?lo = "min (min (exponent a) (exponent b)) (exponent c)"
  have "bvalue b < B28 ^ BigitLength a"
    using less(2) le by (rule pow28_less)
  with less(1) have sum: "bvalue a + bvalue b < B28 ^ Suc (BigitLength a)"
    by simp
  consider (a) "BigitLength a + 1 < BigitLength c" | (b) "BigitLength c < BigitLength a"
    | (c) "BigitLength b \<le> exponent a" "BigitLength a < BigitLength c" "\<not> BigitLength a + 1 < BigitLength c"
    | (d) "\<not> BigitLength a + 1 < BigitLength c" "\<not> BigitLength c < BigitLength a"
      "\<not> (BigitLength b \<le> exponent a \<and> BigitLength a < BigitLength c)"
    by blast
  then show ?thesis
  proof cases
    case a
    then have "B28 ^ Suc (BigitLength a) \<le> bvalue c"
      by (intro BigitLength_ge ok) linarith
    with sum have "bvalue a + bvalue b < bvalue c"
      by (rule less_le_trans)
    then show ?thesis
      using a le by (simp add: PlusCompare_unfold ok cmp_def)
  next
    case b
    then have "bvalue c < bvalue a + bvalue b"
      using BigitLength_less_imp [OF ok(3,1)] by simp
    then show ?thesis
      using b le by (simp add: PlusCompare_unfold ok cmp_def)
  next
    case c
    have "bvalue a + bvalue b < B28 ^ BigitLength a"
    proof -
      have "bvalue b < B28 ^ exponent a"
        using less(2) c(1) by (rule pow28_less)
      moreover have "dv (bigits a) (used_digits a) < B28 ^ used_digits a"
        by (rule dv_less) (use ok(1) in \<open>simp add: bignum_ok_def bignum_rep_def bigits_ok_def\<close>)
      then have "Suc (dv (bigits a) (used_digits a)) * B28 ^ exponent a \<le> B28 ^ BigitLength a"
        unfolding BigitLength_def power_add by (intro mult_le_mono1) simp
      ultimately show ?thesis by (simp add: bvalue_def)
    qed
    also have "\<dots> \<le> bvalue c"
      by (rule BigitLength_ge) (use ok c in auto)
    finally show ?thesis
      using c le by (simp add: PlusCompare_unfold ok cmp_def)
  next
    case d
    have lo: "?lo \<le> BigitLength c"
      by (simp add: BigitLength_def)
    have "PlusCompare_loop a b c ?lo (BigitLength c - ?lo) 0 = Some (cmp (bvalue a + bvalue b) (bvalue c))"
    proof (rule PlusCompare_loop_eq)
      have "BigitLength a \<le> BigitLength c"
        using d(2) by simp
      then have "bvalue a < B28 ^ BigitLength c" "bvalue b < B28 ^ BigitLength c"
        using less(1,2) le by (auto intro: pow28_less)
      then show "bvalue c div B28 ^ (?lo + (BigitLength c - ?lo)) =
          bvalue a div B28 ^ (?lo + (BigitLength c - ?lo)) + bvalue b div B28 ^ (?lo + (BigitLength c - ?lo)) + 0"
        using lo less(3) by simp
    qed (use ok in auto)
    with d le show ?thesis
      by (auto simp: PlusCompare_unfold ok Let_def)
  qed
qed

lemma PlusCompare_eq:
  assumes ok: "bignum_ok a" "bignum_ok b" "bignum_ok c"
  shows "PlusCompare a b c = Some (cmp (bvalue a + bvalue b) (bvalue c))"
proof (cases "BigitLength a < BigitLength b")
  case True
  then have "PlusCompare a b c = PlusCompare b a c"
    by (subst PlusCompare.simps) (simp add: ok [THEN ASSERT_IsClamped_ok])
  also have "\<dots> = Some (cmp (bvalue b + bvalue a) (bvalue c))"
    using True ok by (intro PlusCompare_ordered_eq) auto
  finally show ?thesis by (simp add: add.commute)
qed (use PlusCompare_ordered_eq [OF ok] in simp)

lemma PlusCompare_preds:
  assumes ok: "bignum_ok a" "bignum_ok b" "bignum_ok c"
  shows "PlusEqual a b c = Some (bvalue a + bvalue b = bvalue c)"
    and "PlusLessEqual a b c = Some (bvalue a + bvalue b \<le> bvalue c)"
    and "PlusLess a b c = Some (bvalue a + bvalue b < bvalue c)"
  using ok by (auto simp: PlusEqual_def PlusLessEqual_def PlusLess_def PlusCompare_eq cmp_def)

end
