(* ===== verification/Bignum_Subtract.thy ===== *)
theory Bignum_Subtract
  imports Bignum_Add Bignum_Compare
begin

unbundle bit_operations_syntax

text \<open>
  Subtraction of \<open>bignum.cc\<close>: \<open>SubtractBignum\<close> and \<open>SubtractTimes\<close>.  The borrow is the top bit of
  the wrapped 32 bit difference; the ripple loop ends inside the digits in use because the
  subtrahend is not greater.
\<close>

definition SubtractBignum_digit :: "bignum \<Rightarrow> nat \<Rightarrow> nat \<Rightarrow> u32 \<times> u32 list \<Rightarrow> (u32 \<times> u32 list) option" where
  "SubtractBignum_digit other offset i = (\<lambda>(borrow, bs). do {
     ASSERT (borrow = 0 \<or> borrow = 1);
     x \<leftarrow> rd bs (i + offset);
     y \<leftarrow> rd (bigits other) i;
     let difference = x - y - borrow;
     bs \<leftarrow> wr bs (i + offset) (difference AND kBigitMask);
     Some (drop_bit (kChunkSize - 1) difference, bs) })"

definition SubtractBignum_borrow :: "nat \<Rightarrow> nat \<times> u32 \<times> u32 list \<Rightarrow> (nat \<times> u32 \<times> u32 list) option" where
  "SubtractBignum_borrow offset = (\<lambda>(i, borrow, bs). do {
     x \<leftarrow> rd bs (i + offset);
     let difference = x - borrow;
     bs \<leftarrow> wr bs (i + offset) (difference AND kBigitMask);
     Some (i + 1, drop_bit (kChunkSize - 1) difference, bs) })"

definition SubtractBignum :: "bignum \<Rightarrow> bignum \<Rightarrow> bignum option" where
  "SubtractBignum b other = do {
     ASSERT_IsClamped b;
     ASSERT_IsClamped other;
     le \<leftarrow> LessEqual other b;
     ASSERT le;
     b \<leftarrow> Align b other;
     let offset = exponent other - exponent b;
     (borrow, bs) \<leftarrow> for_up 0 (used_digits other) (SubtractBignum_digit other offset) (0, bigits b);
     (i, borrow, bs) \<leftarrow> while_opt (\<lambda>(i, borrow, bs). borrow \<noteq> 0) (SubtractBignum_borrow offset)
                        (used_digits other, borrow, bs);
     Clamp (b\<lparr>bigits := bs\<rparr>) }"

definition SubtractTimes_digit :: "bignum \<Rightarrow> int \<Rightarrow> nat \<Rightarrow> nat \<Rightarrow> u32 \<times> u32 list \<Rightarrow> (u32 \<times> u32 list) option" where
  "SubtractTimes_digit other factor exponent_diff i = (\<lambda>(borrow, bs). do {
     y \<leftarrow> rd (bigits other) i;
     let product = (word_of_int factor :: u64) * ucast y;
     let remove = ucast borrow + product;
     x \<leftarrow> rd bs (i + exponent_diff);
     let difference = (ucast (ucast x - (remove AND ucast kBigitMask)) :: u32);
     bs \<leftarrow> wr bs (i + exponent_diff) (difference AND kBigitMask);
     Some (ucast (ucast (drop_bit (kChunkSize - 1) difference) + drop_bit kBigitSize remove), bs) })"

text \<open>
  The second loop of \<open>SubtractTimes\<close>, \<open>k\<close> steps from index \<open>i\<close>: \<open>True\<close> when it left the method by
  its \<open>return\<close>, \<open>False\<close> when it ran to its end.
\<close>

primrec SubtractTimes_tail :: "nat \<Rightarrow> nat \<Rightarrow> u32 \<Rightarrow> u32 list \<Rightarrow> (bool \<times> u32 list) option" where
  "SubtractTimes_tail 0 i borrow bs = Some (False, bs)"
| "SubtractTimes_tail (Suc k) i borrow bs =
    (if borrow = 0 then Some (True, bs)
     else do {
       x \<leftarrow> rd bs i;
       let difference = x - borrow;
       bs \<leftarrow> wr bs i (difference AND kBigitMask);
       SubtractTimes_tail k (i + 1) (drop_bit (kChunkSize - 1) difference) bs })"

definition SubtractTimes :: "bignum \<Rightarrow> bignum \<Rightarrow> int \<Rightarrow> bignum option" where
  "SubtractTimes b other factor = do {
     ASSERT (exponent b \<le> exponent other);
     if factor < 3 then for_up 0 (nat factor) (\<lambda>_ b. SubtractBignum b other) b
     else do {
       let exponent_diff = exponent other - exponent b;
       (borrow, bs) \<leftarrow> for_up 0 (used_digits other) (SubtractTimes_digit other factor exponent_diff)
                          (0, bigits b);
       let start = used_digits other + exponent_diff;
       (returned, bs) \<leftarrow> SubtractTimes_tail (used_digits b - start) start borrow bs;
       if returned then Some (b\<lparr>bigits := bs\<rparr>) else Clamp (b\<lparr>bigits := bs\<rparr>) } }"

section \<open>One digit\<close>

lemma sub_step:
  fixes x l :: u32
  assumes "unat x < B28" and "unat l \<le> B28"
  shows "unat ((x - l) AND 0xFFFFFFF) + unat l = unat x + B28 * unat (drop_bit 31 (x - l))"
    and "unat (drop_bit 31 (x - l)) \<le> 1"
proof -
  have "unat ((x - l) AND 0xFFFFFFF) + unat l = unat x + B28 * unat (drop_bit 31 (x - l)) \<and>
      unat (drop_bit 31 (x - l)) \<le> 1"
  proof (cases "unat l \<le> unat x")
    case True
    then have "unat (x - l) = unat x - unat l"
      by (rule unat_minus)
    with True assms show ?thesis
      by (simp add: nat_words)
  next
    case False
    define d where "d = unat l - unat x"
    have d: "0 < d" "d \<le> B28" "unat l = unat x + d"
      using False assms by (simp_all add: d_def)
    have u: "unat (x - l) = 15 * B28 + (B28 - d)"
    proof -
      have "unat (x - l) = unat x + 2 ^ LENGTH(32) - unat l"
        using False unat_minus_mod [of x l] assms by (simp add: mod_less)
      then show ?thesis
        using d by simp
    qed
    obtain k where k: "k + d = B28"
      using d(2) le_Suc_ex by (metis add.commute)
    have u': "unat (x - l) = k + 15 * B28"
      using u k by simp
    have "unat (x - l) mod B28 = k mod B28"
      unfolding u' by (rule mod_mult_self1)
    moreover have "unat (x - l) div 2147483648 = 1"
      unfolding u' by (rule div_nat_eqI) (use d(1) k in simp_all)
    ultimately have "unat (x - l) mod B28 = B28 - d" and "unat (x - l) div 2147483648 = 1"
      using d(1) k by simp_all
    then show ?thesis
      using d by (simp add: nat_words)
  qed
  then show "unat ((x - l) AND 0xFFFFFFF) + unat l = unat x + B28 * unat (drop_bit 31 (x - l))"
    and "unat (drop_bit 31 (x - l)) \<le> 1"
    by blast+
qed

text \<open>
  The invariant of the loops: \<open>orig\<close> is the array before, \<open>n\<close> the bigits in use, \<open>X\<close> the value
  subtracted so far from the bigits below \<open>p\<close>.
\<close>

definition borrow_inv :: "u32 list \<Rightarrow> nat \<Rightarrow> nat \<Rightarrow> nat \<Rightarrow> u32 \<times> u32 list \<Rightarrow> bool" where
  "borrow_inv orig n X p = (\<lambda>(c, bs). p \<le> n \<and> bigits_ok bs n \<and>
     (\<forall>i. p \<le> i \<and> i < 128 \<longrightarrow> bs ! i = orig ! i) \<and> dv bs p + X = dv orig p + unat c * B28 ^ p)"

lemma borrow_invD:
  assumes "borrow_inv orig n X p (c, bs)"
  shows "p \<le> n" and "n \<le> 128" and "length bs = 128" and "i < 128 \<Longrightarrow> unat (bs ! i) < B28"
    and "p \<le> i \<Longrightarrow> i < 128 \<Longrightarrow> bs ! i = orig ! i"
    and "dv bs p + X = dv orig p + unat c * B28 ^ p"
    and "bigits_ok bs n"
  using assms bigits_okD(3) [of bs n i] by (auto simp: borrow_inv_def bigits_ok_def)

lemma borrow_inv_step:
  assumes inv: "borrow_inv orig n X p (c, bs)" and p: "p < n"
    and low: "unat low < B28"
    and eq: "unat low + (y + unat c) = unat (bs ! p) + B28 * unat c'"
  shows "borrow_inv orig n (X + y * B28 ^ p) (Suc p) (c', bs[p := low])"
proof -
  note D = borrow_invD [OF inv]
  have p128: "p < 128" using p D(2) by simp
  have "dv (bs[p := low]) (Suc p) + (X + y * B28 ^ p) = dv bs p + X + (unat low + y) * B28 ^ p"
    using D(3) p128 by (simp add: dv_Suc algebra_simps)
  also have "\<dots> = dv orig p + (unat low + (y + unat c)) * B28 ^ p"
    using D(6) by (simp add: algebra_simps)
  also have "\<dots> = dv orig (Suc p) + unat c' * B28 ^ Suc p"
    using D(5) [of p] p128 unfolding eq by (simp add: dv_Suc algebra_simps)
  finally show ?thesis
    using D(3,7) p low inv p128 by (auto simp: borrow_inv_def bigits_ok_def nth_list_update)
qed

text \<open>While a borrow is left and the whole subtrahend is not greater, there is a digit left.\<close>

lemma borrow_inv_room:
  assumes "borrow_inv orig n X p (c, bs)" and "c \<noteq> 0" and "X \<le> dv orig n"
  shows "p < n"
proof (rule ccontr)
  assume "\<not> p < n"
  with borrow_invD(1) [OF assms(1)] have p: "p = n" by simp
  have "dv bs n < B28 ^ n"
    by (rule dv_less_used [OF borrow_invD(7,2) [OF assms(1)]])
  moreover have "B28 ^ n \<le> unat c * B28 ^ n"
    using assms(2) by (simp add: unat_eq_zero)
  ultimately show False
    using borrow_invD(6) [OF assms(1)] assms(3) unfolding p by linarith
qed

lemma borrow_inv_finish:
  assumes "borrow_inv orig n X p (0, bs)"
  shows "dv bs n + X = dv orig n"
proof -
  note D = borrow_invD [OF assms]
  have "dv bs n + dv orig p = dv orig n + dv bs p"
    by (rule dv_tail) (use D(1,2,5) in auto)
  then show ?thesis using D(6) by simp
qed

section \<open>SubtractBignum\<close>

lemma SubtractBignum_digits_wp:
  assumes "bigits_ok orig n" and "bigits_ok (bigits other) m" and "off + m \<le> n"
  shows "wp (for_up 0 m (SubtractBignum_digit other off) (0, orig))
    (\<lambda>t. unat (fst t) \<le> 1 \<and> borrow_inv orig n (B28 ^ off * dv (bigits other) m) (off + m) t)"
proof (rule for_up_rule [where I = "\<lambda>j t. unat (fst t) \<le> 1 \<and>
    borrow_inv orig n (B28 ^ off * dv (bigits other) j) (off + j) t"])
  fix j and t :: "u32 \<times> u32 list"
  assume j: "j < m" and I: "unat (fst t) \<le> 1 \<and> borrow_inv orig n (B28 ^ off * dv (bigits other) j) (off + j) t"
  obtain c bs where t: "t = (c, bs)" by (cases t) auto
  have inv: "borrow_inv orig n (B28 ^ off * dv (bigits other) j) (off + j) (c, bs)" and c: "unat c \<le> 1"
    using I by (simp_all add: t)
  have p: "off + j < n" "off + j < 128" "j < 128" "length bs = 128" "length (bigits other) = 128"
    using j assms(3) borrow_invD(2,3) [OF inv] bigits_okD(1) [OF assms(2)] by simp_all
  let ?x = "bs ! (off + j)" and ?y = "bigits other ! j"
  have x: "unat ?x < B28" and y: "unat ?y < B28"
    using borrow_invD(4) [OF inv p(2)] bigits_okD(3) [OF assms(2) p(3)] .
  have yc: "unat (?y + c) = unat ?y + unat c"
    using y c by (simp add: unat_plus)
  have step: "unat ((?x - (?y + c)) AND 0xFFFFFFF) + (unat ?y + unat c) = unat ?x + B28 * unat (drop_bit 31 (?x - (?y + c)))"
      "unat (drop_bit 31 (?x - (?y + c))) \<le> 1"
    using sub_step [OF x, of "?y + c"] y c unfolding yc by simp_all
  have "borrow_inv orig n (B28 ^ off * dv (bigits other) j + unat ?y * B28 ^ (off + j)) (Suc (off + j))
      (drop_bit 31 (?x - (?y + c)), bs[off + j := (?x - (?y + c)) AND 0xFFFFFFF])"
    by (rule borrow_inv_step [OF inv p(1) _ step(1)]) (simp add: nat_words)
  moreover have "c = 0 \<or> c = 1"
    using c by (simp add: unat_eq_zero word_eq_iff_unsigned [where ?'a = nat, unfolded One_nat_def]) (auto simp: le_Suc_eq unsigned_1)
  ultimately show "wp (SubtractBignum_digit other off j t) (\<lambda>t. unat (fst t) \<le> 1 \<and>
      borrow_inv orig n (B28 ^ off * dv (bigits other) (Suc j)) (off + Suc j) t)"
    using p step(2) by (simp add: t SubtractBignum_digit_def wp_simps dv_Suc algebra_simps power_add)
qed (use assms in \<open>auto simp: borrow_inv_def\<close>)

lemma SubtractBignum_borrow_wp:
  assumes "unat c0 \<le> 1" and "borrow_inv orig n X (i0 + off) (c0, bs0)" and "X \<le> dv orig n"
  shows "wp (while_opt (\<lambda>(i, borrow, bs). borrow \<noteq> 0) (SubtractBignum_borrow off) (i0, c0, bs0))
    (\<lambda>(i, c, bs). c = 0 \<and> borrow_inv orig n X (i + off) (c, bs))"
proof (rule while_opt_rule [where I = "\<lambda>(i, c, bs). unat c \<le> 1 \<and> borrow_inv orig n X (i + off) (c, bs)"
      and m = "\<lambda>(i, c, bs). n - (i + off)"])
  fix t :: "nat \<times> u32 \<times> u32 list"
  assume I: "case t of (i, c, bs) \<Rightarrow> unat c \<le> 1 \<and> borrow_inv orig n X (i + off) (c, bs)"
    and nz: "case t of (i, c, bs) \<Rightarrow> c \<noteq> 0"
  obtain i c bs where t: "t = (i, c, bs)" by (cases t) auto
  have inv: "borrow_inv orig n X (i + off) (c, bs)" and c: "unat c \<le> 1" "c \<noteq> 0"
    using I nz by (simp_all add: t)
  have p: "i + off < n" "i + off < 128" "length bs = 128"
    using borrow_inv_room [OF inv c(2) assms(3)] borrow_invD(2,3) [OF inv] by simp_all
  let ?x = "bs ! (i + off)"
  have step: "unat ((?x - c) AND 0xFFFFFFF) + (0 + unat c) = unat ?x + B28 * unat (drop_bit 31 (?x - c))"
      "unat (drop_bit 31 (?x - c)) \<le> 1"
    using sub_step [OF borrow_invD(4) [OF inv p(2)], of c] c by simp_all
  have "borrow_inv orig n (X + 0 * B28 ^ (i + off)) (Suc (i + off)) (drop_bit 31 (?x - c), bs[i + off := (?x - c) AND 0xFFFFFFF])"
    by (rule borrow_inv_step [OF inv p(1) _ step(1)]) (simp add: nat_words)
  then show "wp (SubtractBignum_borrow off t) (\<lambda>u. (case u of (i, c, bs) \<Rightarrow> unat c \<le> 1 \<and> borrow_inv orig n X (i + off) (c, bs)) \<and>
      (case u of (i, c, bs) \<Rightarrow> n - (i + off)) < (case t of (i, c, bs) \<Rightarrow> n - (i + off)))"
    using p step(2) by (simp add: t SubtractBignum_borrow_def wp_simps)
qed (use assms in auto)

text \<open>After \<open>Align\<close> the digits of a smaller number lie inside those of the greater one.\<close>

lemma aligned_le:
  assumes "bignum_ok a" and "bignum_ok other" and "exponent a \<le> exponent other" and "bvalue other \<le> bvalue a"
  shows "exponent other - exponent a + used_digits other \<le> used_digits a"
    and "B28 ^ (exponent other - exponent a) * dv (bigits other) (used_digits other) \<le> dv (bigits a) (used_digits a)"
proof -
  have "BigitLength other \<le> BigitLength a"
    using BigitLength_less_imp [OF assms(1,2)] assms(4) by linarith
  then show "exponent other - exponent a + used_digits other \<le> used_digits a"
    using assms(3) by (simp add: BigitLength_def)
  show "B28 ^ (exponent other - exponent a) * dv (bigits other) (used_digits other) \<le> dv (bigits a) (used_digits a)"
    using assms(4) unfolding bvalue_scaled [OF assms(3)] by (simp add: bvalue_def)
qed

lemma SubtractBignum_wp:
  assumes "bignum_ok b" and "bignum_ok other" and le: "bvalue other \<le> bvalue b"
    and cap: "exponent other < exponent b \<Longrightarrow> BigitLength b - exponent other \<le> 128"
  shows "wp (SubtractBignum b other) (\<lambda>r. bignum_ok r \<and> bvalue r = bvalue b - bvalue other \<and>
    exponent r \<le> min (exponent b) (exponent other))"
proof -
  have "wp (Align b other) (\<lambda>a. bignum_ok a \<and> bvalue a = bvalue b \<and>
    BigitLength a = BigitLength b \<and> exponent a = min (exponent b) (exponent other))"
    by (rule Align_wp) (use assms in auto)
  then obtain a where a: "Align b other = Some a" "bignum_ok a" "bvalue a = bvalue b"
    "exponent a = min (exponent b) (exponent other)"
    by (auto elim: wpE)
  have e: "exponent a \<le> exponent other"
    by (simp add: a(4))
  let ?n = "used_digits a" and ?m = "used_digits other" and ?off = "exponent other - exponent a"
  let ?X = "B28 ^ ?off * dv (bigits other) ?m"
  have ok: "bigits_ok (bigits a) ?n" "bigits_ok (bigits other) ?m"
    using a(2) assms(2) by (simp_all add: bignum_ok_def bignum_rep_def)
  note al = aligned_le [OF a(2) assms(2) e, unfolded a(3), OF le]
  obtain c0 bs0 where 1: "for_up 0 ?m (SubtractBignum_digit other ?off) (0, bigits a) = Some (c0, bs0)"
    "unat c0 \<le> 1" "borrow_inv (bigits a) ?n ?X (?m + ?off) (c0, bs0)"
    using SubtractBignum_digits_wp [OF ok al(1)] by (auto elim!: wpE simp: add.commute)
  obtain i bs where 2: "while_opt (\<lambda>(i, borrow, bs). borrow \<noteq> 0) (SubtractBignum_borrow ?off) (?m, c0, bs0) = Some (i, 0, bs)"
    "borrow_inv (bigits a) ?n ?X (i + ?off) (0, bs)"
    using SubtractBignum_borrow_wp [OF 1(2,3) al(2)] by (auto elim!: wpE)
  let ?r = "a\<lparr>bigits := bs\<rparr>"
  have "wp (Clamp ?r) (\<lambda>r. bignum_ok r \<and> bvalue r = bvalue ?r \<and> exponent r \<le> exponent ?r)"
    by (rule Clamp_wp') (use borrow_invD(7) [OF 2(2)] in \<open>simp add: bignum_rep_def\<close>)
  moreover have "bvalue ?r + bvalue other = bvalue b"
    using borrow_inv_finish [OF 2(2)] unfolding a(3) [symmetric] bvalue_scaled [OF e]
    by (simp add: bvalue_def flip: distrib_right)
  ultimately show ?thesis
    using le by (auto simp: SubtractBignum_def ASSERT_IsClamped_ok assms Compare_preds a(1) 1(1) 2(1) ASSERT_def
        Let_def a(4) [symmetric] elim!: wp_mono)
qed

section \<open>SubtractTimes\<close>

lemma kBigitMask_64 [simp]: "(ucast (0xFFFFFFF :: u32) :: u64) = 0xFFFFFFF"
  by simp

lemma sub_times_step:
  fixes x y c :: u32 and F :: u64
  assumes x: "unat x < B28" and y: "unat y < B28" and F: "unat F < B28" and c: "unat c \<le> unat F"
  defines "remove \<equiv> ucast c + F * ucast y"
  defines "difference \<equiv> (ucast (ucast x - (remove AND 0xFFFFFFF)) :: u32)"
  defines "c' \<equiv> (ucast (ucast (drop_bit 31 difference) + drop_bit 28 remove) :: u32)"
  shows "unat (difference AND 0xFFFFFFF) + (unat F * unat y + unat c) = unat x + B28 * unat c'"
    and "unat c' \<le> unat F"
proof -
  have prod: "unat F * unat y + unat F \<le> unat F * B28"
    using y by (metis Suc_leI add.commute mult_Suc_right mult_le_mono2)
  also have FB: "\<dots> \<le> B28 * B28"
    using F by simp
  finally have le: "unat F * unat y + unat F \<le> B28 * B28" .
  have Fy: "unat (F * ucast y) = unat F * unat y"
    by (subst unat_times) (use le in \<open>simp_all add: nat_words\<close>)
  have r: "unat remove = unat c + unat F * unat y"
    unfolding remove_def by (subst unat_plus) (use le c in \<open>simp_all add: nat_words Fy\<close>)
  define l :: u32 where "l = ucast (remove AND 0xFFFFFFF)"
  have l: "unat l = unat remove mod B28"
    unfolding l_def unat_u64_u32 unat_and28 by (subst mod_pow_mod) simp_all
  have d: "difference = x - l"
    by (simp add: difference_def l_def ucast_u32_minus)
  have "unat l \<le> B28"
    unfolding l by simp
  note step = sub_step [OF x this, folded d]
  have "unat remove \<le> B28 * B28"
    using le c unfolding r by linarith
  then have "unat remove div B28 \<le> B28"
    using div_le_mono [of "unat remove" "B28 * B28" B28] by simp
  then have c': "unat c' = unat (drop_bit 31 difference) + unat remove div B28"
    unfolding c'_def using step(2) by (simp add: nat_words unat_plus)
  have "unat (difference AND 0xFFFFFFF) + (unat l + B28 * (unat remove div B28)) = unat x + B28 * unat c'"
    using step(1) by (simp add: c' algebra_simps)
  then show eq: "unat (difference AND 0xFFFFFFF) + (unat F * unat y + unat c) = unat x + B28 * unat c'"
    unfolding l by (simp add: r add.commute)
  have "B28 * unat c' < B28 * Suc (unat F)"
  proof -
    have "unat (difference AND 0xFFFFFFF) < B28"
      by (simp add: nat_words)
    then show ?thesis
      using eq prod c unfolding mult_Suc_right mult.commute [of B28 "unat F"] by linarith
  qed
  then show "unat c' \<le> unat F" by simp
qed

lemma unat_of_factor: "0 \<le> factor \<Longrightarrow> factor < int B28 \<Longrightarrow> unat (word_of_int factor :: u64) = nat factor"
  by (simp add: unsigned_of_int take_bit_int_eq_self)

lemma SubtractTimes_digits_wp:
  assumes "bigits_ok orig n" and "bigits_ok (bigits other) m" and "off + m \<le> n"
    and F: "0 \<le> factor" "factor < int B28"
  shows "wp (for_up 0 m (SubtractTimes_digit other factor off) (0, orig))
    (\<lambda>t. unat (fst t) \<le> nat factor \<and> borrow_inv orig n (nat factor * (B28 ^ off * dv (bigits other) m)) (off + m) t)"
proof (rule for_up_rule [where I = "\<lambda>j t. unat (fst t) \<le> nat factor \<and>
    borrow_inv orig n (nat factor * (B28 ^ off * dv (bigits other) j)) (off + j) t"])
  fix j and t :: "u32 \<times> u32 list"
  let ?X = "\<lambda>j. nat factor * (B28 ^ off * dv (bigits other) j)"
  assume j: "j < m" and I: "unat (fst t) \<le> nat factor \<and> borrow_inv orig n (?X j) (off + j) t"
  obtain c bs where t: "t = (c, bs)" by (cases t) auto
  let ?F = "word_of_int factor :: u64"
  have uF: "unat ?F = nat factor"
    using F by (rule unat_of_factor)
  have inv: "borrow_inv orig n (?X j) (off + j) (c, bs)" and c: "unat c \<le> unat ?F"
    using I by (simp_all add: t uF)
  have p: "off + j < n" "off + j < 128" "j < 128" "length bs = 128" "length (bigits other) = 128"
    using j assms(3) borrow_invD(2,3) [OF inv] bigits_okD(1) [OF assms(2)] by simp_all
  let ?x = "bs ! (off + j)" and ?y = "bigits other ! j"
  have x: "unat ?x < B28" and y: "unat ?y < B28" and F28: "unat ?F < B28"
    using borrow_invD(4) [OF inv p(2)] bigits_okD(3) [OF assms(2) p(3)] F uF by simp_all
  define remove where "remove = ucast c + ?F * ucast ?y"
  define difference :: u32 where "difference = ucast (ucast ?x - (remove AND 0xFFFFFFF))"
  define c' :: u32 where "c' = ucast (ucast (drop_bit 31 difference) + drop_bit 28 remove)"
  note step = sub_times_step [OF x y F28 c, folded remove_def difference_def c'_def, folded difference_def c'_def, folded c'_def]
  have "borrow_inv orig n (?X j + (unat ?F * unat ?y) * B28 ^ (off + j)) (Suc (off + j))
      (c', bs[off + j := difference AND 0xFFFFFFF])"
    by (rule borrow_inv_step [OF inv p(1) _ step(1)]) (simp add: nat_words)
  moreover have "?X j + (unat ?F * unat ?y) * B28 ^ (off + j) = ?X (Suc j)"
    by (simp add: uF dv_Suc power_add algebra_simps)
  ultimately show "wp (SubtractTimes_digit other factor off j t) (\<lambda>t. unat (fst t) \<le> nat factor \<and>
      borrow_inv orig n (?X (Suc j)) (off + Suc j) t)"
    using p step(2) by (simp add: t SubtractTimes_digit_def wp_simps uF add.commute [of j]
        flip: remove_def difference_def c'_def)
qed (use assms in \<open>auto simp: borrow_inv_def\<close>)

lemma SubtractTimes_tail_wp:
  assumes "borrow_inv orig n X i (c, bs)" and "unat c < B28" and "X \<le> dv orig n" and "n = i + k"
  shows "wp (SubtractTimes_tail k i c bs) (\<lambda>(ret, bs). \<exists>j. borrow_inv orig n X j (0, bs) \<and> (ret \<longrightarrow> j < n))"
  using assms
proof (induction k arbitrary: i c bs)
  case 0
  then have "c = 0"
    using borrow_inv_room [OF 0(1) _ 0(3)] by auto
  with 0 show ?case
    by auto
next
  case (Suc k)
  show ?case
  proof (cases "c = 0")
    case True
    with Suc.prems show ?thesis
      by auto
  next
    case False
    let ?d = "bs ! i - c"
    have i: "i < n" "i < 128" "length bs = 128"
      using Suc.prems borrow_invD(2,3) [OF Suc.prems(1)] by simp_all
    have step: "unat (?d AND 0xFFFFFFF) + (0 + unat c) = unat (bs ! i) + B28 * unat (drop_bit 31 ?d)"
        "unat (drop_bit 31 ?d) \<le> 1"
      using sub_step [OF borrow_invD(4) [OF Suc.prems(1) i(2)], of c] Suc.prems(2) by simp_all
    have "borrow_inv orig n (X + 0 * B28 ^ i) (Suc i) (drop_bit 31 ?d, bs[i := ?d AND 0xFFFFFFF])"
      by (rule borrow_inv_step [OF Suc.prems(1) i(1) _ step(1)]) (simp add: nat_words)
    then have "wp (SubtractTimes_tail k (Suc i) (drop_bit 31 ?d) (bs[i := ?d AND 0xFFFFFFF]))
        (\<lambda>(ret, bs). \<exists>j. borrow_inv orig n X j (0, bs) \<and> (ret \<longrightarrow> j < n))"
      by (intro Suc.IH) (use Suc.prems step(2) in auto)
    with False i show ?thesis
      by (simp add: wp_simps)
  qed
qed

lemma SubtractBignum_times_wp:
  assumes "bignum_ok b" and "bignum_ok other" and "k * bvalue other \<le> bvalue b" and "exponent b \<le> exponent other"
  shows "wp (for_up 0 k (\<lambda>_ b. SubtractBignum b other) b) (\<lambda>r. bignum_ok r \<and>
    bvalue r = bvalue b - k * bvalue other \<and> exponent r \<le> exponent b)"
proof (rule for_up_rule [where I = "\<lambda>j r. bignum_ok r \<and> bvalue r = bvalue b - j * bvalue other \<and> exponent r \<le> exponent b"])
  fix j r
  assume j: "j < k" and I: "bignum_ok r \<and> bvalue r = bvalue b - j * bvalue other \<and> exponent r \<le> exponent b"
  have "Suc j * bvalue other \<le> bvalue b"
    using j assms(3) by (meson Suc_leI le_trans mult_le_mono1)
  then have "wp (SubtractBignum r other) (\<lambda>s. bignum_ok s \<and> bvalue s = bvalue r - bvalue other \<and>
      exponent s \<le> min (exponent r) (exponent other))"
    using I assms by (intro SubtractBignum_wp) auto
  then show "wp (SubtractBignum r other) (\<lambda>r. bignum_ok r \<and> bvalue r = bvalue b - Suc j * bvalue other \<and> exponent r \<le> exponent b)"
    using I by (auto elim!: wp_mono)
qed (use assms in auto)

lemma SubtractTimes_wp:
  assumes ok: "bignum_ok b" "bignum_ok other" and F: "0 \<le> factor" "factor < int B28"
    and le: "nat factor * bvalue other \<le> bvalue b" and e: "exponent b \<le> exponent other"
  shows "wp (SubtractTimes b other factor) (\<lambda>r. bignum_ok r \<and>
    bvalue r = bvalue b - nat factor * bvalue other \<and> exponent r \<le> exponent b)"
proof (cases "factor < 3")
  case True
  then show ?thesis
    using SubtractBignum_times_wp [OF ok le e] e by (simp add: SubtractTimes_def wp_simps)
next
  case False
  let ?n = "used_digits b" and ?m = "used_digits other" and ?off = "exponent other - exponent b"
  let ?V = "B28 ^ ?off * dv (bigits other) ?m"
  let ?X = "nat factor * ?V"
  have bok: "bigits_ok (bigits b) ?n" "bigits_ok (bigits other) ?m"
    using ok by (simp_all add: bignum_ok_def bignum_rep_def)
  have "1 * bvalue other \<le> nat factor * bvalue other"
    using False by (intro mult_le_mono1) simp
  with le have "bvalue other \<le> bvalue b"
    by linarith
  note al = aligned_le [OF ok e this]
  have X: "?X \<le> dv (bigits b) ?n"
  proof -
    have "?X * B28 ^ exponent b \<le> dv (bigits b) ?n * B28 ^ exponent b"
      using le unfolding bvalue_scaled [OF e] by (simp add: bvalue_def mult.assoc)
    then show ?thesis by simp
  qed
  obtain c bs where 1: "for_up 0 ?m (SubtractTimes_digit other factor ?off) (0, bigits b) = Some (c, bs)"
    "unat c \<le> nat factor" "borrow_inv (bigits b) ?n ?X (?m + ?off) (c, bs)"
    using SubtractTimes_digits_wp [OF bok al(1) F] by (auto elim!: wpE simp: add.commute)
  have "unat c < B28"
    using 1(2) F by simp
  have "?n = ?m + ?off + (?n - (?m + ?off))"
    using al(1) by simp
  from SubtractTimes_tail_wp [OF 1(3) \<open>unat c < B28\<close> X this] obtain ret rs j where
    2: "SubtractTimes_tail (?n - (?m + ?off)) (?m + ?off) c bs = Some (ret, rs)"
      "borrow_inv (bigits b) ?n ?X j (0, rs)" "ret \<longrightarrow> j < ?n"
    by (auto elim!: wpE)
  let ?r = "b\<lparr>bigits := rs\<rparr>"
  have "(dv rs ?n + ?X) * B28 ^ exponent b = dv (bigits b) ?n * B28 ^ exponent b"
    using borrow_inv_finish [OF 2(2)] by simp
  then have "bvalue ?r + nat factor * bvalue other = bvalue b"
    unfolding bvalue_scaled [OF e] by (simp add: bvalue_def distrib_right mult.assoc)
  then have v: "bvalue ?r = bvalue b - nat factor * bvalue other"
    by simp
  have rep: "bignum_rep ?r"
    using borrow_invD(7) [OF 2(2)] by (simp add: bignum_rep_def)
  show ?thesis
  proof (cases ret)
    case True
    then have "rs ! (?n - 1) = bigits b ! (?n - 1)" "?n \<noteq> 0"
      using 2(3) bok(1) bigits_okD(2) [OF bok(1)] by (auto intro!: borrow_invD(5) [OF 2(2)])
    then have "bignum_ok ?r"
      using rep ok(1) by (simp add: bignum_ok_def)
    then show ?thesis
      using False True v e 1(1) 2(1) by (simp add: SubtractTimes_def wp_simps Let_def)
  next
    case ret: False
    show ?thesis
      using Clamp_wp' [OF rep] False ret v e 1(1) 2(1) by (auto simp add: SubtractTimes_def wp_simps Let_def elim!: wp_mono)
  qed
qed

end
