(* ===== verification/Bignum_Multiply.thy ===== *)
theory Bignum_Multiply
  imports Bignum_Add
begin

unbundle bit_operations_syntax

text \<open>
  Multiplication of \<open>bignum.cc\<close>: \<open>MultiplyByUInt32\<close>, \<open>MultiplyByUInt64\<close>, \<open>Times10\<close>,
  \<open>MultiplyByPowerOfTen\<close>, \<open>Square\<close> and \<open>AssignPowerUInt16\<close>.  The 64 bit carries and
  accumulators are shown never to wrap, and the capacity that each operation needs is a hypothesis
  on the size of the result.
\<close>

section \<open>Multiplication by a machine integer\<close>

definition MultiplyByUInt32_digit :: "u32 \<Rightarrow> nat \<Rightarrow> u64 \<times> u32 list \<Rightarrow> (u64 \<times> u32 list) option" where
  "MultiplyByUInt32_digit factor i = (\<lambda>(carry, bs). do {
     x \<leftarrow> rd bs i;
     let product = ucast factor * ucast x + carry;
     bs \<leftarrow> wr bs i (ucast (product AND ucast kBigitMask));
     Some (drop_bit kBigitSize product, bs) })"

text \<open>The loop that both methods end with: it appends the carry.\<close>

definition Multiply_carry :: "u64 \<times> nat \<times> u32 list \<Rightarrow> (u64 \<times> nat \<times> u32 list) option" where
  "Multiply_carry = (\<lambda>(carry, used, bs). do {
     EnsureCapacity (used + 1);
     bs \<leftarrow> wr bs used (ucast (carry AND ucast kBigitMask));
     Some (drop_bit kBigitSize carry, used + 1, bs) })"

definition MultiplyByUInt32 :: "bignum \<Rightarrow> u32 \<Rightarrow> bignum option" where
  "MultiplyByUInt32 b factor =
    (if factor = 1 then Some b
     else if factor = 0 then Zero b
     else if used_digits b = 0 then Some b
     else do {
       ASSERT (kBigitSize + 32 + 1 \<le> kDoubleChunkSize);
       (carry, bs) \<leftarrow> for_up 0 (used_digits b) (MultiplyByUInt32_digit factor) (0, bigits b);
       (carry, used, bs) \<leftarrow> while_opt (\<lambda>(carry, used, bs). carry \<noteq> 0) Multiply_carry
                               (carry, used_digits b, bs);
       Some (b\<lparr>bigits := bs, used_digits := used\<rparr>) })"

definition MultiplyByUInt64_digit :: "u64 \<Rightarrow> u64 \<Rightarrow> nat \<Rightarrow> u64 \<times> u32 list \<Rightarrow> (u64 \<times> u32 list) option" where
  "MultiplyByUInt64_digit low high i = (\<lambda>(carry, bs). do {
     x \<leftarrow> rd bs i;
     let product_low = low * ucast x;
     let product_high = high * ucast x;
     let tmp = (carry AND ucast kBigitMask) + product_low;
     bs \<leftarrow> wr bs i (ucast (tmp AND ucast kBigitMask));
     Some (drop_bit kBigitSize carry + drop_bit kBigitSize tmp + push_bit (32 - kBigitSize) product_high, bs) })"

definition MultiplyByUInt64 :: "bignum \<Rightarrow> u64 \<Rightarrow> bignum option" where
  "MultiplyByUInt64 b factor =
    (if factor = 1 then Some b
     else if factor = 0 then Zero b
     else do {
       ASSERT (kBigitSize < 32);
       let low = factor AND 0xFFFFFFFF;
       let high = drop_bit 32 factor;
       (carry, bs) \<leftarrow> for_up 0 (used_digits b) (MultiplyByUInt64_digit low high) (0, bigits b);
       (carry, used, bs) \<leftarrow> while_opt (\<lambda>(carry, used, bs). carry \<noteq> 0) Multiply_carry
                               (carry, used_digits b, bs);
       Some (b\<lparr>bigits := bs, used_digits := used\<rparr>) })"

definition Times10 :: "bignum \<Rightarrow> bignum option" where
  "Times10 b = MultiplyByUInt32 b 10"

section \<open>Powers of ten\<close>

definition kFive27 :: u64 where "kFive27 = 0x6765c793fa10079d"
definition kFive13 :: u32 where "kFive13 = 1220703125"

definition kFive1_to_12 :: "u32 list" where
  "kFive1_to_12 = [5, 25, 125, 625, 3125, 15625, 78125, 390625, 1953125, 9765625, 48828125, 244140625]"

definition MultiplyByPowerOfTen :: "bignum \<Rightarrow> nat \<Rightarrow> bignum option" where
  "MultiplyByPowerOfTen b pow =
    (if pow = 0 then Some b
     else if used_digits b = 0 then Some b
     else do {
       (remaining, b) \<leftarrow> while_opt (\<lambda>(remaining, b). 27 \<le> remaining)
         (\<lambda>(remaining, b). do { b \<leftarrow> MultiplyByUInt64 b kFive27; Some (remaining - 27, b) }) (pow, b);
       (remaining, b) \<leftarrow> while_opt (\<lambda>(remaining, b). 13 \<le> remaining)
         (\<lambda>(remaining, b). do { b \<leftarrow> MultiplyByUInt32 b kFive13; Some (remaining - 13, b) }) (remaining, b);
       b \<leftarrow> (if 0 < remaining then do { f \<leftarrow> rd kFive1_to_12 (remaining - 1); MultiplyByUInt32 b f } else Some b);
       ShiftLeft b pow })"

section \<open>The loops\<close>

text \<open>The invariant of the digit loop of a multiplication by \<open>F\<close>.\<close>

definition mult_inv :: "u32 list \<Rightarrow> nat \<Rightarrow> nat \<Rightarrow> nat \<Rightarrow> u64 \<times> u32 list \<Rightarrow> bool" where
  "mult_inv orig n F p = (\<lambda>(c, bs). bigits_ok bs n \<and> unat c \<le> F \<and>
     (\<forall>i. p \<le> i \<and> i < 128 \<longrightarrow> bs ! i = orig ! i) \<and> dv bs p + unat c * B28 ^ p = F * dv orig p)"

lemma mult_inv_step:
  assumes inv: "mult_inv orig n F p (c, bs)" and p: "p < n"
    and low: "unat low < B28"
    and eq: "unat low + B28 * unat c' = F * unat (bs ! p) + unat c"
  shows "mult_inv orig n F (Suc p) (c', bs[p := low])"
proof -
  have bs: "length bs = 128" "n \<le> 128" "p < 128" "bs ! p = orig ! p" "unat (bs ! p) < B28"
    using inv p by (auto simp: mult_inv_def bigits_ok_def)
  have "B28 * unat c' \<le> F * unat (bs ! p) + F"
    using eq inv by (simp add: mult_inv_def)
  also have "\<dots> = F * Suc (unat (bs ! p))"
    by simp
  also have "\<dots> \<le> F * B28"
    using bs(5) by (intro mult_le_mono2) simp
  finally have c': "unat c' \<le> F"
    by simp
  have "dv (bs[p := low]) (Suc p) + unat c' * B28 ^ Suc p = dv bs p + (unat low + B28 * unat c') * B28 ^ p"
    using bs(1,3) by (simp add: dv_Suc algebra_simps)
  also have "\<dots> = F * dv orig (Suc p)"
    using inv unfolding eq by (simp add: mult_inv_def dv_Suc algebra_simps bs(4))
  finally show ?thesis
    using inv low p c' by (auto simp: mult_inv_def bigits_ok_def nth_list_update)
qed

text \<open>The loop that appends the carry, which ends before the capacity does.\<close>

lemma Multiply_carry_wp:
  assumes "bigits_ok bs0 n" and total: "dv bs0 n + unat c0 * B28 ^ n = V" and "V < B28 ^ 128"
  shows "wp (while_opt (\<lambda>(carry, used, bs). carry \<noteq> 0) Multiply_carry (c0, n, bs0))
    (\<lambda>(c, used, bs). c = 0 \<and> bigits_ok bs used \<and> dv bs used = V \<and> n \<le> used \<and> (n < used \<longrightarrow> B28 ^ (used - 1) \<le> V))"
proof (rule while_opt_rule [where I = "\<lambda>(c, used, bs). bigits_ok bs used \<and> dv bs used + unat c * B28 ^ used = V \<and>
      n \<le> used \<and> (n < used \<longrightarrow> B28 ^ (used - 1) \<le> V)" and m = "\<lambda>(c, used, bs). unat c"])
  fix t :: "u64 \<times> nat \<times> u32 list"
  assume I: "case t of (c, used, bs) \<Rightarrow> bigits_ok bs used \<and> dv bs used + unat c * B28 ^ used = V \<and>
      n \<le> used \<and> (n < used \<longrightarrow> B28 ^ (used - 1) \<le> V)"
    and nz: "case t of (c, used, bs) \<Rightarrow> c \<noteq> 0"
  obtain c used bs where t: "t = (c, used, bs)" by (cases t) auto
  have c: "0 < unat c"
    using nz by (simp add: t unat_eq_zero)
  then have "1 * B28 ^ used \<le> unat c * B28 ^ used"
    by (intro mult_le_mono1) simp
  moreover have "dv bs used + unat c * B28 ^ used = V"
    using I by (simp add: t)
  ultimately have le: "B28 ^ used \<le> V"
    by linarith
  then have "B28 ^ used < B28 ^ 128"
    using assms(3) by (rule le_less_trans)
  then have used: "used < 128"
    by (rule power_less_imp_less_exp [rotated]) simp
  let ?low = "ucast (c AND 0xFFFFFFF) :: u32"
  have low: "unat ?low = unat c mod B28"
    unfolding unat_u64_u32 unat_and28 by (subst mod_pow_mod) simp_all
  have eq: "unat c = unat ?low + B28 * unat (drop_bit 28 c)"
    by (simp add: low nat_words)
  have "dv bs used + (unat ?low + B28 * unat (drop_bit 28 c)) * B28 ^ used = V"
    using I unfolding eq [symmetric] by (simp add: t)
  then have "dv (bs[used := ?low]) (Suc used) + unat (drop_bit 28 c) * B28 ^ Suc used = V"
    using used I by (simp add: t dv_Suc bigits_ok_def algebra_simps)
  moreover have "bigits_ok (bs[used := ?low]) (Suc used)"
    using I used by (auto simp: t bigits_ok_def nth_list_update low less_Suc_eq)
  moreover have "unat c div B28 < unat c"
    using c by simp
  ultimately show "wp (Multiply_carry t) (\<lambda>u. (case u of (c, used, bs) \<Rightarrow> bigits_ok bs used \<and> dv bs used + unat c * B28 ^ used = V \<and>
      n \<le> used \<and> (n < used \<longrightarrow> B28 ^ (used - 1) \<le> V)) \<and>
      (case u of (c, used, bs) \<Rightarrow> unat c) < (case t of (c, used, bs) \<Rightarrow> unat c))"
    using I used le by (simp add: t Multiply_carry_def wp_simps bigits_ok_def nat_words)
qed (use assms in auto)

lemma Multiply_finish_wp:
  assumes ok: "bignum_ok b" and "0 < F" and inv: "mult_inv (bigits b) (used_digits b) F (used_digits b) (c, bs)"
    and fits: "F * dv (bigits b) (used_digits b) < B28 ^ 128"
  shows "wp (do { (carry, used, bs) \<leftarrow> while_opt (\<lambda>(carry, used, bs). carry \<noteq> 0) Multiply_carry (c, used_digits b, bs);
       Some (b\<lparr>bigits := bs, used_digits := used\<rparr>) })
    (\<lambda>r. bignum_ok r \<and> bvalue r = F * bvalue b \<and> exponent r = exponent b)"
proof -
  let ?n = "used_digits b" and ?V = "F * dv (bigits b) (used_digits b)"
  have "bigits_ok bs ?n" "dv bs ?n + unat c * B28 ^ ?n = ?V"
    using inv by (simp_all add: mult_inv_def)
  from Multiply_carry_wp [OF this fits] obtain used rs where
    w: "while_opt (\<lambda>(carry, used, bs). carry \<noteq> 0) Multiply_carry (c, ?n, bs) = Some (0, used, rs)"
      "bigits_ok rs used" "dv rs used = ?V" "?n \<le> used" "?n < used \<longrightarrow> B28 ^ (used - 1) \<le> ?V"
    by (auto elim!: wpE)
  have ge: "B28 ^ (used - 1) \<le> ?V" if "used \<noteq> 0"
  proof (cases "?n < used")
    case False
    then have "used = ?n"
      using w(4) by simp
    with that have "B28 ^ (used - 1) \<le> dv (bigits b) ?n"
      using ok by (intro dv_ge) (auto simp: bignum_ok_def)
    also have "\<dots> \<le> ?V"
      using \<open>0 < F\<close> by simp
    finally show ?thesis .
  qed (use w(5) in simp)
  have "exponent b = 0" if "used = 0"
    using that w(4) ok by (simp add: bignum_ok_def)
  then have "bignum_ok (b\<lparr>bigits := rs, used_digits := used\<rparr>)"
    using w(2,3) ge by (intro bignum_okI) simp_all
  then show ?thesis
    using w(1,3) by (simp add: bvalue_def)
qed

text \<open>One digit of each method; \<open>c\<close> never exceeds the factor, so nothing wraps.\<close>

lemma mult32_step:
  fixes x F :: u32 and c :: u64
  assumes "unat x < B28" and "unat c \<le> unat F"
  defines "product \<equiv> ucast F * ucast x + c"
  shows "unat (ucast (product AND 0xFFFFFFF) :: u32) + B28 * unat (drop_bit 28 product) = unat F * unat x + unat c"
    and "unat (ucast (product AND 0xFFFFFFF) :: u32) < B28"
proof -
  have "unat F * unat x \<le> 4294967295 * B28"
    using assms(1) unat_lt32 [of F] by (intro mult_le_mono) (simp_all del: unat_lt32)
  then have "unat product = unat F * unat x + unat c"
    unfolding product_def using assms(2) unat_lt32 [of F]
    by (subst unat_plus; simp add: unat_times nat_words del: unat_lt32)
  moreover have low: "unat (ucast (product AND 0xFFFFFFF) :: u32) = unat product mod B28"
    unfolding unat_u64_u32 unat_and28 by (subst mod_pow_mod) simp_all
  ultimately show "unat (ucast (product AND 0xFFFFFFF) :: u32) + B28 * unat (drop_bit 28 product) = unat F * unat x + unat c"
    by (simp add: nat_words)
  show "unat (ucast (product AND 0xFFFFFFF) :: u32) < B28"
    by (simp add: low)
qed

lemma mult64_step:
  fixes x :: u32 and c F :: u64
  assumes x: "unat x < B28" and c: "unat c \<le> unat F"
  defines "tmp \<equiv> (c AND 0xFFFFFFF) + (F AND 0xFFFFFFFF) * ucast x"
  defines "c' \<equiv> drop_bit 28 c + drop_bit 28 tmp + push_bit 4 (drop_bit 32 F * ucast x)"
  shows "unat (ucast (tmp AND 0xFFFFFFF) :: u32) + B28 * unat c' = unat F * unat x + unat c"
    and "unat (ucast (tmp AND 0xFFFFFFF) :: u32) < B28"
proof -
  let ?l = "unat F mod 4294967296" and ?h = "unat F div 4294967296"
  have F: "unat F = ?l + 4294967296 * ?h"
    by simp
  have lh: "?l < 4294967296" "?h < 4294967296"
    using unat_lt64 [of F] by (simp_all add: less_mult_imp_div_less del: unat_lt64)
  have lx: "?l * unat x \<le> 4294967295 * B28"
    by (rule mult_le_mono; use lh x in linarith)
  have hx: "?h * unat x \<le> 4294967295 * B28"
    by (rule mult_le_mono; use lh x in linarith)
  then have tmp: "unat tmp = unat c mod B28 + ?l * unat x"
    unfolding tmp_def using lx by (subst unat_plus; simp add: unat_times nat_words)
  have low: "unat (ucast (tmp AND 0xFFFFFFF) :: u32) = unat tmp mod B28"
    unfolding unat_u64_u32 unat_and28 by (subst mod_pow_mod) simp_all
  then show "unat (ucast (tmp AND 0xFFFFFFF) :: u32) < B28"
    by simp
  have total: "unat tmp mod B28 + B28 * (unat c div B28 + unat tmp div B28 + ?h * unat x * 16) = unat F * unat x + unat c"
  proof -
    define q r where "q = unat c div B28" and "r = unat c mod B28"
    define q' r' where "q' = unat tmp div B28" and "r' = unat tmp mod B28"
    define l h where "l = ?l" and "h = ?h"
    have "unat c = r + B28 * q" "unat tmp = r' + B28 * q'" "unat tmp = r + l * unat x" "unat F = l + 4294967296 * h"
      by (simp_all add: q_def r_def q'_def r'_def l_def h_def tmp)
    then show ?thesis
      unfolding q_def [symmetric] r_def [symmetric] q'_def [symmetric] r'_def [symmetric] h_def [symmetric]
      by (simp add: algebra_simps)
  qed
  then have "B28 * (unat c div B28 + unat tmp div B28 + ?h * unat x * 16) \<le> unat F * Suc (unat x)"
    using c by simp
  also have "\<dots> \<le> unat F * B28"
    using x by (intro mult_le_mono2) simp
  finally have "unat c div B28 + unat tmp div B28 + ?h * unat x * 16 \<le> unat F"
    by simp
  then have le: "unat c div B28 + unat tmp div B28 + ?h * unat x * 16 < 2 ^ 64"
    using unat_lt64 [of F] by (simp del: unat_lt64)
  have "unat (drop_bit 32 F * ucast x) = ?h * unat x"
    using hx by (subst unat_times) (simp_all add: nat_words)
  then have "unat (push_bit 4 (drop_bit 32 F * ucast x)) = ?h * unat x * 16"
    using hx by (subst unat_push) (simp_all add: mult.commute)
  moreover have "unat (drop_bit 28 c + drop_bit 28 tmp) = unat c div B28 + unat tmp div B28"
    using le by (subst unat_plus) (simp_all add: nat_words)
  ultimately have "unat c' = unat c div B28 + unat tmp div B28 + ?h * unat x * 16"
    unfolding c'_def using le by (subst unat_plus) simp_all
  then show "unat (ucast (tmp AND 0xFFFFFFF) :: u32) + B28 * unat c' = unat F * unat x + unat c"
    using total by (simp add: low)
qed

lemma mult_inv_start: "bigits_ok orig n \<Longrightarrow> mult_inv orig n F 0 (0, orig)"
  by (simp add: mult_inv_def)

lemma MultiplyByUInt32_digits_wp:
  assumes "bigits_ok orig n"
  shows "wp (for_up 0 n (MultiplyByUInt32_digit factor) (0, orig)) (mult_inv orig n (unat factor) n)"
proof (rule for_up_rule [where I = "mult_inv orig n (unat factor)"])
  fix j and t :: "u64 \<times> u32 list"
  assume j: "j < n" and I: "mult_inv orig n (unat factor) j t"
  obtain c bs where t: "t = (c, bs)" by (cases t) auto
  have bs: "length bs = 128" "j < 128" "unat (bs ! j) < B28" "unat c \<le> unat factor"
    using I j by (auto simp: t mult_inv_def bigits_ok_def)
  note step = mult32_step [OF bs(3,4)]
  from mult_inv_step [OF I [unfolded t] j step(2,1)] bs
  show "wp (MultiplyByUInt32_digit factor j t) (mult_inv orig n (unat factor) (Suc j))"
    by (simp add: t MultiplyByUInt32_digit_def wp_simps)
qed (use assms in \<open>auto simp: mult_inv_start\<close>)

lemma MultiplyByUInt64_digits_wp:
  assumes "bigits_ok orig n"
  shows "wp (for_up 0 n (MultiplyByUInt64_digit (factor AND 0xFFFFFFFF) (drop_bit 32 factor)) (0, orig))
    (mult_inv orig n (unat factor) n)"
proof (rule for_up_rule [where I = "mult_inv orig n (unat factor)"])
  fix j and t :: "u64 \<times> u32 list"
  assume j: "j < n" and I: "mult_inv orig n (unat factor) j t"
  obtain c bs where t: "t = (c, bs)" by (cases t) auto
  have bs: "length bs = 128" "j < 128" "unat (bs ! j) < B28" "unat c \<le> unat factor"
    using I j by (auto simp: t mult_inv_def bigits_ok_def)
  note step = mult64_step [OF bs(3,4)]
  from mult_inv_step [OF I [unfolded t] j step(2,1)] bs
  show "wp (MultiplyByUInt64_digit (factor AND 0xFFFFFFFF) (drop_bit 32 factor) j t) (mult_inv orig n (unat factor) (Suc j))"
    by (simp add: t MultiplyByUInt64_digit_def wp_simps)
qed (use assms in \<open>auto simp: mult_inv_start\<close>)

section \<open>The methods\<close>

lemma MultiplyByUInt32_wp:
  assumes ok: "bignum_ok b" and fits: "unat factor * bsig b < B28 ^ 128"
  shows "wp (MultiplyByUInt32 b factor) (\<lambda>r. bignum_ok r \<and> bvalue r = unat factor * bvalue b \<and>
    (factor \<noteq> 0 \<longrightarrow> exponent r = exponent b))"
proof -
  consider "factor = 1" | "factor = 0" | "factor \<noteq> 1" "factor \<noteq> 0" "used_digits b = 0"
    | "factor \<noteq> 1" "factor \<noteq> 0" "used_digits b \<noteq> 0"
    by blast
  then show ?thesis
  proof cases
    case 4
    have bok: "bigits_ok (bigits b) (used_digits b)"
      using ok by (simp add: bignum_ok_def bignum_rep_def)
    obtain c bs where 1: "for_up 0 (used_digits b) (MultiplyByUInt32_digit factor) (0, bigits b) = Some (c, bs)"
        "mult_inv (bigits b) (used_digits b) (unat factor) (used_digits b) (c, bs)"
      using MultiplyByUInt32_digits_wp [OF bok, of factor] by (rule wp_pairE)
    have "0 < unat factor"
      using 4 by (simp add: unat_eq_zero)
    from Multiply_finish_wp [OF ok this 1(2) fits] 4 show ?thesis
      by (auto simp: MultiplyByUInt32_def 1(1) wp_simps ASSERT_def elim!: wp_mono)
  qed (use ok Zero_wp [of b] in \<open>auto simp: MultiplyByUInt32_def bvalue_def elim!: wp_mono\<close>)
qed

lemma MultiplyByUInt64_wp:
  assumes ok: "bignum_ok b" and fits: "unat factor * bsig b < B28 ^ 128"
  shows "wp (MultiplyByUInt64 b factor) (\<lambda>r. bignum_ok r \<and> bvalue r = unat factor * bvalue b \<and>
    (factor \<noteq> 0 \<longrightarrow> exponent r = exponent b))"
proof -
  consider "factor = 1" | "factor = 0" | "factor \<noteq> 1" "factor \<noteq> 0"
    by blast
  then show ?thesis
  proof cases
    case 3
    have bok: "bigits_ok (bigits b) (used_digits b)"
      using ok by (simp add: bignum_ok_def bignum_rep_def)
    obtain c bs where 1: "for_up 0 (used_digits b)
          (MultiplyByUInt64_digit (factor AND 0xFFFFFFFF) (drop_bit 32 factor)) (0, bigits b) = Some (c, bs)"
        "mult_inv (bigits b) (used_digits b) (unat factor) (used_digits b) (c, bs)"
      using MultiplyByUInt64_digits_wp [OF bok, of factor] by (rule wp_pairE)
    have "0 < unat factor"
      using 3 by (simp add: unat_eq_zero)
    from Multiply_finish_wp [OF ok this 1(2) fits] 3 show ?thesis
      by (auto simp: MultiplyByUInt64_def 1(1) wp_simps ASSERT_def Let_def elim!: wp_mono)
  qed (use ok Zero_wp [of b] in \<open>auto simp: MultiplyByUInt64_def bvalue_def elim!: wp_mono\<close>)
qed

lemma Times10_wp:
  assumes "bignum_ok b" and "10 * bsig b < B28 ^ 128"
  shows "wp (Times10 b) (\<lambda>r. bignum_ok r \<and> bvalue r = 10 * bvalue b \<and> exponent r = exponent b)"
  using MultiplyByUInt32_wp [of b 10] assms by (auto simp: Times10_def elim!: wp_mono)

lemma bsig_eq_iff: "exponent a = exponent b \<Longrightarrow> bvalue a = k * bvalue b \<longleftrightarrow> bsig a = k * bsig b"
  by (simp add: bvalue_def mult.assoc [symmetric])

lemma used_digits_le:
  assumes "bignum_ok b" and "bsig b < B28 ^ n"
  shows "used_digits b \<le> n"
proof (cases "used_digits b = 0")
  case False
  then obtain m where m: "used_digits b = Suc m"
    using not0_implies_Suc by blast
  have "B28 ^ m \<le> bsig b"
    unfolding m by (rule dv_ge) (use assms(1) m in \<open>auto simp: bignum_ok_def\<close>)
  then have "B28 ^ m < B28 ^ n"
    using assms(2) by (rule le_less_trans)
  then show ?thesis
    using m by (simp add: Suc_leI power_less_imp_less_exp)
qed simp

lemma kFive_nat: "unat kFive27 = 5 ^ 27" "unat kFive13 = 5 ^ 13"
  by (simp_all add: kFive27_def kFive13_def)

lemma kFive1_to_12_nth:
  assumes "i < 12"
  shows "unat (kFive1_to_12 ! i) = 5 ^ Suc i"
proof -
  have "map unat kFive1_to_12 = map (\<lambda>i. 5 ^ Suc i) [0..<12]"
    by (simp add: kFive1_to_12_def upt_rec)
  then have "map unat kFive1_to_12 ! i = map (\<lambda>i. 5 ^ Suc i) [0..<12] ! i"
    by simp
  moreover have "length kFive1_to_12 = 12"
    by (simp add: kFive1_to_12_def)
  ultimately show ?thesis
    using assms by (simp del: power_Suc)
qed

text \<open>The state of the three steps that multiply by powers of five, \<open>n\<close> of them still to come.\<close>

definition five_inv :: "bignum \<Rightarrow> nat \<Rightarrow> nat \<times> bignum \<Rightarrow> bool" where
  "five_inv b pow = (\<lambda>(n, r). bignum_ok r \<and> n \<le> pow \<and> exponent r = exponent b \<and> bsig r = 5 ^ (pow - n) * bsig b)"

lemma five_inv_room:
  assumes "five_inv b pow (n, r)" and "5 ^ pow * bsig b < B28 ^ 127" and "k \<le> n"
  shows "5 ^ k * bsig r < B28 ^ 128"
proof -
  have "5 ^ k * bsig r = 5 ^ (k + (pow - n)) * bsig b"
    using assms(1) by (simp only: five_inv_def power_add prod.case mult.assoc)
  also have "\<dots> \<le> 5 ^ pow * bsig b"
    using assms(1,3) by (intro mult_le_mono1 power_increasing) (auto simp: five_inv_def)
  also have "\<dots> < B28 ^ 128"
    using assms(2) by (rule pow28_less) simp
  finally show ?thesis .
qed

lemma five_inv_step:
  assumes inv: "five_inv b pow (n, r)" and "bignum_ok r'" and "bvalue r' = 5 ^ k * bvalue r"
    and "exponent r' = exponent r" and "k \<le> n"
  shows "five_inv b pow (n - k, r')"
proof -
  have "bsig r' = 5 ^ k * bsig r"
    using assms(3,4) by (simp add: bsig_eq_iff)
  also have "\<dots> = 5 ^ (k + (pow - n)) * bsig b"
    using inv by (simp only: five_inv_def power_add prod.case mult.assoc)
  also have "k + (pow - n) = pow - (n - k)"
    using inv assms(5) by (simp add: five_inv_def)
  finally show ?thesis
    using inv assms(2,4) by (auto simp: five_inv_def)
qed

lemma five_loop_wp:
  assumes start: "five_inv b pow t" and fits: "5 ^ pow * bsig b < B28 ^ 127" and "0 < k"
    and body: "\<And>r. bignum_ok r \<Longrightarrow> 5 ^ k * bsig r < B28 ^ 128 \<Longrightarrow>
      wp (f r) (\<lambda>r'. bignum_ok r' \<and> bvalue r' = 5 ^ k * bvalue r \<and> exponent r' = exponent r)"
  shows "wp (while_opt (\<lambda>(remaining, b). k \<le> remaining)
      (\<lambda>(remaining, b). do { b \<leftarrow> f b; Some (remaining - k, b) }) t)
    (\<lambda>t. five_inv b pow t \<and> fst t < k)"
proof (rule while_opt_rule [where I = "five_inv b pow" and m = fst])
  fix t :: "nat \<times> bignum"
  assume I: "five_inv b pow t" and c: "case t of (remaining, b) \<Rightarrow> k \<le> remaining"
  obtain n r where t: "t = (n, r)" by (cases t) auto
  have k: "k \<le> n" and "bignum_ok r"
    using I c by (simp_all add: t five_inv_def)
  from body [OF this(2) five_inv_room [OF I [unfolded t] fits k]] k assms(3) five_inv_step [OF I [unfolded t] _ _ _ k]
  show "wp (case t of (remaining, b) \<Rightarrow> do { b \<leftarrow> f b; Some (remaining - k, b) })
      (\<lambda>u. five_inv b pow u \<and> fst u < fst t)"
    by (auto simp: t wp_simps elim!: wp_mono)
qed (use start in auto)

lemma MultiplyByPowerOfTen_wp:
  assumes ok: "bignum_ok b" and fits: "5 ^ pow * bsig b < B28 ^ 127"
  shows "wp (MultiplyByPowerOfTen b pow) (\<lambda>r. bignum_ok r \<and> bvalue r = 10 ^ pow * bvalue b \<and>
    (used_digits b \<noteq> 0 \<longrightarrow> exponent r = exponent b + pow div 28))"
proof -
  consider "pow = 0" | "pow \<noteq> 0" "used_digits b = 0" | "pow \<noteq> 0" "used_digits b \<noteq> 0"
    by blast
  then show ?thesis
  proof cases
    case 3
    have start: "five_inv b pow (pow, b)"
      using ok by (simp add: five_inv_def)
    have m27: "wp (MultiplyByUInt64 r kFive27) (\<lambda>r'. bignum_ok r' \<and> bvalue r' = 5 ^ 27 * bvalue r \<and> exponent r' = exponent r)"
      if "bignum_ok r" "5 ^ 27 * bsig r < B28 ^ 128" for r
      using MultiplyByUInt64_wp [of r kFive27, unfolded kFive_nat] that by (auto simp: kFive27_def elim!: wp_mono)
    have m13: "wp (MultiplyByUInt32 r kFive13) (\<lambda>r'. bignum_ok r' \<and> bvalue r' = 5 ^ 13 * bvalue r \<and> exponent r' = exponent r)"
      if "bignum_ok r" "5 ^ 13 * bsig r < B28 ^ 128" for r
      using MultiplyByUInt32_wp [of r kFive13, unfolded kFive_nat] that by (auto simp: kFive13_def elim!: wp_mono)
    obtain n1 r1 where 1: "while_opt (\<lambda>(remaining, b). 27 \<le> remaining)
         (\<lambda>(remaining, b). do { b \<leftarrow> MultiplyByUInt64 b kFive27; Some (remaining - 27, b) }) (pow, b) = Some (n1, r1)"
        "five_inv b pow (n1, r1)"
      using five_loop_wp [OF start fits _ m27] by (auto elim!: wpE)
    obtain n2 r2 where 2: "while_opt (\<lambda>(remaining, b). 13 \<le> remaining)
         (\<lambda>(remaining, b). do { b \<leftarrow> MultiplyByUInt32 b kFive13; Some (remaining - 13, b) }) (n1, r1) = Some (n2, r2)"
        "five_inv b pow (n2, r2)" "n2 < 13"
      using five_loop_wp [OF 1(2) fits _ m13] by (auto elim!: wpE)
    have "wp (if 0 < n2 then do { f \<leftarrow> rd kFive1_to_12 (n2 - 1); MultiplyByUInt32 r2 f } else Some r2)
        (\<lambda>r3. five_inv b pow (0, r3))"
    proof (cases "n2 = 0")
      case False
      define f where "f = kFive1_to_12 ! (n2 - 1)"
      have f: "unat f = 5 ^ n2" "f \<noteq> 0"
        using kFive1_to_12_nth [of "n2 - 1"] False 2(3) by (auto simp: f_def unat_eq_zero)
      have "wp (MultiplyByUInt32 r2 f) (\<lambda>r. bignum_ok r \<and> bvalue r = unat f * bvalue r2 \<and>
          (f \<noteq> 0 \<longrightarrow> exponent r = exponent r2))"
        using 2(2) five_inv_room [OF 2(2) fits order_refl] by (intro MultiplyByUInt32_wp) (simp_all add: f five_inv_def)
      moreover have "length kFive1_to_12 = 12"
        by (simp add: kFive1_to_12_def)
      ultimately show ?thesis
        using False 2(3) f five_inv_step [OF 2(2) _ _ _ order_refl] by (auto simp: wp_simps f_def elim!: wp_mono)
    qed (use 2 in simp)
    then obtain r3 where 3: "(if 0 < n2 then do { f \<leftarrow> rd kFive1_to_12 (n2 - 1); MultiplyByUInt32 r2 f } else Some r2) = Some r3"
        "five_inv b pow (0, r3)"
      by (rule wpE)
    have r3: "bignum_ok r3" "bsig r3 = 5 ^ pow * bsig b" "exponent r3 = exponent b"
      using 3(2) by (simp_all add: five_inv_def)
    have "used_digits r3 \<le> 127"
      by (rule used_digits_le) (use r3 fits in simp_all)
    then have "wp (ShiftLeft r3 pow) (\<lambda>r. bignum_ok r \<and> bvalue r = bvalue r3 * 2 ^ pow \<and>
        used_digits r \<le> used_digits r3 + 1 \<and> (used_digits r3 \<noteq> 0 \<longrightarrow> exponent r = exponent r3 + pow div 28))"
      using r3 by (intro ShiftLeft_wp) simp_all
    moreover have "bvalue r3 * 2 ^ pow = 10 ^ pow * bvalue b"
      using r3(2,3) power_mult_distrib [of "5 :: nat" 2 pow] by (simp add: bvalue_def)
    moreover have "used_digits r3 \<noteq> 0"
    proof
      assume "used_digits r3 = 0"
      then have "bvalue b = 0"
        using r3(2) by (simp add: bvalue_def)
      then show False
        using ok \<open>used_digits b \<noteq> 0\<close> by (simp add: bvalue_zero_iff)
    qed
    ultimately show ?thesis
      using \<open>pow \<noteq> 0\<close> \<open>used_digits b \<noteq> 0\<close> r3(3) by (auto simp: MultiplyByPowerOfTen_def 1(1) 2(1) 3(1) elim!: wp_mono)
  qed (use ok in \<open>simp_all add: MultiplyByPowerOfTen_def bvalue_def\<close>)
qed

end
