(* ===== verification/Bignum_Square.thy ===== *)
theory Bignum_Square
  imports Bignum_Multiply
begin

unbundle bit_operations_syntax

text \<open>
  \<open>Square\<close> and \<open>AssignPowerUInt16\<close> of \<open>bignum.cc\<close>.  \<open>Square\<close> is Comba's column method in place: the
  digits are copied above themselves and the result overwrites the copy from below, a digit only
  after its last use.  \<open>AssignPowerUInt16\<close> is left to right binary exponentiation, first in 64 bits
  and, once the value may not fit any more, as a \<open>Bignum\<close>.
\<close>

section \<open>Square\<close>

text \<open>One product of column \<open>i\<close>; the two indices always add up to \<open>i\<close>.\<close>

definition Square_product :: "u32 list \<Rightarrow> nat \<Rightarrow> nat \<Rightarrow> nat \<Rightarrow> u64 \<Rightarrow> u64 option" where
  "Square_product bs copy_offset i bigit_index2 accumulator = do {
     let bigit_index1 = i - bigit_index2;
     chunk1 \<leftarrow> rd bs (copy_offset + bigit_index1);
     chunk2 \<leftarrow> rd bs (copy_offset + bigit_index2);
     Some (accumulator + ucast chunk1 * ucast chunk2) }"

definition Square_column :: "nat \<Rightarrow> nat \<Rightarrow> nat \<Rightarrow> nat \<Rightarrow> u64 \<times> u32 list \<Rightarrow> (u64 \<times> u32 list) option" where
  "Square_column copy_offset lo hi i = (\<lambda>(accumulator, bs). do {
     accumulator \<leftarrow> for_up lo hi (Square_product bs copy_offset i) accumulator;
     bs \<leftarrow> wr bs i (ucast accumulator AND kBigitMask);
     Some (drop_bit kBigitSize accumulator, bs) })"

definition Square :: "bignum \<Rightarrow> bignum option" where
  "Square b = do {
     ASSERT_IsClamped b;
     let n = used_digits b;
     let product_length = 2 * n;
     EnsureCapacity product_length;
     if 2 ^ (2 * (kChunkSize - kBigitSize)) \<le> n then None else do {
       let copy_offset = n;
       bs \<leftarrow> for_up 0 n (\<lambda>i bs. do { x \<leftarrow> rd bs i; wr bs (copy_offset + i) x }) (bigits b);
       s \<leftarrow> for_up 0 n (\<lambda>i. Square_column copy_offset 0 (i + 1) i) (0, bs);
       (accumulator, bs) \<leftarrow> for_up n product_length
         (\<lambda>i. Square_column copy_offset (i - (n - 1)) n i) s;
       ASSERT (accumulator = 0);
       Clamp (b\<lparr>bigits := bs, used_digits := product_length, exponent := exponent b * 2\<rparr>) } }"

section \<open>The columns of a square\<close>

definition bigit_or_0 :: "u32 list \<Rightarrow> nat \<Rightarrow> nat \<Rightarrow> nat" where
  "bigit_or_0 a n j = (if j < n then unat (a ! j) else 0)"

definition column :: "u32 list \<Rightarrow> nat \<Rightarrow> nat \<Rightarrow> nat" where
  "column a n i = (\<Sum>j\<le>i. bigit_or_0 a n j * bigit_or_0 a n (i - j))"

lemma column_sum: "(\<Sum>i<2 * n. column a n i * B28 ^ i) = dv a n * dv a n"
proof -
  define f where "f j = bigit_or_0 a n j * B28 ^ j" for j
  have dv: "dv a n = (\<Sum>j<n. f j)"
    by (simp add: dv_def digits_val_def f_def bigit_or_0_def)
  have f0: "f j = 0" if "n \<le> j" for j
    using that by (simp add: f_def bigit_or_0_def)
  have "(\<Sum>i<2 * n. column a n i * B28 ^ i) = (\<Sum>i<2 * n. \<Sum>j\<le>i. f j * f (i - j))"
    by (simp add: column_def f_def sum_distrib_right mult.assoc mult.left_commute flip: power_add)
  also have "\<dots> = (\<Sum>(i, j)\<in>{(i, j). i + j < 2 * n}. f i * f j)"
    by (rule sum.triangle_reindex [symmetric])
  also have "\<dots> = (\<Sum>(i, j)\<in>{..<n} \<times> {..<n}. f i * f j)"
  proof (rule sum.mono_neutral_right)
    have "{(i, j). i + j < 2 * n} \<subseteq> {..<2 * n} \<times> {..<2 * n}"
      by auto
    then show "finite {(i, j). i + j < 2 * n}"
      by (rule finite_subset) simp
    show "{..<n} \<times> {..<n} \<subseteq> {(i, j). i + j < 2 * n}"
      by auto
    show "\<forall>x\<in>{(i, j). i + j < 2 * n} - {..<n} \<times> {..<n}. (case x of (i, j) \<Rightarrow> f i * f j) = 0"
    proof
      fix x
      assume x: "x \<in> {(i, j). i + j < 2 * n} - {..<n} \<times> {..<n}"
      obtain i j where ij: "x = (i, j)"
        by (cases x)
      with x have "n \<le> i \<or> n \<le> j"
        by auto
      then show "(case x of (i, j) \<Rightarrow> f i * f j) = 0"
        by (auto simp: ij f0)
    qed
  qed
  also have "\<dots> = dv a n * dv a n"
    by (simp add: dv sum_product sum.cartesian_product)
  finally show ?thesis .
qed

lemma column_eq_low: "i < n \<Longrightarrow> column a n i = (\<Sum>j\<in>{0..<i + 1}. unat (a ! j) * unat (a ! (i - j)))"
  unfolding column_def by (rule sum.cong) (auto simp: bigit_or_0_def)

lemma column_eq_high:
  assumes "n \<le> i"
  shows "column a n i = (\<Sum>j\<in>{i - (n - 1)..<n}. unat (a ! j) * unat (a ! (i - j)))"
proof -
  have "column a n i = (\<Sum>j\<in>{i - (n - 1)..<n}. bigit_or_0 a n j * bigit_or_0 a n (i - j))"
    unfolding column_def using assms
    by (intro sum.mono_neutral_right) (auto simp: bigit_or_0_def)
  also have "\<dots> = (\<Sum>j\<in>{i - (n - 1)..<n}. unat (a ! j) * unat (a ! (i - j)))"
    by (rule sum.cong) (use assms in \<open>auto simp: bigit_or_0_def\<close>)
  finally show ?thesis .
qed

text \<open>
  The invariant of the two loops over the columns, at column \<open>p\<close>: the copy of \<open>a\<close> is intact from
  index \<open>p\<close> on.  The accumulator never reaches 65 times the base between columns.
\<close>

definition square_inv :: "u32 list \<Rightarrow> nat \<Rightarrow> nat \<Rightarrow> u64 \<times> u32 list \<Rightarrow> bool" where
  "square_inv a n p = (\<lambda>(acc, bs). length bs = 128 \<and> (\<forall>i<128. unat (bs ! i) < B28) \<and>
     (\<forall>i. 2 * n \<le> i \<and> i < 128 \<longrightarrow> bs ! i = 0) \<and> (\<forall>k<n. p \<le> n + k \<longrightarrow> bs ! (n + k) = a ! k) \<and>
     unat acc \<le> 65 * B28 \<and> dv bs p + unat acc * B28 ^ p = (\<Sum>i<p. column a n i * B28 ^ i))"

lemma Square_products_wp:
  assumes "lo \<le> hi" and "hi \<le> n" and "hi \<le> lo + 64" and "hi \<le> i + 1" and "i < lo + n" and "n \<le> 64"
    and len: "length bs = 128" and copy: "\<forall>k<n. i + 1 - hi \<le> k \<or> lo \<le> k \<longrightarrow> bs ! (n + k) = a ! k"
    and small: "\<forall>k<n. unat (a ! k) < B28" and acc: "unat acc \<le> 65 * B28"
  shows "wp (for_up lo hi (Square_product bs n i) acc)
    (\<lambda>r. unat r = unat acc + (\<Sum>j\<in>{lo..<hi}. unat (a ! j) * unat (a ! (i - j))) \<and> unat r \<le> 65 * B28 * B28)"
proof (rule for_up_rule [where I = "\<lambda>j r. unat r = unat acc + (\<Sum>k\<in>{lo..<j}. unat (a ! k) * unat (a ! (i - k))) \<and>
    unat r \<le> 65 * B28 + (j - lo) * (B28 * B28)"])
  fix j and r :: u64
  assume j: "lo \<le> j" "j < hi" and I: "unat r = unat acc + (\<Sum>k\<in>{lo..<j}. unat (a ! k) * unat (a ! (i - k))) \<and>
    unat r \<le> 65 * B28 + (j - lo) * (B28 * B28)"
  have idx: "j < n" "i - j < n" "i + 1 - hi \<le> i - j"
    using j assms by simp_all
  have rd: "bs ! (n + j) = a ! j" "bs ! (n + (i - j)) = a ! (i - j)"
    using copy idx j by auto
  have "unat (a ! j) * unat (a ! (i - j)) \<le> B28 * B28"
    using small idx by (intro mult_le_mono) (simp_all add: less_imp_le)
  moreover have "(j - lo) * (B28 * B28) \<le> 63 * (B28 * B28)"
    using j assms(3) by (intro mult_le_mono1) simp
  moreover have prod: "unat (ucast (a ! (i - j)) * ucast (a ! j) :: u64) = unat (a ! j) * unat (a ! (i - j))"
    using calculation(1) by (subst unat_times) (simp_all add: nat_words mult.commute)
  ultimately have le: "unat r + unat (a ! j) * unat (a ! (i - j)) < 2 ^ 64"
    and "unat r + unat (a ! j) * unat (a ! (i - j)) \<le> 65 * B28 + (Suc j - lo) * (B28 * B28)"
    using I j by (simp_all add: Suc_diff_le)
  moreover have "unat (r + ucast (a ! (i - j)) * ucast (a ! j)) = unat r + unat (a ! j) * unat (a ! (i - j))"
    using le by (subst unat_plus) (simp_all add: prod)
  ultimately have "unat (r + ucast (a ! (i - j)) * ucast (a ! j)) = unat r + unat (a ! j) * unat (a ! (i - j))"
    and "unat r + unat (a ! j) * unat (a ! (i - j)) \<le> 65 * B28 + (Suc j - lo) * (B28 * B28)"
    by simp_all
  with I j idx rd len assms(6) show "wp (Square_product bs n i j r) (\<lambda>r. unat r = unat acc + (\<Sum>k\<in>{lo..<Suc j}. unat (a ! k) * unat (a ! (i - k))) \<and>
    unat r \<le> 65 * B28 + (Suc j - lo) * (B28 * B28))"
    by (simp add: Square_product_def wp_simps)
next
  fix r
  assume "unat r = unat acc + (\<Sum>k\<in>{lo..<hi}. unat (a ! k) * unat (a ! (i - k))) \<and>
    unat r \<le> 65 * B28 + (hi - lo) * (B28 * B28)"
  moreover have "(hi - lo) * (B28 * B28) \<le> 64 * (B28 * B28)"
    using assms(3) by (intro mult_le_mono1) simp
  ultimately show "unat r = unat acc + (\<Sum>k\<in>{lo..<hi}. unat (a ! k) * unat (a ! (i - k))) \<and> unat r \<le> 65 * B28 * B28"
    by simp
qed (use assms in auto)

lemma Square_column_wp:
  assumes inv: "square_inv a n p t" and p: "p < 2 * n" and n: "n \<le> 64"
    and lohi: "lo \<le> hi" "hi \<le> n" "hi \<le> p + 1" "p < lo + n" "p < n \<or> n \<le> p \<and> p < n + lo \<and> p < n + (p + 1 - hi)"
    and col: "column a n p = (\<Sum>j\<in>{lo..<hi}. unat (a ! j) * unat (a ! (p - j)))"
    and small: "\<forall>k<n. unat (a ! k) < B28"
  shows "wp (Square_column n lo hi p t) (square_inv a n (Suc p))"
proof -
  obtain acc bs where t: "t = (acc, bs)" by (cases t) auto
  have I: "length bs = 128" "\<forall>i<128. unat (bs ! i) < B28" "\<forall>k<n. p \<le> n + k \<longrightarrow> bs ! (n + k) = a ! k" "unat acc \<le> 65 * B28"
    "dv bs p + unat acc * B28 ^ p = (\<Sum>i<p. column a n i * B28 ^ i)"
    using inv by (simp_all add: t square_inv_def)
  have "wp (for_up lo hi (Square_product bs n p) acc)
    (\<lambda>r. unat r = unat acc + (\<Sum>j\<in>{lo..<hi}. unat (a ! j) * unat (a ! (p - j))) \<and> unat r \<le> 65 * B28 * B28)"
    by (rule Square_products_wp) (use lohi n I small in auto)
  then obtain r where r: "for_up lo hi (Square_product bs n p) acc = Some r" "unat r = unat acc + column a n p"
    "unat r \<le> 65 * B28 * B28"
    by (auto simp: col elim: wpE)
  let ?low = "ucast r AND 0xFFFFFFF :: u32"
  have eq: "unat ?low + B28 * unat (drop_bit 28 r) = unat acc + column a n p"
    unfolding r(2) [symmetric] by (simp add: unat_low28 unat_drop)
  have "unat r div B28 \<le> 65 * B28"
    using div_le_mono [OF r(3), of B28] by simp
  moreover have "dv (bs[p := ?low]) (Suc p) + unat (drop_bit 28 r) * B28 ^ Suc p
      = dv bs p + (unat ?low + B28 * unat (drop_bit 28 r)) * B28 ^ p"
    using p n I(1) by (simp add: dv_Suc algebra_simps)
  then have "dv (bs[p := ?low]) (Suc p) + unat (drop_bit 28 r) * B28 ^ Suc p = (\<Sum>i<Suc p. column a n i * B28 ^ i)"
    using I(5) unfolding eq by (simp add: algebra_simps)
  ultimately have "square_inv a n (Suc p) (drop_bit 28 r, bs[p := ?low])"
    using inv p n by (auto simp: t square_inv_def nth_list_update unat_low28 unat_drop)
  then show ?thesis
    using p n I(1) by (simp add: t Square_column_def r(1) wp_simps)
qed

lemma copy_loop_wp:
  assumes "length a = 128" and "2 * n \<le> 128"
  shows "wp (for_up 0 n (\<lambda>i bs. do { x \<leftarrow> rd bs i; wr bs (n + i) x }) a)
    (\<lambda>bs. length bs = 128 \<and> (\<forall>i<128. bs ! i = (if n \<le> i \<and> i < 2 * n then a ! (i - n) else a ! i)))"
  by (rule for_up_rule [where I = "\<lambda>j bs. length bs = 128 \<and>
      (\<forall>i<128. bs ! i = (if n \<le> i \<and> i < n + j then a ! (i - n) else a ! i))"])
    (use assms in \<open>auto simp: wp_simps nth_list_update less_Suc_eq\<close>)

lemma Square_wp:
  assumes ok: "bignum_ok b" and cap: "2 * used_digits b \<le> 128"
  shows "wp (Square b) (\<lambda>r. bignum_ok r \<and> bvalue r = bvalue b * bvalue b \<and> exponent r \<le> 2 * exponent b)"
proof -
  let ?n = "used_digits b" and ?a = "bigits b"
  have a: "length ?a = 128" "\<forall>i<128. unat (?a ! i) < B28" "\<forall>i. ?n \<le> i \<and> i < 128 \<longrightarrow> ?a ! i = 0"
    using ok bigits_okD [of ?a ?n] by (auto simp: bignum_ok_def bignum_rep_def)
  obtain bs where 1: "for_up 0 ?n (\<lambda>i bs. do { x \<leftarrow> rd bs i; wr bs (?n + i) x }) ?a = Some bs" "length bs = 128"
      "\<forall>i<128. bs ! i = (if ?n \<le> i \<and> i < 2 * ?n then ?a ! (i - ?n) else ?a ! i)"
    using copy_loop_wp [OF a(1) cap] by (auto elim!: wpE)
  have start: "square_inv ?a ?n 0 (0, bs)"
    using 1(2,3) a cap by (auto simp: square_inv_def)
  have n: "?n \<le> 64" "\<forall>k<?n. unat (?a ! k) < B28"
    using cap a(2) by simp_all
  have "wp (for_up 0 ?n (\<lambda>i. Square_column ?n 0 (i + 1) i) (0, bs)) (square_inv ?a ?n ?n)"
  proof (rule for_up_rule [where I = "square_inv ?a ?n"])
    fix i t
    assume "i < ?n" and "square_inv ?a ?n i t"
    then show "wp (Square_column ?n 0 (i + 1) i t) (square_inv ?a ?n (Suc i))"
      using n by (intro Square_column_wp column_eq_low) auto
  qed (use start in auto)
  then obtain s where 2: "for_up 0 ?n (\<lambda>i. Square_column ?n 0 (i + 1) i) (0, bs) = Some s" "square_inv ?a ?n ?n s"
    by (rule wpE)
  have "wp (for_up ?n (2 * ?n) (\<lambda>i. Square_column ?n (i - (?n - 1)) ?n i) s) (square_inv ?a ?n (2 * ?n))"
  proof (rule for_up_rule [where I = "square_inv ?a ?n"])
    fix i t
    assume "?n \<le> i" "i < 2 * ?n" and "square_inv ?a ?n i t"
    then show "wp (Square_column ?n (i - (?n - 1)) ?n i t) (square_inv ?a ?n (Suc i))"
      using n by (intro Square_column_wp column_eq_high) auto
  qed (use 2(2) in auto)
  then obtain acc rs where 3: "for_up ?n (2 * ?n) (\<lambda>i. Square_column ?n (i - (?n - 1)) ?n i) s = Some (acc, rs)"
      "square_inv ?a ?n (2 * ?n) (acc, rs)"
    by (rule wp_pairE)
  have total: "dv rs (2 * ?n) + unat acc * B28 ^ (2 * ?n) = bsig b * bsig b"
    using 3(2) unfolding square_inv_def prod.case column_sum by blast
  have "bsig b < B28 ^ ?n"
    by (rule dv_less) (use n in simp)
  then have "bsig b * bsig b < B28 ^ (2 * ?n)"
    unfolding mult_2 power_add by (intro mult_strict_mono) auto
  have "unat acc = 0"
  proof (rule ccontr)
    assume "unat acc \<noteq> 0"
    then have "1 * B28 ^ (2 * ?n) \<le> unat acc * B28 ^ (2 * ?n)"
      by (intro mult_le_mono1) simp
    with total \<open>bsig b * bsig b < B28 ^ (2 * ?n)\<close> show False
      by linarith
  qed
  then have acc: "acc = 0"
    by (simp add: unat_eq_zero)
  let ?r = "b\<lparr>bigits := rs, used_digits := 2 * ?n, exponent := exponent b * 2\<rparr>"
  have "wp (Clamp ?r) (\<lambda>r. bignum_ok r \<and> bvalue r = bvalue ?r \<and> exponent r \<le> exponent ?r)"
    by (rule Clamp_wp') (use 3(2) cap in \<open>auto simp: square_inv_def bignum_rep_def bigits_ok_def\<close>)
  moreover have "bvalue ?r = bvalue b * bvalue b"
    using total acc by (simp add: bvalue_def mult_2_right power_add algebra_simps)
  ultimately show ?thesis
    using cap 1(1) 2(1) 3(1) acc by (auto simp: Square_def ASSERT_IsClamped_ok ok wp_simps Let_def elim!: wp_mono)
qed

section \<open>AssignPowerUInt16\<close>

definition power_strip :: "u16 \<times> nat \<Rightarrow> (u16 \<times> nat) option" where
  "power_strip = while_opt (\<lambda>(base, shifts). base AND 1 = 0)
     (\<lambda>(base, shifts). Some (drop_bit 1 base, shifts + 1))"

definition power_bit_size :: "nat \<times> nat \<Rightarrow> (nat \<times> nat) option" where
  "power_bit_size = while_opt (\<lambda>(tmp_base, bit_size). tmp_base \<noteq> 0)
     (\<lambda>(tmp_base, bit_size). Some (tmp_base div 2, bit_size + 1))"

definition power_mask :: "nat \<Rightarrow> nat \<Rightarrow> nat option" where
  "power_mask power_exponent = while_opt (\<lambda>mask. mask \<le> power_exponent) (\<lambda>mask. Some (mask * 2))"

definition power_u64_step :: "u16 \<Rightarrow> nat \<Rightarrow> nat \<Rightarrow> nat \<times> u64 \<times> bool \<Rightarrow> (nat \<times> u64 \<times> bool) option" where
  "power_u64_step base bit_size power_exponent = (\<lambda>(mask, this_value, delayed_multiplication).
     let this_value = this_value * this_value in
     if power_exponent AND mask \<noteq> 0 then
       let base_bits_mask = NOT (push_bit (64 - bit_size) 1 - 1);
           high_bits_zero = (this_value AND base_bits_mask = 0) in
       if high_bits_zero then Some (mask div 2, this_value * ucast base, delayed_multiplication)
       else Some (mask div 2, this_value, True)
     else Some (mask div 2, this_value, delayed_multiplication))"

definition power_bignum_step :: "u16 \<Rightarrow> nat \<Rightarrow> nat \<times> bignum \<Rightarrow> (nat \<times> bignum) option" where
  "power_bignum_step base power_exponent = (\<lambda>(mask, b). do {
     b \<leftarrow> Square b;
     b \<leftarrow> (if power_exponent AND mask \<noteq> 0 then MultiplyByUInt32 b (ucast base) else Some b);
     Some (mask div 2, b) })"

definition AssignPowerUInt16 :: "bignum \<Rightarrow> u16 \<Rightarrow> nat \<Rightarrow> bignum option" where
  "AssignPowerUInt16 b base power_exponent = do {
     ASSERT (base \<noteq> 0);
     if power_exponent = 0 then AssignUInt16 b 1
     else do {
       b \<leftarrow> Zero b;
       (base, shifts) \<leftarrow> power_strip (base, 0);
       (tmp_base, bit_size) \<leftarrow> power_bit_size (unat base, 0);
       let final_size = bit_size * power_exponent;
       EnsureCapacity (final_size div kBigitSize + 2);
       mask \<leftarrow> power_mask power_exponent 1;
       (mask, this_value, delayed_multiplication) \<leftarrow>
         while_opt (\<lambda>(mask, this_value, delayed_multiplication). mask \<noteq> 0 \<and> this_value \<le> 0xFFFFFFFF)
           (power_u64_step base bit_size power_exponent) (mask div 4, ucast base, False);
       b \<leftarrow> AssignUInt64 b this_value;
       b \<leftarrow> (if delayed_multiplication then MultiplyByUInt32 b (ucast base) else Some b);
       (mask, b) \<leftarrow> while_opt (\<lambda>(mask, b). mask \<noteq> 0) (power_bignum_step base power_exponent) (mask, b);
       ShiftLeft b (shifts * power_exponent) } }"

text \<open>The three small loops.\<close>

lemma power_strip_wp:
  assumes "unat base = m * 2 ^ s" and "odd m"
  shows "wp (power_strip (base, k)) (\<lambda>(o', n). unat o' = m \<and> n = s + k)"
  unfolding power_strip_def
proof (rule while_opt_rule [where I = "\<lambda>(c, n). n \<le> s + k \<and> unat c = m * 2 ^ (s + k - n)" and m = "\<lambda>(c, n). s + k - n"])
  fix t :: "u16 \<times> nat"
  assume I: "case t of (c, n) \<Rightarrow> n \<le> s + k \<and> unat c = m * 2 ^ (s + k - n)" and even: "case t of (c, n) \<Rightarrow> c AND 1 = 0"
  obtain c n where t: "t = (c, n)" by (cases t)
  have "unat c mod 2 = 0"
    using even by (simp add: t unat_eq_zero unat_and1)
  then have "n \<noteq> s + k"
    using I assms(2) by (auto simp: t)
  moreover from this have n: "n < s + k"
    using I by (simp add: t)
  ultimately have "s + k - n = Suc (s + k - Suc n)"
    by simp
  with n show "wp (case t of (base, shifts) \<Rightarrow> Some (drop_bit 1 base, shifts + 1))
      (\<lambda>u. (case u of (c, n) \<Rightarrow> n \<le> s + k \<and> unat c = m * 2 ^ (s + k - n)) \<and>
        (case u of (c, n) \<Rightarrow> s + k - n) < (case t of (c, n) \<Rightarrow> s + k - n))"
    using I by (simp add: t unat_drop)
next
  fix t :: "u16 \<times> nat"
  assume I: "case t of (c, n) \<Rightarrow> n \<le> s + k \<and> unat c = m * 2 ^ (s + k - n)" and odd: "\<not> (case t of (c, n) \<Rightarrow> c AND 1 = 0)"
  obtain c n where t: "t = (c, n)" by (cases t)
  have "odd (unat c)"
    using odd by (simp add: t unat_eq_zero unat_and1 odd_iff_mod_2_eq_one)
  then show "case t of (o', n) \<Rightarrow> unat o' = m \<and> n = s + k"
    using I by (cases "s + k - n") (auto simp: t)
qed (use assms in simp)

lemma div_pow_Suc: "t div 2 ^ Suc n = t div 2 ^ n div (2 :: nat)"
  unfolding power_Suc2 by (rule div_mult2_eq)

lemma power_bit_size_wp:
  assumes "t < 2 ^ k"
  shows "wp (power_bit_size (t, 0)) (\<lambda>(z, n). t < 2 ^ n \<and> n \<le> k \<and> (t \<noteq> 0 \<longrightarrow> 0 < n))"
  unfolding power_bit_size_def
proof (rule while_opt_rule [where I = "\<lambda>(c, n). t div 2 ^ n = c \<and> (c \<noteq> 0 \<longrightarrow> n < k) \<and> n \<le> k" and m = fst])
  fix u :: "nat \<times> nat"
  assume I: "case u of (c, n) \<Rightarrow> t div 2 ^ n = c \<and> (c \<noteq> 0 \<longrightarrow> n < k) \<and> n \<le> k" and nz: "case u of (c, n) \<Rightarrow> c \<noteq> 0"
  obtain c n where u: "u = (c, n)" by (cases u)
  have n: "n < k" "t div 2 ^ n = c" "c \<noteq> 0"
    using I nz by (simp_all add: u)
  have "Suc n < k" if "c div 2 \<noteq> 0"
  proof -
    have "t div 2 ^ Suc n \<noteq> 0"
      using that n(2) by (simp add: div_pow_Suc del: power_Suc)
    then have "2 ^ Suc n \<le> t"
      by (simp add: div_eq_0_iff)
    then have "2 ^ Suc n < (2 :: nat) ^ k"
      using assms by simp
    then show ?thesis
      by (rule power_less_imp_less_exp [rotated]) simp
  qed
  then show "wp (case u of (tmp_base, bit_size) \<Rightarrow> Some (tmp_base div 2, bit_size + 1))
      (\<lambda>v. (case v of (c, n) \<Rightarrow> t div 2 ^ n = c \<and> (c \<noteq> 0 \<longrightarrow> n < k) \<and> n \<le> k) \<and> fst v < fst u)"
    using n by (auto simp: u div_pow_Suc simp del: power_Suc)
next
  show "case (t, 0) of (c, n) \<Rightarrow> t div 2 ^ n = c \<and> (c \<noteq> 0 \<longrightarrow> n < k) \<and> n \<le> k"
    using assms by (cases k) auto
qed (auto simp: div_eq_0_iff intro: gr0I)

text \<open>The mask stops at the power of two above the exponent.\<close>

lemma power_mask_wp:
  assumes "0 < n"
  shows "wp (power_mask n 1) (\<lambda>mask. \<exists>k. mask = 2 ^ Suc k \<and> n div 2 ^ k = 1)"
  unfolding power_mask_def
proof (rule while_opt_rule [where I = "\<lambda>mask. \<exists>k. mask = 2 ^ k \<and> (k = 0 \<or> 2 ^ (k - 1) \<le> n)" and m = "\<lambda>mask. n + 1 - mask"])
  fix mask
  assume "\<exists>k. mask = 2 ^ k \<and> (k = 0 \<or> 2 ^ (k - 1) \<le> n)" and le: "mask \<le> n"
  then obtain k where "mask = 2 ^ k"
    by auto
  then have mask: "0 < mask" "mask * 2 = 2 ^ Suc k" "2 ^ (Suc k - 1) \<le> n"
    using le by simp_all
  have less: "n + 1 - mask * 2 < n + 1 - mask"
    using le mask(1) by linarith
  then show "wp (Some (mask * 2)) (\<lambda>u. (\<exists>k. u = 2 ^ k \<and> (k = 0 \<or> 2 ^ (k - 1) \<le> n)) \<and> n + 1 - u < n + 1 - mask)"
    using less unfolding mask(2) by (auto intro!: exI [of _ "Suc k"] simp: \<open>mask = 2 ^ k\<close> le [unfolded \<open>mask = 2 ^ k\<close>])
next
  fix mask
  assume "\<exists>k. mask = 2 ^ k \<and> (k = 0 \<or> 2 ^ (k - 1) \<le> n)" and "\<not> mask \<le> n"
  then obtain k where "n < 2 ^ k" "k = 0 \<or> 2 ^ (k - 1) \<le> n" "mask = 2 ^ k"
    by auto
  with assms show "\<exists>k. mask = 2 ^ Suc k \<and> n div 2 ^ k = 1"
    by (cases k) (auto intro: div_nat_eqI)
qed (use assms in \<open>auto intro: exI [of _ 0]\<close>)

text \<open>The prefix of the exponent that is done, as the mask says it.\<close>

definition mask_at :: "nat \<Rightarrow> nat \<Rightarrow> nat \<Rightarrow> bool" where
  "mask_at n msk e \<longleftrightarrow> msk = 0 \<and> e = n \<or> (\<exists>k. msk = 2 ^ k \<and> e = n div 2 ^ Suc k)"

lemma mask_at_le: "mask_at n msk e \<Longrightarrow> e \<le> n"
  by (auto simp: mask_at_def simp del: power_Suc)

lemma mask_at_step:
  assumes "mask_at n msk e" and "msk \<noteq> 0"
  shows "mask_at n (msk div 2) (if n AND msk \<noteq> 0 then 2 * e + 1 else 2 * e)"
proof -
  obtain k where k: "msk = 2 ^ k" "e = n div 2 ^ Suc k"
    using assms by (auto simp: mask_at_def simp del: power_Suc)
  have "n AND msk \<noteq> 0 \<longleftrightarrow> odd (n div 2 ^ k)"
    by (simp add: k(1) and_exp_eq_0_iff_not_bit bit_iff_odd)
  then have e: "(if n AND msk \<noteq> 0 then 2 * e + 1 else 2 * e) = n div 2 ^ k"
    unfolding k(2) div_pow_Suc by auto
  show ?thesis
    unfolding e by (cases k) (auto simp: mask_at_def k(1) intro: exI [of _ "k - 1"])
qed

definition power_u64_inv :: "u16 \<Rightarrow> nat \<Rightarrow> nat \<times> u64 \<times> bool \<Rightarrow> bool" where
  "power_u64_inv base n = (\<lambda>(mask, v, delayed). \<exists>e. mask_at n mask e \<and>
     unat v * (if delayed then unat base else 1) = unat base ^ e \<and> (delayed \<longrightarrow> 2 ^ 32 \<le> unat v))"

lemma power_u64_step_wp:
  assumes "power_u64_inv base n (msk, v, delayed)" and "msk \<noteq> 0" and "v \<le> 0xFFFFFFFF"
    and bs: "unat base < 2 ^ bs" "0 < bs" "bs \<le> 16"
  shows "wp (power_u64_step base bs n (msk, v, delayed)) (\<lambda>u. power_u64_inv base n u \<and> fst u < msk)"
proof -
  have v: "unat v < 4294967296"
    using assms(3) by (simp add: word_le_nat_alt)
  obtain e where e: "mask_at n msk e" "unat v = unat base ^ e" "\<not> delayed"
    using assms(1) v by (auto simp: power_u64_inv_def split: if_splits)
  note step = mask_at_step [OF e(1) assms(2)]
  have "unat v * unat v \<le> 4294967295 * 4294967295"
    using v by (intro mult_le_mono) simp_all
  then have vv: "unat (v * v) = unat base ^ (2 * e)"
    by (subst unat_times) (simp_all add: e(2) mult_2 power_add)
  have less: "msk div 2 < msk"
    using assms(2) by simp
  consider "n AND msk = 0" | "n AND msk \<noteq> 0" "unat (v * v) < 2 ^ (64 - bs)"
    | "n AND msk \<noteq> 0" "2 ^ (64 - bs) \<le> unat (v * v)"
    by linarith
  then show ?thesis
  proof cases
    case 1
    then show ?thesis
      using step vv e(3) less by (auto simp: power_u64_step_def power_u64_inv_def)
  next
    case 2
    have "unat (v * v) * unat base < 2 ^ (64 - bs) * 2 ^ bs"
      using 2(2) bs(1) by (rule mult_strict_mono) simp_all
    also have "\<dots> = 2 ^ 64"
      using bs(3) by (simp flip: power_add)
    finally have "unat (v * v * ucast base) = unat base ^ (2 * e + 1)"
      by (subst unat_times) (simp_all add: nat_words vv)
    then show ?thesis
      using 2 step e(3) less unfolding power_u64_step_def Let_def prod.case high_bits_zero
      by (auto simp: power_u64_inv_def)
  next
    case 3
    have "(2 :: nat) ^ 32 \<le> 2 ^ (64 - bs)"
      using bs(3) by (intro power_increasing) simp_all
    with 3(2) have "2 ^ 32 \<le> unat (v * v)"
      by linarith
    then show ?thesis
      using 3 step vv less unfolding power_u64_step_def Let_def prod.case high_bits_zero
      by (auto simp: power_u64_inv_def mult.commute)
  qed
qed

text \<open>
  The loop on \<open>Bignum\<close>s.  The capacity that was checked at the start is enough for every square on
  the way: twice the digits of a prefix power.
\<close>

lemma power_used_digits:
  assumes "bignum_ok b" and "bvalue b < 2 ^ m"
  shows "used_digits b \<le> m div 28 + 1"
proof (rule used_digits_le [OF assms(1)])
  have "bsig b * 1 \<le> bvalue b"
    unfolding bvalue_def by (rule mult_le_mono2) simp
  also have "\<dots> < 2 ^ m"
    by (rule assms(2))
  also have "\<dots> \<le> 2 ^ (28 * (m div 28 + 1))"
    by (rule power_increasing) simp_all
  also have "\<dots> = B28 ^ (m div 28 + 1)"
    by (simp only: power_mult) simp
  finally show "bsig b < B28 ^ (m div 28 + 1)"
    by simp
qed

lemma base_power_less:
  assumes "x < 2 ^ bs" and "0 < (e :: nat)"
  shows "x ^ e < (2 :: nat) ^ (bs * e)"
  unfolding power_mult by (rule power_strict_mono) (use assms in simp_all)

definition power_bignum_inv :: "u16 \<Rightarrow> nat \<Rightarrow> nat \<times> bignum \<Rightarrow> bool" where
  "power_bignum_inv base n = (\<lambda>(mask, b). \<exists>e. mask_at n mask e \<and> bignum_ok b \<and> bvalue b = unat base ^ e)"

lemma power_bignum_step_wp:
  assumes "power_bignum_inv base n (msk, b)" and "msk \<noteq> 0"
    and bs: "0 < unat base" "unat base < 2 ^ bs" and cap: "bs * n div 28 + 2 \<le> 128"
  shows "wp (power_bignum_step base n (msk, b)) (\<lambda>u. power_bignum_inv base n u \<and> fst u < msk)"
proof -
  obtain e where e: "mask_at n msk e" "bignum_ok b" "bvalue b = unat base ^ e"
    using assms(1) by (auto simp: power_bignum_inv_def)
  note step = mask_at_step [OF e(1) assms(2)]
  have le: "2 * e \<le> n"
    using mask_at_le [OF step] by (auto split: if_splits)
  have "0 < bs"
    using bs by (cases bs) auto
  have "unat base ^ e < 2 ^ (bs * e + 1)"
    using base_power_less [OF bs(2), of e] by (cases "e = 0") (auto intro: less_trans)
  have "used_digits b \<le> bs * e div 28 + 1"
  proof (cases "e = 0")
    case True
    then show ?thesis
      using used_digits_le [OF e(2), of 1] e(3) by (simp add: bvalue_def)
  next
    case False
    then show ?thesis
      using power_used_digits [OF e(2), of "bs * e"] e(3) base_power_less [OF bs(2), of e] by simp
  qed
  moreover have "2 * (bs * e div 28) \<le> bs * n div 28"
  proof -
    have "2 * (bs * e div 28) \<le> bs * (2 * e) div 28"
      by simp
    also have "\<dots> \<le> bs * n div 28"
      using le by (intro div_le_mono mult_le_mono2)
    finally show ?thesis .
  qed
  ultimately have "2 * used_digits b \<le> 128"
    using cap by linarith
  then have "wp (Square b) (\<lambda>r. bignum_ok r \<and> bvalue r = bvalue b * bvalue b \<and> exponent r \<le> 2 * exponent b)"
    by (rule Square_wp [OF e(2)])
  then obtain r where r: "Square b = Some r" "bignum_ok r" "bvalue r = unat base ^ (2 * e)"
    by (auto elim!: wpE simp: e(3) mult_2 power_add)
  have less: "msk div 2 < msk"
    using assms(2) by simp
  show ?thesis
  proof (cases "n AND msk = 0")
    case True
    then show ?thesis
      using step r less by (auto simp: power_bignum_step_def power_bignum_inv_def)
  next
    case False
    have "2 * e + 1 \<le> n"
      using mask_at_le [OF step] False by simp
    have "bsig r * 1 \<le> bvalue r"
      unfolding bvalue_def by (rule mult_le_mono2) simp
    then have "unat base * bsig r \<le> unat base ^ (2 * e + 1)"
      using r(3) by simp
    also have "\<dots> < 2 ^ (bs * (2 * e + 1))"
      by (rule base_power_less [OF bs(2)]) simp
    also have "\<dots> \<le> 2 ^ (bs * n)"
      using \<open>2 * e + 1 \<le> n\<close> by (intro power_increasing mult_le_mono2) simp_all
    also have "\<dots> \<le> 2 ^ (28 * 128)"
      using cap by (intro power_increasing) simp_all
    also have "\<dots> = B28 ^ 128"
      by (simp only: power_mult) simp
    finally have fits: "unat (ucast base :: u32) * bsig r < B28 ^ 128"
      by (simp only: unat_u16_u32)
    have "wp (MultiplyByUInt32 r (ucast base)) (\<lambda>q. bignum_ok q \<and> bvalue q = unat base ^ (2 * e + 1))"
      using MultiplyByUInt32_wp [OF r(2) fits] by (rule wp_mono) (simp add: r(3) nat_words)
    then show ?thesis
      using step r(1) False less by (auto simp: power_bignum_step_def power_bignum_inv_def wp_simps elim!: wp_mono)
  qed
qed

lemma mask_at_start:
  assumes "n div 2 ^ k = 1"
  shows "mask_at n (2 ^ Suc k div 4) 1"
  using assms by (cases k) (auto simp: mask_at_def intro: exI [of _ "k - 1"])

lemma mask_at_end: "mask_at n 0 e \<Longrightarrow> e = n"
  by (auto simp: mask_at_def)

lemma power_u64_loop_wp:
  assumes "n div 2 ^ k = 1" and bs: "unat base < 2 ^ bs" "0 < bs" "bs \<le> 16"
  shows "wp (while_opt (\<lambda>(mask, this_value, delayed_multiplication). mask \<noteq> 0 \<and> this_value \<le> 0xFFFFFFFF)
      (power_u64_step base bs n) (2 ^ Suc k div 4, ucast base, False)) (power_u64_inv base n)"
proof (rule while_opt_rule [where I = "power_u64_inv base n" and m = fst])
  show "power_u64_inv base n (2 ^ Suc k div 4, ucast base, False)"
    using mask_at_start [OF assms(1)] by (auto simp: power_u64_inv_def unat_u16_u64 intro!: exI [of _ 1] simp del: power_Suc)
  fix t :: "nat \<times> u64 \<times> bool"
  assume I: "power_u64_inv base n t" and c: "case t of (i, this_value, delayed) \<Rightarrow> i \<noteq> 0 \<and> this_value \<le> 0xFFFFFFFF"
  obtain msk v d where t: "t = (msk, v, d)" by (cases t)
  show "wp (power_u64_step base bs n t) (\<lambda>u. power_u64_inv base n u \<and> fst u < fst t)"
    using power_u64_step_wp [OF I [unfolded t] _ _ bs] c by (simp add: t)
qed

lemma power_bignum_loop_wp:
  assumes "power_bignum_inv base n t" and "0 < unat base" "unat base < 2 ^ bs" and "bs * n div 28 + 2 \<le> 128"
  shows "wp (while_opt (\<lambda>(mask, b). mask \<noteq> 0) (power_bignum_step base n) t)
    (\<lambda>(z, r). bignum_ok r \<and> bvalue r = unat base ^ n)"
proof (rule while_opt_rule [where I = "power_bignum_inv base n" and m = fst])
  fix t :: "nat \<times> bignum"
  assume I: "power_bignum_inv base n t" and c: "case t of (i, b) \<Rightarrow> i \<noteq> 0"
  obtain msk b where t: "t = (msk, b)" by (cases t)
  show "wp (power_bignum_step base n t) (\<lambda>u. power_bignum_inv base n u \<and> fst u < fst t)"
    using power_bignum_step_wp [OF I [unfolded t] _ assms(2,3,4)] c by (simp add: t)
next
  fix t :: "nat \<times> bignum"
  assume "power_bignum_inv base n t" and "\<not> (case t of (i, b) \<Rightarrow> i \<noteq> 0)"
  then show "case t of (z, r) \<Rightarrow> bignum_ok r \<and> bvalue r = unat base ^ n"
    by (auto simp: power_bignum_inv_def dest: mask_at_end split: prod.splits)
qed (rule assms(1))

text \<open>The value that enters the \<open>Bignum\<close> phase.\<close>

lemma power_u64_done_wp:
  assumes "power_u64_inv base n (msk, v, delayed)" and "bignum_rep b"
  shows "wp (do {
      b \<leftarrow> AssignUInt64 b v;
      if delayed then MultiplyByUInt32 b (ucast base) else Some b })
    (\<lambda>r. power_bignum_inv base n (msk, r))"
proof -
  obtain e where e: "mask_at n msk e" "unat v * (if delayed then unat base else 1) = unat base ^ e"
    using assms(1) by (auto simp: power_u64_inv_def)
  obtain r where r: "AssignUInt64 b v = Some r" "bignum_ok r" "bvalue r = unat v" "exponent r = 0"
    using AssignUInt64_wp [OF assms(2), of v] by (auto elim: wpE)
  have "bsig r = unat v"
    using r(3,4) by (simp add: bvalue_def)
  moreover have "unat base * unat v \<le> 2 ^ 16 * 2 ^ 64"
    by (rule mult_le_mono) (simp_all add: less_imp_le)
  then have "unat base * unat v < B28 ^ 128"
    by (rule le_less_trans) simp
  ultimately have "unat (ucast base :: u32) * bsig r < B28 ^ 128"
    by (simp only: unat_u16_u32)
  from MultiplyByUInt32_wp [OF r(2) this] have "wp (MultiplyByUInt32 r (ucast base))
      (\<lambda>q. bignum_ok q \<and> bvalue q = unat base * unat v)"
    by (rule wp_mono) (simp add: r(3) nat_words)
  then show ?thesis
    using e r by (auto simp: power_bignum_inv_def wp_simps mult.commute elim!: wp_mono)
qed

lemma AssignPowerUInt16_wp:
  assumes rep: "bignum_rep b" and base: "unat base = m * 2 ^ s" "odd m" and bits: "m < 2 ^ k"
    and cap: "k * n div 28 + 2 \<le> 128"
  shows "wp (AssignPowerUInt16 b base n) (\<lambda>r. bignum_ok r \<and> bvalue r = unat base ^ n)"
proof (cases "n = 0")
  case True
  have "base \<noteq> 0"
    using base odd_pos [OF base(2)] by (auto simp: unat_eq_zero)
  then show ?thesis
    using AssignUInt16_wp [OF rep, of 1] True by (auto simp: AssignPowerUInt16_def wp_simps elim!: wp_mono)
next
  case False
  have "0 < m"
    using base(2) by (rule odd_pos)
  with base(1) have nz: "base \<noteq> 0" "0 < m"
    by (auto simp: unat_eq_zero)
  obtain base' where 1: "power_strip (base, 0) = Some (base', s)" "unat base' = m"
    using power_strip_wp [OF base, of 0] by (auto elim!: wpE)
  have m16: "m < 2 ^ 16"
    using unat_lt16 [of base'] 1(2) by (simp del: unat_lt16)
  obtain z bs where 2: "power_bit_size (m, 0) = Some (z, bs)" "m < 2 ^ bs" "bs \<le> k" "0 < bs"
    using power_bit_size_wp [OF bits] nz by (auto elim!: wpE)
  obtain z' bs' where "power_bit_size (m, 0) = Some (z', bs')" "bs' \<le> 16"
    using power_bit_size_wp [OF m16] by (auto elim!: wpE)
  with 2 have bs16: "bs \<le> 16"
    by simp
  have "bs * n div 28 \<le> k * n div 28"
    using 2(3) by (intro div_le_mono mult_le_mono1)
  with cap have cap': "bs * n div 28 + 2 \<le> 128"
    by linarith
  obtain j where 3: "power_mask n 1 = Some (2 ^ Suc j)" "n div 2 ^ j = 1"
    using power_mask_wp [of n] False by (auto elim!: wpE simp del: power_Suc)
  have base': "unat base' < 2 ^ bs" "0 < unat base'"
    using 1(2) 2(2) nz(2) by simp_all
  obtain msk v d where 4: "while_opt (\<lambda>(mask, this_value, delayed_multiplication). mask \<noteq> 0 \<and> this_value \<le> 0xFFFFFFFF)
      (power_u64_step base' bs n) (2 ^ Suc j div 4, ucast base', False) = Some (msk, v, d)"
      "power_u64_inv base' n (msk, v, d)"
    by (rule wpE [OF power_u64_loop_wp [OF 3(2) base'(1) 2(4) bs16]]) (auto simp del: power_Suc)
  obtain r0 r where 5: "AssignUInt64 Bignum_new v = Some r0" "(if d then MultiplyByUInt32 r0 (ucast base') else Some r0) = Some r"
      "power_bignum_inv base' n (msk, r)"
    using power_u64_done_wp [OF 4(2), of Bignum_new] by (auto elim!: wpE simp: bind_eq_Some_conv)
  obtain z q where 6: "while_opt (\<lambda>(mask, b). mask \<noteq> 0) (power_bignum_step base' n) (msk, r) = Some (z, q)"
      "bignum_ok q" "bvalue q = m ^ n"
    using power_bignum_loop_wp [OF 5(3) base'(2,1) cap'] 1(2) by (auto elim!: wpE)
  have "used_digits q \<le> bs * n div 28 + 1"
    by (rule power_used_digits [OF 6(2)]) (use 6(3) base_power_less [OF 2(2)] False in simp)
  then have "wp (ShiftLeft q (s * n)) (\<lambda>r. bignum_ok r \<and> bvalue r = bvalue q * 2 ^ (s * n) \<and>
      used_digits r \<le> used_digits q + 1 \<and> (used_digits q \<noteq> 0 \<longrightarrow> exponent r = exponent q + s * n div 28))"
    using 6(2) cap' by (intro ShiftLeft_wp) simp_all
  moreover have "bvalue q * 2 ^ (s * n) = unat base ^ n"
    by (simp add: 6(3) base(1) power_mult_distrib power_mult)
  moreover have "Zero b = Some Bignum_new"
    using Zero_wp [OF rep] by (auto elim: wpE)
  moreover have "AssignPowerUInt16 b base n = ShiftLeft q (s * n)"
  proof -
    have "ASSERT (base \<noteq> 0) = Some ()" "EnsureCapacity (bs * n div kBigitSize + 2) = Some ()"
      using nz(1) cap' by (simp_all add: ASSERT_def EnsureCapacity_def)
    then show ?thesis
      unfolding AssignPowerUInt16_def
      by (simp only: False calculation(3) 1 2(1) 3(1) 4(1) 5(1,2) 6(1) Let_def prod.case Option.bind.bind_lunit if_False)
  qed
  ultimately show ?thesis
    by (auto elim!: wp_mono)
qed

end
