(* ===== verification/Bignum_Divide.thy ===== *)
theory Bignum_Divide
  imports Bignum_Subtract
begin

unbundle bit_operations_syntax

text \<open>
  \<open>DivideModuloIntBignum\<close> of \<open>bignum.cc\<close>, the division that yields one decimal digit.  The theorem is
  stated for a quotient below 16 and a divisor whose most significant bigit is not full: the last
  section shows that the assertions of the method do not hold without these two conditions.
\<close>

definition DivideModulo_reduce :: "bignum \<Rightarrow> u16 \<times> bignum \<Rightarrow> (u16 \<times> bignum) option" where
  "DivideModulo_reduce other = (\<lambda>(result, b). do {
     other_top \<leftarrow> top_bigit other;
     ASSERT (push_bit kBigitSize 1 div 16 \<le> other_top);
     this_top \<leftarrow> top_bigit b;
     ASSERT (this_top < 0x10000);
     b \<leftarrow> SubtractTimes b other (sint this_top);
     Some (result + ucast this_top, b) })"

definition DivideModulo_subtract :: "bignum \<Rightarrow> u16 \<times> bignum \<Rightarrow> (u16 \<times> bignum) option" where
  "DivideModulo_subtract other = (\<lambda>(result, b). do {
     b \<leftarrow> SubtractBignum b other;
     Some (result + 1, b) })"

text \<open>\<open>while (LessEqual(other, *this))\<close>: the condition may stop as well.\<close>

partial_function (option) DivideModulo_subtract_loop :: "bignum \<Rightarrow> u16 \<times> bignum \<Rightarrow> (u16 \<times> bignum) option" where
  "DivideModulo_subtract_loop other s =
    Option.bind (LessEqual other (snd s)) (\<lambda>c.
      if c then Option.bind (DivideModulo_subtract other s) (DivideModulo_subtract_loop other) else Some s)"

declare DivideModulo_subtract_loop.simps [code]

text \<open>The part after both numbers have the same number of bigits.\<close>

definition DivideModulo_same_length :: "bignum \<Rightarrow> u16 \<times> bignum \<Rightarrow> (u16 \<times> bignum) option" where
  "DivideModulo_same_length other = (\<lambda>(result, b). do {
     this_bigit \<leftarrow> top_bigit b;
     other_bigit \<leftarrow> top_bigit other;
     if used_digits other = 1 then do {
       let quotient = sint (this_bigit div other_bigit);
       bs \<leftarrow> wr (bigits b) (used_digits b - 1) (this_bigit - other_bigit * word_of_int quotient);
       ASSERT (quotient < 0x10000);
       b \<leftarrow> Clamp (b\<lparr>bigits := bs\<rparr>);
       Some (result + word_of_int quotient, b) }
     else do {
       let division_estimate = sint (this_bigit div (other_bigit + 1));
       ASSERT (division_estimate < 0x10000);
       b \<leftarrow> SubtractTimes b other division_estimate;
       let result = result + word_of_int division_estimate;
       if this_bigit < other_bigit * word_of_int (division_estimate + 1) then Some (result, b)
       else DivideModulo_subtract_loop other (result, b) } })"

definition DivideModuloIntBignum :: "bignum \<Rightarrow> bignum \<Rightarrow> (u16 \<times> bignum) option" where
  "DivideModuloIntBignum b other = do {
     ASSERT_IsClamped b;
     ASSERT_IsClamped other;
     ASSERT (0 < used_digits other);
     if BigitLength b < BigitLength other then Some (0, b)
     else do {
       b \<leftarrow> Align b other;
       (result, b) \<leftarrow> while_opt (\<lambda>(result, b). BigitLength other < BigitLength b) (DivideModulo_reduce other) (0, b);
       ASSERT (BigitLength b = BigitLength other);
       DivideModulo_same_length other (result, b) } }"

section \<open>The most significant bigit\<close>

lemma top_bigit_bounds:
  assumes "bignum_ok b" and "used_digits b \<noteq> 0"
  obtains t where "top_bigit b = Some t" and "t = bigits b ! (used_digits b - 1)"
    and "unat t * B28 ^ (BigitLength b - 1) \<le> bvalue b"
    and "bvalue b < (unat t + 1) * B28 ^ (BigitLength b - 1)" and "0 < unat t" and "unat t < B28"
proof -
  obtain n where n: "used_digits b = Suc n"
    using assms(2) not0_implies_Suc by blast
  have ok: "bigits_ok (bigits b) (Suc n)"
    using assms(1) by (simp add: bignum_ok_def bignum_rep_def n)
  then have len: "length (bigits b) = 128" "n < 128" "unat (bigits b ! n) < B28"
    by (auto simp: bigits_ok_def)
  have P: "B28 ^ (BigitLength b - 1) = B28 ^ n * B28 ^ exponent b"
    by (simp add: BigitLength_def n power_add)
  have "dv (bigits b) n < B28 ^ n"
    by (rule dv_less) (use ok in \<open>simp add: bigits_ok_def\<close>)
  then have "dv (bigits b) (Suc n) < (unat (bigits b ! n) + 1) * B28 ^ n"
    by (simp add: dv_Suc)
  then have "bvalue b < (unat (bigits b ! n) + 1) * B28 ^ (BigitLength b - 1)"
    unfolding bvalue_def n P mult.assoc [symmetric] by (rule mult_strict_right_mono) simp
  moreover have "unat (bigits b ! n) * B28 ^ (BigitLength b - 1) \<le> bvalue b"
    unfolding bvalue_def n P mult.assoc [symmetric] by (rule mult_le_mono1) (simp add: dv_Suc)
  moreover have "0 < unat (bigits b ! n)"
    using assms by (simp add: bignum_ok_def n unat_eq_zero)
  moreover have "top_bigit b = Some (bigits b ! n)" and "bigits b ! n = bigits b ! (used_digits b - 1)"
    using len by (simp_all add: top_bigit_def rd_def n)
  ultimately show ?thesis
    using len(3) that by blast
qed

lemma used_pos: "bignum_ok b \<Longrightarrow> used_digits b \<noteq> 0 \<longleftrightarrow> 0 < BigitLength b"
  by (cases "used_digits b = 0") (auto simp: BigitLength_zero, simp add: BigitLength_def)

lemma BigitLength_eqI:
  assumes "bignum_ok b" and "B28 ^ n \<le> bvalue b" and "bvalue b < B28 ^ Suc n"
  shows "BigitLength b = Suc n"
proof (rule antisym)
  show "BigitLength b \<le> Suc n"
    using assms(1,3) by (rule BigitLength_le)
  have "B28 ^ n < B28 ^ BigitLength b"
    by (rule le_less_trans [OF assms(2) bignum_rep_less]) (use assms(1) in simp)
  then show "Suc n \<le> BigitLength b"
    by (simp add: Suc_leI power_less_imp_less_exp)
qed

text \<open>The divisor is not within one unit of its most significant bigit of a power of the base.\<close>

definition divisor_ok :: "bignum \<Rightarrow> bool" where
  "divisor_ok d \<longleftrightarrow> bignum_ok d \<and> used_digits d \<noteq> 0 \<and> bigits d ! (used_digits d - 1) \<noteq> kBigitMask"

definition reduce_inv :: "bignum \<Rightarrow> nat \<Rightarrow> u16 \<times> bignum \<Rightarrow> bool" where
  "reduce_inv d V = (\<lambda>(q, r). bignum_ok r \<and> exponent r \<le> exponent d \<and>
     V = unat q * bvalue d + bvalue r \<and> V < 16 * bvalue d)"

lemma reduce_inv_q: "reduce_inv d V (q, r) \<Longrightarrow> unat q < 16"
proof -
  assume "reduce_inv d V (q, r)"
  then have "V = unat q * bvalue d + bvalue r" "V < 16 * bvalue d"
    by (simp_all add: reduce_inv_def)
  then have "unat q * bvalue d < 16 * bvalue d"
    by linarith
  then show ?thesis
    by simp
qed

lemma reduce_inv_step:
  assumes "reduce_inv d V (q, r)" and "bignum_ok r'" "exponent r' \<le> exponent d"
    and "k * bvalue d \<le> bvalue r" and "bvalue r' = bvalue r - k * bvalue d" and "0 < bvalue d"
    and "unat w = k"
  shows "reduce_inv d V (q + w, r')"
proof -
  have V: "V = (unat q + k) * bvalue d + bvalue r'" "V < 16 * bvalue d"
    using assms(1,4,5) by (simp_all add: reduce_inv_def algebra_simps)
  then have "(unat q + k) * bvalue d < 16 * bvalue d"
    by linarith
  then have "unat q + k < 16"
    by simp
  then have "unat (q + w) = unat q + k"
    using assms(7) by (simp add: unat_plus)
  then show ?thesis
    using V assms(2,3) by (simp add: reduce_inv_def)
qed

lemma divisor_bounds:
  assumes "divisor_ok d"
  obtains t where "top_bigit d = Some t" and "unat t * B28 ^ (BigitLength d - 1) \<le> bvalue d"
    and "bvalue d < (unat t + 1) * B28 ^ (BigitLength d - 1)" and "0 < unat t" and "unat t + 2 \<le> B28"
    and "B28 ^ BigitLength d = B28 * B28 ^ (BigitLength d - 1)" and "0 < bvalue d"
proof -
  have d: "bignum_ok d" "used_digits d \<noteq> 0" "bigits d ! (used_digits d - 1) \<noteq> 0xFFFFFFF"
    using assms by (simp_all add: divisor_ok_def)
  obtain t where t: "top_bigit d = Some t" "t = bigits d ! (used_digits d - 1)" "unat t * B28 ^ (BigitLength d - 1) \<le> bvalue d"
      "bvalue d < (unat t + 1) * B28 ^ (BigitLength d - 1)" "0 < unat t" "unat t < B28"
    by (rule top_bigit_bounds [OF d(1,2)])
  have "unat t \<noteq> unat (0xFFFFFFF :: u32)"
    using d(3) t(2) by (simp only: word_unat_eq_iff) simp
  then have "unat t + 2 \<le> B28"
    using t(6) by simp
  moreover have "B28 ^ BigitLength d = B28 * B28 ^ (BigitLength d - 1)"
    using used_pos [OF d(1)] d(2) by (cases "BigitLength d") auto
  moreover have "0 < bvalue d"
    using bvalue_zero_iff [OF d(1)] d(2) by simp
  ultimately show ?thesis
    using t that by blast
qed

lemma reduce_step_wp:
  assumes d: "divisor_ok d" and inv: "reduce_inv d V (q, r)" and longer: "BigitLength d < BigitLength r"
  shows "wp (DivideModulo_reduce d (q, r)) (\<lambda>u. reduce_inv d V u \<and> BigitLength d \<le> BigitLength (snd u) \<and>
    bvalue (snd u) < bvalue r)"
proof -
  let ?P = "B28 ^ (BigitLength d - 1)" and ?D = "bvalue d" and ?R = "bvalue r"
  obtain t where t: "top_bigit d = Some t" "?D < (unat t + 1) * ?P" "unat t + 2 \<le> B28"
      "B28 ^ BigitLength d = B28 * ?P" "0 < ?D"
    by (rule divisor_bounds [OF d])
  have r: "bignum_ok r" "exponent r \<le> exponent d" "?R < 16 * ?D" and dok: "bignum_ok d"
    using inv d by (auto simp: reduce_inv_def divisor_ok_def)
  have D: "?D + ?P < B28 * ?P"
  proof -
    have "(unat t + 1) * ?P + ?P = (unat t + 2) * ?P"
      by simp
    also have "\<dots> \<le> B28 * ?P"
      using t(3) by (rule mult_le_mono1)
    finally show ?thesis
      using t(2) by linarith
  qed
  have R: "B28 * ?P \<le> ?R"
    using BigitLength_ge [OF r(1) longer] by (simp only: t(4))
  have "B28 * ?P < (16 * (unat t + 1)) * ?P"
    using R r(3) t(2) unfolding mult.assoc by linarith
  then have "B28 < 16 * (unat t + 1)"
    by simp
  then have a1: "16777216 \<le> t"
    by (simp add: word_le_nat_alt)
  have "?R < B28 ^ Suc (BigitLength d)"
  proof -
    have "?R < 16 * (B28 * ?P)"
      using r(3) D by linarith
    also have "\<dots> \<le> B28 ^ Suc (BigitLength d)"
      by (simp add: t(4))
    finally show ?thesis .
  qed
  then have len: "BigitLength r = Suc (BigitLength d)"
    using R by (intro BigitLength_eqI r) (simp_all only: t(4))
  have "used_digits r \<noteq> 0"
    using used_pos [OF r(1)] longer by simp
  then obtain u where u: "top_bigit r = Some u" "unat u * B28 ^ BigitLength d \<le> ?R" "0 < unat u"
    by (rule top_bigit_bounds [OF r(1)]) (simp add: len)
  have uR: "unat u * (B28 * ?P) \<le> ?R"
    using u(2) by (simp only: t(4))
  then have "unat u * (B28 * ?P) < 16 * (B28 * ?P)"
    using r(3) D by linarith
  then have u16: "unat u < 16"
    by simp
  then have su: "0 \<le> sint u" "sint u < int B28" "nat (sint u) = unat u"
    by (simp_all only: sint_small of_nat_less_iff nat_int of_nat_0_le_iff)
  have a2: "u < 0x10000" and w: "unat (ucast u :: u16) = unat u"
    using u16 by (simp_all add: word_less_nat_alt unat_u32_u16)
  have uD: "unat u * ?D + unat u * ?P \<le> ?R"
  proof -
    have "unat u * (?D + ?P) \<le> unat u * (B28 * ?P)"
      using D by (intro mult_le_mono2) simp
    with uR show ?thesis
      unfolding distrib_left by linarith
  qed
  then have "wp (SubtractTimes r d (sint u)) (\<lambda>x. bignum_ok x \<and> bvalue x = ?R - nat (sint u) * ?D \<and> exponent x \<le> exponent r)"
    using r dok su uD by (intro SubtractTimes_wp) simp_all
  then obtain x where x: "SubtractTimes r d (sint u) = Some x" "bignum_ok x" "bvalue x = ?R - unat u * ?D" "exponent x \<le> exponent r"
    by (auto simp: su elim: wpE)
  have "1 * ?P \<le> unat u * ?P" "1 * ?D \<le> unat u * ?D"
    using u(3) by (intro mult_le_mono1; simp)+
  then have ge: "?P \<le> bvalue x" "bvalue x < ?R"
    using uD x(3) t(5) by linarith+
  have "BigitLength d \<le> BigitLength x"
  proof (rule ccontr)
    assume "\<not> BigitLength d \<le> BigitLength x"
    then have "BigitLength x \<le> BigitLength d - 1"
      by linarith
    with bignum_rep_less [OF bignum_ok_rep [OF x(2)]] have "bvalue x < ?P"
      by (rule pow28_less)
    with ge show False by simp
  qed
  moreover have "reduce_inv d V (q + ucast u, x)"
    by (rule reduce_inv_step [OF inv x(2) _ _ x(3) t(5) w]) (use x(4) r(2) uD in linarith)+
  ultimately show ?thesis
    using ge(2) by (simp add: DivideModulo_reduce_def t(1) u(1) a1 a2 x(1) wp_simps)
qed

lemma subtract_loop_wp:
  assumes d: "bignum_ok d" "0 < bvalue d" and inv: "reduce_inv d V s"
  shows "wp (DivideModulo_subtract_loop d s) (\<lambda>u. reduce_inv d V u \<and> bvalue (snd u) < bvalue d)"
  using inv
proof (induction "bvalue (snd s)" arbitrary: s rule: less_induct)
  case less
  obtain q r where s: "s = (q, r)" by (cases s)
  have r: "bignum_ok r" "exponent r \<le> exponent d"
    using less.prems by (simp_all add: s reduce_inv_def)
  show ?case
  proof (cases "bvalue d \<le> bvalue r")
    case True
    then have "wp (SubtractBignum r d) (\<lambda>x. bignum_ok x \<and> bvalue x = bvalue r - bvalue d \<and>
        exponent x \<le> min (exponent r) (exponent d))"
      using r d by (intro SubtractBignum_wp) auto
    then obtain x where x: "SubtractBignum r d = Some x" "bignum_ok x" "bvalue x = bvalue r - 1 * bvalue d" "exponent x \<le> exponent d"
      by (auto elim: wpE)
    have "reduce_inv d V (q + 1, x)"
      by (rule reduce_inv_step [OF less.prems [unfolded s] x(2,4) _ x(3) d(2)]) (use True in simp_all)
    then have "wp (DivideModulo_subtract_loop d (q + 1, x)) (\<lambda>u. reduce_inv d V u \<and> bvalue (snd u) < bvalue d)"
      using True d(2) x(3) by (intro less.hyps) (simp_all add: s)
    then show ?thesis
      using True by (subst DivideModulo_subtract_loop.simps)
        (simp add: s Compare_preds d r DivideModulo_subtract_def x(1))
  next
    case False
    then show ?thesis
      using less.prems by (subst DivideModulo_subtract_loop.simps) (simp add: s Compare_preds d r)
  qed
qed

lemma word_of_small: "unat (x :: u32) < 65536 \<Longrightarrow> unat (word_of_int (sint x) :: u16) = unat x"
  by (subst sint_small) (simp_all only: of_int_of_nat_eq unsigned_of_nat take_bit_nat_eq_self power_numeral, simp_all add: take_bit_nat_eq_self)

lemma same_length_one:
  assumes d: "bignum_ok d" "used_digits d = 1" and inv: "reduce_inv d V (q, r)"
    and len: "BigitLength r = BigitLength d"
  shows "wp (DivideModulo_same_length d (q, r)) (\<lambda>u. reduce_inv d V u \<and> bvalue (snd u) < bvalue d)"
proof -
  let ?P = "B28 ^ (BigitLength d - 1)" and ?n = "used_digits r"
  have r: "bignum_ok r" "exponent r \<le> exponent d" "bvalue r < 16 * bvalue d"
    using inv by (auto simp: reduce_inv_def)
  have "0 < BigitLength d"
    using d by (simp add: BigitLength_def)
  then have "?n \<noteq> 0"
    using used_pos [OF r(1)] len by simp
  then obtain m where m: "?n = Suc m"
    using not0_implies_Suc by blast
  obtain t where t: "top_bigit r = Some t" "t = bigits r ! (?n - 1)" "unat t * ?P \<le> bvalue r" "unat t < B28"
    by (rule top_bigit_bounds [OF r(1) \<open>?n \<noteq> 0\<close>]) (simp add: len)
  obtain c where c: "top_bigit d = Some c" "c = bigits d ! (used_digits d - 1)" "0 < unat c"
    by (rule top_bigit_bounds [OF d(1)]) (simp_all add: d(2))
  have D: "bvalue d = unat c * ?P"
    using d(2) c(2) by (simp add: bvalue_def BigitLength_def dv_Suc)
  have P: "?P = B28 ^ m * B28 ^ exponent r"
    unfolding len [symmetric] by (simp add: BigitLength_def m power_add)
  define lower where "lower = dv (bigits r) m * B28 ^ exponent r"
  have R: "bvalue r = lower + unat t * ?P"
    unfolding P by (simp add: bvalue_def m dv_Suc t(2) lower_def algebra_simps)
  have rok: "bigits_ok (bigits r) ?n"
    using r(1) by (simp add: bignum_ok_def bignum_rep_def)
  have "dv (bigits r) m < B28 ^ m"
    by (rule dv_less) (use rok m in \<open>simp add: bigits_ok_def\<close>)
  then have lower: "lower < ?P"
    unfolding P lower_def by (rule mult_strict_right_mono) simp
  let ?k = "unat t div unat c"
  have "?k * unat c * ?P \<le> unat t * ?P"
    by (intro mult_le_mono1) simp
  then have kD: "?k * bvalue d \<le> bvalue r"
    using R unfolding D mult.assoc by linarith
  then have "?k * bvalue d < 16 * bvalue d"
    using r(3) by linarith
  then have k: "?k < 16"
    by simp
  have uk: "unat (t div c) = ?k"
    by (rule unat_div)
  have w16: "unat (word_of_int (sint (t div c)) :: u16) = ?k" and a: "sint (t div c) < 0x10000"
    using word_of_small [of "t div c"] sint_small [of "t div c"] k uk by simp_all
  let ?r = "r\<lparr>bigits := (bigits r)[m := t mod c]\<rparr>"
  have "unat (t mod c) < B28"
    using t(4) c(3) by (metis unat_mod mod_less_eq_dividend le_less_trans)
  then have rep: "bignum_rep ?r"
    using rok m by (auto simp: bignum_rep_def bigits_ok_def nth_list_update)
  have v: "bvalue ?r = lower + unat t mod unat c * ?P"
    unfolding P using rok m by (simp add: bvalue_def dv_Suc bigits_ok_def lower_def unat_mod algebra_simps)
  have split: "unat t * ?P = ?k * bvalue d + unat t mod unat c * ?P"
    unfolding D mult.assoc [symmetric] distrib_right [symmetric] by simp
  obtain x where x: "Clamp ?r = Some x" "bignum_ok x" "bvalue x = bvalue ?r" "exponent x \<le> exponent r"
    using Clamp_wp' [OF rep] by (auto elim: wpE)
  have "bvalue x = bvalue r - ?k * bvalue d"
    using x(3) v R split by linarith
  moreover have "0 < bvalue d"
    unfolding D using c(3) by simp
  ultimately have "reduce_inv d V (q + word_of_int (sint (t div c)), x)"
    by (intro reduce_inv_step [OF inv x(2) _ kD _ _ w16]) (use x(4) r(2) in simp_all)
  moreover have "bvalue x < bvalue d"
  proof -
    have "(unat t mod unat c + 1) * ?P \<le> unat c * ?P"
      using c(3) by (intro mult_le_mono1) (simp add: Suc_leI)
    then show ?thesis
      using x(3) v lower unfolding D by simp
  qed
  ultimately show ?thesis
    using rok m x(1) a by (simp add: DivideModulo_same_length_def t(1) c(1) d(2) wp_simps minus_mult_div_eq_mod Let_def bigits_ok_def)
qed

lemma same_length_many:
  assumes d: "bignum_ok d" "0 < bvalue d" "used_digits d \<noteq> 1" and inv: "reduce_inv d V (q, r)"
    and len: "BigitLength r = BigitLength d"
  shows "wp (DivideModulo_same_length d (q, r)) (\<lambda>u. reduce_inv d V u \<and> bvalue (snd u) < bvalue d)"
proof -
  let ?P = "B28 ^ (BigitLength d - 1)"
  have r: "bignum_ok r" "exponent r \<le> exponent d" "bvalue r < 16 * bvalue d"
    using inv by (auto simp: reduce_inv_def)
  have "used_digits d \<noteq> 0"
    using d(1,2) bvalue_zero_iff [of d] by simp
  then have "used_digits r \<noteq> 0"
    using used_pos [OF r(1)] used_pos [OF d(1)] len by simp
  obtain t where t: "top_bigit r = Some t" "unat t * ?P \<le> bvalue r" "bvalue r < (unat t + 1) * ?P" "unat t < B28"
    by (rule top_bigit_bounds [OF r(1) \<open>used_digits r \<noteq> 0\<close>]) (simp add: len)
  obtain c where c: "top_bigit d = Some c" "unat c * ?P \<le> bvalue d" "bvalue d < (unat c + 1) * ?P" "unat c < B28" "0 < unat c"
    by (rule top_bigit_bounds [OF d(1) \<open>used_digits d \<noteq> 0\<close>])
  let ?k = "unat t div (unat c + 1)"
  have c1: "unat (c + 1) = unat c + 1"
    using c(4) by (simp add: unat_plus)
  have uk: "unat (t div (c + 1)) = ?k"
    by (simp only: unat_div c1)
  have kc: "?k * (unat c + 1) \<le> unat t"
    by (rule div_times_less_eq_dividend)
  have "?k * bvalue d \<le> ?k * ((unat c + 1) * ?P)"
    using c(3) by (intro mult_le_mono2) simp
  also have "\<dots> \<le> unat t * ?P"
    unfolding mult.assoc [symmetric] using kc by (rule mult_le_mono1)
  finally have kD: "?k * bvalue d \<le> bvalue r"
    using t(2) by linarith
  then have "?k * bvalue d < 16 * bvalue d"
    using r(3) by linarith
  then have k: "?k < 16"
    by simp
  let ?e = "sint (t div (c + 1))"
  have e: "?e = int ?k"
    unfolding uk [symmetric] by (rule sint_small) (use k uk in simp)
  have eb: "0 \<le> ?e" "nat ?e = ?k"
    unfolding e by (simp_all only: of_nat_0_le_iff nat_int)
  have eb': "?e < int B28" and a: "?e < 0x10000"
    unfolding e using k by linarith+
  have "wp (SubtractTimes r d ?e) (\<lambda>x. bignum_ok x \<and> bvalue x = bvalue r - nat ?e * bvalue d \<and> exponent x \<le> exponent r)"
    by (rule SubtractTimes_wp [OF r(1) d(1) eb(1) eb' _ r(2)]) (simp only: eb(2) kD)
  then obtain x where x: "SubtractTimes r d ?e = Some x" "bignum_ok x" "bvalue x = bvalue r - ?k * bvalue d" "exponent x \<le> exponent r"
    unfolding eb(2) by (rule wpE) blast
  have w: "unat (word_of_int ?e :: u16) = ?k"
    using word_of_small [of "t div (c + 1)"] k uk by simp
  have inv': "reduce_inv d V (q + word_of_int ?e, x)"
    by (rule reduce_inv_step [OF inv x(2) _ kD x(3) d(2) w]) (use x(4) r(2) in simp)
  have "unat c * (?k + 1) \<le> unat t + unat c"
    using kc by (simp add: algebra_simps)
  moreover have "unat (word_of_int (?e + 1) :: u32) = ?k + 1"
  proof -
    have "(word_of_int (?e + 1) :: u32) = t div (c + 1) + 1"
      by simp
    then show ?thesis
      using k uk by (simp add: unat_plus)
  qed
  ultimately have prod: "unat (c * word_of_int (?e + 1)) = unat c * (?k + 1)"
    using t(4) c(4) by (subst unat_times) simp_all
  show ?thesis
  proof (cases "t < c * word_of_int (?e + 1)")
    case True
    then have "unat t < unat (c * word_of_int (?e + 1))"
      by (simp only: word_less_nat_alt)
    then have "unat t + 1 \<le> unat c * (?k + 1)"
      unfolding prod by simp
    then have "(unat t + 1) * ?P \<le> unat c * (?k + 1) * ?P"
      by (rule mult_le_mono1)
    also have "\<dots> = (?k + 1) * (unat c * ?P)"
      by (simp only: ac_simps)
    also have "\<dots> \<le> (?k + 1) * bvalue d"
      using c(2) by (rule mult_le_mono2)
    finally have "bvalue r < ?k * bvalue d + bvalue d"
      using t(3) by simp
    then have "bvalue x < bvalue d"
      unfolding x(3) using kD by (simp only: less_diff_conv2 add.commute)
    with True inv' show ?thesis
      using a d(3) by (simp add: DivideModulo_same_length_def t(1) c(1) x(1) wp_simps Let_def)
  next
    case False
    with subtract_loop_wp [OF d(1,2) inv'] show ?thesis
      using a d(3) by (simp add: DivideModulo_same_length_def t(1) c(1) x(1) wp_simps Let_def)
  qed
qed

lemma DivideModuloIntBignum_wp:
  assumes ok: "bignum_ok b" and d: "divisor_ok d" and small: "bvalue b < 16 * bvalue d"
    and cap: "exponent d < exponent b \<Longrightarrow> BigitLength b - exponent d \<le> 128"
  shows "wp (DivideModuloIntBignum b d) (\<lambda>(q, r). bignum_ok r \<and>
    unat q = bvalue b div bvalue d \<and> bvalue r = bvalue b mod bvalue d)"
proof -
  have dok: "bignum_ok d" "used_digits d \<noteq> 0" and D: "0 < bvalue d"
    using d bvalue_zero_iff [of d] by (auto simp: divisor_ok_def)
  have pre: "ASSERT_IsClamped b = Some ()" "ASSERT_IsClamped d = Some ()" "ASSERT (0 < used_digits d) = Some ()"
    using ok dok by (simp_all add: ASSERT_IsClamped_ok ASSERT_def)
  show ?thesis
  proof (cases "BigitLength b < BigitLength d")
    case True
    then have "bvalue b < bvalue d"
      by (rule BigitLength_less_imp [OF ok dok(1)])
    then show ?thesis
      using True ok by (simp add: DivideModuloIntBignum_def pre)
  next
    case False
    have "wp (Align b d) (\<lambda>r. bignum_ok r \<and> bvalue r = bvalue b \<and>
        BigitLength r = BigitLength b \<and> exponent r = min (exponent b) (exponent d))"
      by (rule Align_wp [OF ok cap])
    then obtain a where a: "Align b d = Some a" "bignum_ok a" "bvalue a = bvalue b" "BigitLength a = BigitLength b"
        "exponent a = min (exponent b) (exponent d)"
      by (rule wpE) blast
    let ?I = "\<lambda>u. reduce_inv d (bvalue b) u \<and> BigitLength d \<le> BigitLength (snd u)"
    have "wp (while_opt (\<lambda>(result, b). BigitLength d < BigitLength b) (DivideModulo_reduce d) (0, a))
        (\<lambda>u. reduce_inv d (bvalue b) u \<and> BigitLength (snd u) = BigitLength d)"
    proof (rule while_opt_rule [where I = ?I and m = "\<lambda>u. bvalue (snd u)"])
      show "?I (0, a)"
        using a False small by (simp add: reduce_inv_def)
      fix u :: "u16 \<times> bignum"
      obtain q r where u: "u = (q, r)" by (cases u)
      show "wp (DivideModulo_reduce d u) (\<lambda>v. ?I v \<and> bvalue (snd v) < bvalue (snd u))"
        if "?I u" "case u of (result, b) \<Rightarrow> BigitLength d < BigitLength b"
        unfolding u using reduce_step_wp [OF d, of "bvalue b" q r] that
        by (auto simp: u elim!: wp_mono)
    qed auto
    then obtain q r where w: "while_opt (\<lambda>(result, b). BigitLength d < BigitLength b) (DivideModulo_reduce d) (0, a) = Some (q, r)"
        "reduce_inv d (bvalue b) (q, r)" "BigitLength r = BigitLength d"
      by (rule wp_pairE) simp
    have "wp (DivideModulo_same_length d (q, r)) (\<lambda>u. reduce_inv d (bvalue b) u \<and> bvalue (snd u) < bvalue d)"
      using same_length_one [OF dok(1) _ w(2,3)] same_length_many [OF dok(1) D _ w(2,3)] by blast
    then obtain q' r' where s: "DivideModulo_same_length d (q, r) = Some (q', r')"
        "reduce_inv d (bvalue b) (q', r')" "bvalue r' < bvalue d"
      by (rule wp_pairE) simp
    have V: "bvalue b = unat q' * bvalue d + bvalue r'"
      using s(2) by (simp add: reduce_inv_def)
    have "unat q' = bvalue b div bvalue d" "bvalue r' = bvalue b mod bvalue d"
      unfolding V using s(3) by simp_all
    then show ?thesis
      using False s w(3) dok(2) by (simp add: DivideModuloIntBignum_def pre a(1) w(1) ASSERT_def reduce_inv_def)
  qed
qed

section \<open>Where the assertions do not hold\<close>

text \<open>
  The comment asks for a quotient below 16 bits.  The first division below has the quotient 256 and
  stops at the assertion on the most significant bigit of the divisor; the second one has the
  quotient 1 and stops at the assertion that both lengths are equal after the first loop.
\<close>

lemma stops_small_top:
  assumes "bignum_ok b" and "bignum_ok d" and "used_digits d \<noteq> 0" and "exponent b \<le> exponent d"
    and "BigitLength d < BigitLength b" and "top_bigit d = Some t" and "t < 0x1000000"
  shows "DivideModuloIntBignum b d = None"
proof -
  have "DivideModulo_reduce d (0, b) = None"
    using assms(6,7) by (simp add: DivideModulo_reduce_def ASSERT_def linorder_not_less [symmetric])
  with assms show ?thesis
    by (simp add: DivideModuloIntBignum_def ASSERT_IsClamped_ok ASSERT_def Align_def
        while_opt.simps [of _ "DivideModulo_reduce d"])
qed

lemma stops_short_remainder:
  assumes b: "bignum_ok b" "top_bigit b = Some u" "unat u < 0x10000" and d: "bignum_ok d" "used_digits d \<noteq> 0"
    and e: "exponent b \<le> exponent d" and len: "BigitLength d < BigitLength b"
    and top: "top_bigit d = Some t" "0x1000000 \<le> t"
    and short: "unat u * bvalue d \<le> bvalue b" "bvalue b - unat u * bvalue d < B28 ^ (BigitLength d - 1)"
  shows "DivideModuloIntBignum b d = None"
proof -
  have su: "0 \<le> sint u" "sint u < int B28" "nat (sint u) = unat u"
    using b(3) by (simp_all only: sint_small of_nat_less_iff nat_int of_nat_0_le_iff)
  have "wp (SubtractTimes b d (sint u)) (\<lambda>x. bignum_ok x \<and> bvalue x = bvalue b - nat (sint u) * bvalue d \<and> exponent x \<le> exponent b)"
    by (rule SubtractTimes_wp [OF b(1) d(1) su(1,2) _ e]) (simp only: su(3) short(1))
  then obtain x where x: "SubtractTimes b d (sint u) = Some x" "bignum_ok x" "bvalue x = bvalue b - unat u * bvalue d"
    unfolding su(3) by (rule wpE) blast
  have "BigitLength x \<le> BigitLength d - 1"
    by (rule BigitLength_le) (use x short(2) in simp_all)
  moreover have "0 < BigitLength d"
    using d used_pos by blast
  ultimately have "BigitLength x < BigitLength d"
    by linarith
  moreover have "u < 0x10000"
    using b(3) by (simp add: word_less_nat_alt)
  moreover have "DivideModulo_reduce d (0, b) = Some (ucast u, x)" if "u < 0x10000"
    using top b(2) x(1) that by (simp add: DivideModulo_reduce_def ASSERT_def)
  ultimately have "while_opt (\<lambda>(result, b). BigitLength d < BigitLength b) (DivideModulo_reduce d) (0, b) = Some (ucast u, x)"
    using len by (simp add: while_opt.simps [of _ "DivideModulo_reduce d"])
  then show ?thesis
    using b(1) d e len \<open>BigitLength x < BigitLength d\<close>
    by (simp add: DivideModuloIntBignum_def ASSERT_IsClamped_ok ASSERT_def Align_def)
qed

definition bignum_of :: "u32 list \<Rightarrow> bignum" where
  "bignum_of ds = \<lparr>bigits = ds @ replicate (128 - length ds) 0, used_digits = length ds, exponent = 0\<rparr>"

lemma bignum_of_ok:
  "length ds \<le> 128 \<Longrightarrow> (\<forall>x\<in>set ds. unat x < B28) \<Longrightarrow> ds = [] \<or> last ds \<noteq> 0 \<Longrightarrow> bignum_ok (bignum_of ds)"
  by (auto simp: bignum_ok_def bignum_rep_def bigits_ok_def bignum_of_def nth_append last_conv_nth)

lemma divide_quotient_256:
  "bvalue (bignum_of [0, 1]) = 256 * bvalue (bignum_of [0x100000])"
  "DivideModuloIntBignum (bignum_of [0, 1]) (bignum_of [0x100000]) = None"
proof -
  show "bvalue (bignum_of [0, 1]) = 256 * bvalue (bignum_of [0x100000])"
    by (simp add: bvalue_def bignum_of_def dv_Suc)
  show "DivideModuloIntBignum (bignum_of [0, 1]) (bignum_of [0x100000]) = None"
    by (rule stops_small_top [where t = "0x100000"]; (rule bignum_of_ok)?)
      (simp_all add: bignum_of_def BigitLength_def top_bigit_def rd_def)
qed

lemma divide_short_remainder:
  "bvalue (bignum_of [0, 0, 1]) = 1 * bvalue (bignum_of [0xFFFFFFF, 0xFFFFFFF]) + 1"
  "DivideModuloIntBignum (bignum_of [0, 0, 1]) (bignum_of [0xFFFFFFF, 0xFFFFFFF]) = None"
proof -
  show "bvalue (bignum_of [0, 0, 1]) = 1 * bvalue (bignum_of [0xFFFFFFF, 0xFFFFFFF]) + 1"
    by (simp add: bvalue_def bignum_of_def dv_Suc)
  show "DivideModuloIntBignum (bignum_of [0, 0, 1]) (bignum_of [0xFFFFFFF, 0xFFFFFFF]) = None"
    by (rule stops_short_remainder [where t = "0xFFFFFFF" and u = 1]; (rule bignum_of_ok)?)
      (simp_all add: bignum_of_def BigitLength_def top_bigit_def rd_def bvalue_def dv_Suc)
qed

end
