(* ===== verification/Five_Powers.thy ===== *)
theory Five_Powers
  imports Bignum_Divide
begin

text \<open>
  The divisors that the digit generation uses are products of powers of five and of two.  The
  division of \<open>bignum.cc\<close> is exact when their most significant bigit is not all ones.  That the
  leading 28 bits of no power of five up to \<open>5 ^ 330\<close> are all ones is checked by running through
  the powers with their 64 leading bits and a bound on what has been cut off.
\<close>

definition lead_not_full :: "nat \<Rightarrow> bool" where
  "lead_not_full x \<longleftrightarrow> (\<forall>n. \<not> ((2 ^ 28 - 1) * 2 ^ n \<le> x \<and> x < 2 ^ 28 * 2 ^ n))"

primrec lead_check :: "nat \<Rightarrow> nat \<Rightarrow> nat \<Rightarrow> bool" where
  "lead_check 0 a w \<longleftrightarrow> True"
| "lead_check (Suc n) a w \<longleftrightarrow>
    (let s = (if 5 * a < 2 ^ 66 then 4 else 8); a' = 5 * a div s; w' = 5 * w div s + 2
     in 2 ^ 63 \<le> a' \<and> a' + w' \<le> (2 ^ 28 - 1) * 2 ^ 36 \<and> lead_check n a' w')"

lemma lead_not_full_interval:
  assumes "2 ^ 63 \<le> a" and "b \<le> (2 ^ 28 - 1) * 2 ^ 36" and "a * 2 ^ e \<le> x" and "x < b * 2 ^ e"
  shows "lead_not_full x"
  unfolding lead_not_full_def
proof (intro allI notI)
  fix n
  assume n: "(2 ^ 28 - 1) * 2 ^ n \<le> x \<and> x < 2 ^ 28 * 2 ^ n"
  have "2 ^ (63 + e) \<le> a * 2 ^ e"
    using assms(1) by (simp add: power_add)
  also have "\<dots> \<le> x"
    by (rule assms(3))
  also have "\<dots> < 2 ^ (28 + n)"
    using n by (simp only: power_add)
  finally have "(2 :: nat) ^ (63 + e) < 2 ^ (28 + n)" .
  then have "36 + e \<le> n"
    using power_less_imp_less_exp [of "2 :: nat" "63 + e" "28 + n"] by simp
  then have "(2 :: nat) ^ (36 + e) \<le> 2 ^ n"
    by (rule power_increasing) simp
  then have "(2 ^ 28 - 1) * (2 ^ 36 * 2 ^ e) \<le> (2 ^ 28 - 1) * (2 :: nat) ^ n"
    unfolding power_add by (rule mult_le_mono2)
  moreover have "b * 2 ^ e \<le> (2 ^ 28 - 1) * 2 ^ 36 * 2 ^ e"
    using assms(2) by (rule mult_le_mono1)
  ultimately have "b * 2 ^ e \<le> x"
    using n unfolding mult.assoc by (meson order.trans)
  then show False
    using assms(4) by simp
qed

lemma div_bounds:
  fixes a w s x :: nat
  assumes "0 < s" and "a * E \<le> x" and "x < (a + w) * E"
  shows "5 * a div s * (s * E) \<le> 5 * x" and "5 * x < (5 * a div s + (5 * w div s + 2)) * (s * E)"
proof -
  have "5 * a div s * s \<le> 5 * a"
    by simp
  then have "5 * a div s * s * E \<le> 5 * a * E"
    by (rule mult_le_mono1)
  also have "\<dots> \<le> 5 * x"
    using assms(2) by simp
  finally show "5 * a div s * (s * E) \<le> 5 * x"
    by (simp only: mult.assoc)
  have "5 * a < (5 * a div s + 1) * s" "5 * w < (5 * w div s + 1) * s"
    using assms(1) by (simp_all add: dividend_less_times_div mult.commute)
  then have "5 * (a + w) \<le> (5 * a div s + (5 * w div s + 2)) * s"
    by (simp add: algebra_simps)
  then have "5 * (a + w) * E \<le> (5 * a div s + (5 * w div s + 2)) * s * E"
    by (rule mult_le_mono1)
  moreover have "5 * x < 5 * ((a + w) * E)"
    using assms(3) by simp
  ultimately show "5 * x < (5 * a div s + (5 * w div s + 2)) * (s * E)"
    by (simp only: mult.assoc)
qed

lemma lead_check_sound:
  assumes "lead_check n a w" and "a * 2 ^ e \<le> 5 ^ k" and "5 ^ k < (a + w) * 2 ^ e" and "k < m" and "m \<le> k + n"
  shows "lead_not_full (5 ^ m)"
  using assms
proof (induction n arbitrary: a w e k)
  case (Suc n)
  define s :: nat where "s = (if 5 * a < 2 ^ 66 then 4 else 8)"
  define a' w' where "a' = 5 * a div s" and "w' = 5 * w div s + 2"
  obtain t where t: "s = 2 ^ t"
  proof (cases "5 * a < 2 ^ 66")
    case True
    then show ?thesis
      using that [of 2] by (simp add: s_def)
  next
    case False
    then show ?thesis
      using that [of 3] by (simp add: s_def)
  qed
  have chk: "2 ^ 63 \<le> a'" "a' + w' \<le> (2 ^ 28 - 1) * 2 ^ 36" "lead_check n a' w'"
    using Suc.prems(1) by (simp_all add: Let_def a'_def w'_def s_def)
  have "0 < s"
    by (simp add: s_def)
  from div_bounds [OF this Suc.prems(2,3)]
  have b: "a' * 2 ^ (t + e) \<le> 5 ^ Suc k" "5 ^ Suc k < (a' + w') * 2 ^ (t + e)"
    by (simp_all add: a'_def w'_def t power_add)
  show ?case
  proof (cases "m = Suc k")
    case True
    then show ?thesis
      using lead_not_full_interval [OF chk(1,2) b] by simp
  next
    case False
    then show ?thesis
      using Suc.IH [OF chk(3) b] Suc.prems(4,5) by simp
  qed
qed simp

lemma lead_check_numeral:
  "lead_check (numeral n) a w \<longleftrightarrow>
    (if 5 * a < 2 ^ 66
     then 2 ^ 63 \<le> 5 * a div 4 \<and> 5 * a div 4 + (5 * w div 4 + 2) \<le> (2 ^ 28 - 1) * 2 ^ 36 \<and>
       lead_check (pred_numeral n) (5 * a div 4) (5 * w div 4 + 2)
     else 2 ^ 63 \<le> 5 * a div 8 \<and> 5 * a div 8 + (5 * w div 8 + 2) \<le> (2 ^ 28 - 1) * 2 ^ 36 \<and>
       lead_check (pred_numeral n) (5 * a div 8) (5 * w div 8 + 2))"
  by (simp only: numeral_eq_Suc [of n] lead_check.simps Let_def split: if_split) simp

lemma lead_check_330: "lead_check 302 9313225746154785156 1"
  by (simp add: lead_check_numeral)

lemma lead_not_full_direct:
  assumes "2 ^ 27 * 2 ^ m \<le> x" and "x < (2 ^ 28 - 1) * 2 ^ m"
  shows "lead_not_full x"
  unfolding lead_not_full_def
proof (intro allI notI)
  fix n
  assume n: "(2 ^ 28 - 1) * 2 ^ n \<le> x \<and> x < 2 ^ 28 * 2 ^ n"
  then have "(2 :: nat) ^ (27 + m) < 2 ^ (28 + n)"
    using assms(1) unfolding power_add by linarith
  then have "m \<le> n"
    using power_less_imp_less_exp [of "2 :: nat" "27 + m" "28 + n"] by simp
  then have "(2 ^ 28 - 1) * (2 :: nat) ^ m \<le> (2 ^ 28 - 1) * 2 ^ n"
    by (intro mult_le_mono2 power_increasing) simp_all
  then show False
    using n assms(2) by (meson leD order.trans)
qed

lemma lead_five:
  assumes "k \<le> 330"
  shows "lead_not_full (5 ^ k)"
proof -
  consider "k \<le> 12" | "13 \<le> k" "k \<le> 28" | "28 < k"
    by linarith
  then show ?thesis
  proof cases
    case 1
    have "(5 :: nat) ^ k \<le> 5 ^ 12"
      using 1 by (rule power_increasing) simp
    also have "\<dots> < 2 ^ 28 - 1"
      by simp
    finally have lt: "(5 :: nat) ^ k < 2 ^ 28 - 1" .
    have "(2 ^ 28 - 1) * 1 \<le> (2 ^ 28 - 1) * (2 :: nat) ^ n" for n
      by (rule mult_le_mono2) simp
    then have "\<not> (2 ^ 28 - 1) * 2 ^ n \<le> (5 :: nat) ^ k" for n
      using lt by (metis leD mult_1_right order.trans)
    then show ?thesis
      by (simp add: lead_not_full_def)
  next
    case 2
    have "\<forall>k\<in>set [13..<29]. 2 ^ 27 * 2 ^ (k * 2322 div 1000 - 27) \<le> (5 :: nat) ^ k \<and>
        (5 :: nat) ^ k < (2 ^ 28 - 1) * 2 ^ (k * 2322 div 1000 - 27)"
      by simp
    moreover have "k \<in> set [13..<29]"
      using 2 unfolding set_upt atLeastLessThan_iff by linarith
    ultimately show ?thesis
      using lead_not_full_direct by blast
  next
    case 3
    have "9313225746154785156 * 2 ^ 2 \<le> (5 :: nat) ^ 28" "(5 :: nat) ^ 28 < (9313225746154785156 + 1) * 2 ^ 2"
      by simp_all
    from lead_check_sound [OF lead_check_330 this 3] assms show ?thesis
      by simp
  qed
qed

lemma lead_not_full_shift:
  assumes "lead_not_full x" and "(2 ^ 28 - 1) * 2 ^ n \<le> x * 2 ^ j" and "x * 2 ^ j < 2 ^ 28 * 2 ^ n"
  shows False
proof (cases "j \<le> n")
  case True
  then obtain i where i: "n = i + j"
    by (metis le_iff_add add.commute)
  have "(2 ^ 28 - 1) * 2 ^ i * 2 ^ j \<le> x * 2 ^ j" "x * 2 ^ j < 2 ^ 28 * 2 ^ i * 2 ^ j"
    using assms(2,3) unfolding i power_add mult.assoc .
  then show False
    using assms(1) unfolding lead_not_full_def by simp
next
  case False
  then obtain i where i: "j = Suc i + n"
    by (metis add.commute add_Suc less_imp_Suc_add not_le)
  have "(2 ^ 28 - 1) * 2 ^ n \<le> x * 2 ^ Suc i * 2 ^ n" "x * 2 ^ Suc i * 2 ^ n < 2 ^ 28 * 2 ^ n"
    using assms(2,3) unfolding i power_add mult.assoc .
  then have "2 ^ 28 - 1 \<le> x * 2 ^ Suc i" "x * 2 ^ Suc i < 2 ^ 28"
    by simp_all
  then have "x * 2 ^ i * 2 = 268435455"
    by simp
  then show False
    by presburger
qed

lemma divisor_five_two:
  assumes "bignum_ok d" and "bvalue d = 5 ^ k * 2 ^ j" and "k \<le> 330"
  shows "divisor_ok d"
proof -
  have "bvalue d \<noteq> 0"
    by (simp add: assms(2))
  then have used: "used_digits d \<noteq> 0"
    using bvalue_zero_iff [OF assms(1)] by simp
  have "bigits d ! (used_digits d - 1) \<noteq> kBigitMask"
  proof
    assume full: "bigits d ! (used_digits d - 1) = kBigitMask"
    obtain t where t: "t = bigits d ! (used_digits d - 1)" "unat t * B28 ^ (BigitLength d - 1) \<le> bvalue d"
        "bvalue d < (unat t + 1) * B28 ^ (BigitLength d - 1)"
      using assms(1) used by (rule top_bigit_bounds)
    have "unat t = 2 ^ 28 - 1"
      unfolding t(1) full by (simp add: kBigitMask_eq)
    moreover have "B28 ^ (BigitLength d - 1) = 2 ^ (28 * (BigitLength d - 1))"
      by (simp add: power_mult)
    ultimately show False
      using lead_not_full_shift [OF lead_five [OF assms(3)]] t(2,3) unfolding assms(2) by (simp del: One_nat_def)
  qed
  then show ?thesis
    using assms(1) used by (simp add: divisor_ok_def)
qed

end
