(* ===== verification/Digit_Text.thy ===== *)
theory Digit_Text
  imports Positional
begin

text \<open>
  Text buffers of digits.  A \<open>char\<close> is the character with its code from 0 to 255; the arithmetic of
  the code on characters (\<open>c - '0'\<close>, \<open>'0' + digit\<close>) is arithmetic on the codes.  \<open>dec_value\<close> is the
  number that a buffer of decimal digits reads as, most significant digit first, and \<open>hex_value\<close>
  the one of a list of hexadecimal digit values.
\<close>

definition code_of :: "char \<Rightarrow> int" where
  "code_of c = of_char c"

definition char_at :: "int \<Rightarrow> char" where
  "char_at n = char_of n"

definition digit_char :: "nat \<Rightarrow> char" where
  "digit_char d = char_at (int d + code_of CHR ''0'')"

definition digit_of :: "char \<Rightarrow> nat" where
  "digit_of c = nat (code_of c - code_of CHR ''0'')"

definition is_digit :: "char \<Rightarrow> bool" where
  "is_digit c \<longleftrightarrow> 0 \<le> code_of c - code_of CHR ''0'' \<and> code_of c - code_of CHR ''0'' \<le> 9"

lemma code_of_0 [simp]: "code_of CHR ''0'' = 48"
  by (simp add: code_of_def)

lemma code_of_char_at: "0 \<le> n \<Longrightarrow> n < 256 \<Longrightarrow> code_of (char_at n) = n"
  by (simp add: code_of_def char_at_def of_char_of)

lemma digit_of_digit_char [simp]: "d \<le> 9 \<Longrightarrow> digit_of (digit_char d) = d"
  by (simp add: digit_of_def digit_char_def code_of_char_at)

lemma is_digit_digit_char [simp]: "d \<le> 9 \<Longrightarrow> is_digit (digit_char d)"
  by (simp add: is_digit_def digit_char_def code_of_char_at)

lemma code_of_digit_char: "d \<le> 207 \<Longrightarrow> code_of (digit_char d) = int d + 48"
  by (simp add: digit_char_def code_of_char_at)

lemma digit_of_le: "is_digit c \<Longrightarrow> digit_of c \<le> 9"
  by (auto simp: is_digit_def digit_of_def nat_le_iff)

lemma code_of_digit: "is_digit c \<Longrightarrow> code_of c = int (digit_of c) + 48"
  by (simp add: is_digit_def digit_of_def)

lemma code_of_inj: "code_of c = code_of d \<longleftrightarrow> c = d"
  by (simp add: code_of_def)

lemma digit_char_digit_of: "is_digit c \<Longrightarrow> digit_char (digit_of c) = c"
  by (simp add: code_of_digit_char digit_of_le [THEN order_trans] code_of_digit flip: code_of_inj)

definition dec_value :: "char list \<Rightarrow> nat" where
  "dec_value cs = foldl (\<lambda>n c. n * 10 + digit_of c) 0 cs"

lemma dec_value_Nil [simp]: "dec_value [] = 0"
  by (simp add: dec_value_def)

lemma dec_value_snoc [simp]: "dec_value (cs @ [c]) = dec_value cs * 10 + digit_of c"
  by (simp add: dec_value_def)

lemma dec_value_append: "dec_value (xs @ ys) = dec_value xs * 10 ^ length ys + dec_value ys"
  by (induction ys rule: rev_induct) (simp_all add: algebra_simps flip: append_assoc)

lemma dec_value_Cons: "dec_value (c # cs) = digit_of c * 10 ^ length cs + dec_value cs"
  using dec_value_append [of "[c]" cs] by (simp add: dec_value_def)

lemma dec_value_less: "\<forall>c\<in>set cs. is_digit c \<Longrightarrow> dec_value cs < 10 ^ length cs"
proof (induction cs rule: rev_induct)
  case (snoc c cs)
  then have "dec_value cs < 10 ^ length cs" "digit_of c \<le> 9"
    by (simp_all add: digit_of_le)
  then show ?case
    by simp
qed simp

lemma dec_value_take_Suc:
  "i < length cs \<Longrightarrow> dec_value (take (Suc i) cs) = dec_value (take i cs) * 10 + digit_of (cs ! i)"
  by (simp add: take_Suc_conv_app_nth)

lemma dec_value_zeros: "dec_value (replicate n CHR ''0'') = 0"
  by (induction n) (simp_all add: dec_value_Cons digit_of_def)

end
