(* ===== verification/Bignum_Decimal.thy ===== *)
theory Bignum_Decimal
  imports Bignum_Multiply Digit_Text
begin

unbundle bit_operations_syntax

text \<open>
  The assignment of a decimal string of \<open>bignum.cc\<close>: \<open>ReadUInt64\<close> and \<open>AssignDecimalString\<close>, which
  takes the digits in groups of 19.
\<close>

definition ReadUInt64_digit :: "char list \<Rightarrow> nat \<Rightarrow> u64 \<Rightarrow> u64 option" where
  "ReadUInt64_digit buffer i result = do {
     c \<leftarrow> rd buffer i;
     let digit = code_of c - code_of CHR ''0'';
     ASSERT (0 \<le> digit \<and> digit \<le> 9);
     Some (result * 10 + word_of_int digit) }"

definition ReadUInt64 :: "char list \<Rightarrow> nat \<Rightarrow> nat \<Rightarrow> u64 option" where
  "ReadUInt64 buffer from digits_to_read =
    for_up from (from + digits_to_read) (ReadUInt64_digit buffer) 0"

definition kMaxUint64DecimalDigits :: nat where "kMaxUint64DecimalDigits = 19"

definition AssignDecimalString_group :: "char list \<Rightarrow> nat \<times> nat \<times> bignum \<Rightarrow> (nat \<times> nat \<times> bignum) option" where
  "AssignDecimalString_group value = (\<lambda>(pos, length, b). do {
     digits \<leftarrow> ReadUInt64 value pos kMaxUint64DecimalDigits;
     b \<leftarrow> MultiplyByPowerOfTen b kMaxUint64DecimalDigits;
     b \<leftarrow> AddUInt64 b digits;
     Some (pos + kMaxUint64DecimalDigits, length - kMaxUint64DecimalDigits, b) })"

definition AssignDecimalString :: "bignum \<Rightarrow> char list \<Rightarrow> bignum option" where
  "AssignDecimalString b value = do {
     b \<leftarrow> Zero b;
     (pos, length, b) \<leftarrow> while_opt (\<lambda>(pos, length, b). kMaxUint64DecimalDigits \<le> length)
                          (AssignDecimalString_group value) (0, length value, b);
     digits \<leftarrow> ReadUInt64 value pos length;
     b \<leftarrow> MultiplyByPowerOfTen b length;
     b \<leftarrow> AddUInt64 b digits;
     Clamp b }"

lemma ReadUInt64_wp:
  assumes "\<forall>c\<in>set buffer. is_digit c" and "from + n \<le> length buffer" and "n \<le> 19"
  shows "wp (ReadUInt64 buffer from n) (\<lambda>v. unat v = dec_value (take n (drop from buffer)))"
  unfolding ReadUInt64_def
proof (rule for_up_rule [where I = "\<lambda>i v. unat v = dec_value (take (i - from) (drop from buffer))"])
  fix i and v :: u64
  assume i: "from \<le> i" "i < from + n" and v: "unat v = dec_value (take (i - from) (drop from buffer))"
  have len: "i < length buffer" "i - from < length (drop from buffer)"
    using i assms(2) by simp_all
  let ?c = "buffer ! i"
  have c: "is_digit ?c"
    using assms(1) len(1) by simp
  have "\<forall>c\<in>set (take (i - from) (drop from buffer)). is_digit c"
    using assms(1) by (auto dest!: in_set_takeD in_set_dropD)
  then have "unat v < 10 ^ length (take (i - from) (drop from buffer))"
    unfolding v by (rule dec_value_less)
  also have "\<dots> \<le> 10 ^ 18"
    using i assms(3) by (intro power_increasing) simp_all
  finally have v18: "unat v < 10 ^ 18" .
  define w :: u64 where "w = word_of_int (code_of ?c - code_of CHR ''0'')"
  have w: "unat w = digit_of ?c"
    using digit_of_le [OF c] by (simp add: w_def code_of_digit [OF c] take_bit_nat_eq_self unsigned_of_nat)
  have "unat (v * 10 + w) = unat v * 10 + digit_of ?c"
    using v18 digit_of_le [OF c] by (simp add: unat_plus unat_times w)
  also have "\<dots> = dec_value (take (Suc i - from) (drop from buffer))"
    using i len by (simp add: v Suc_diff_le dec_value_take_Suc)
  finally show "wp (ReadUInt64_digit buffer i v) (\<lambda>v. unat v = dec_value (take (Suc i - from) (drop from buffer)))"
    using len(1) c by (simp only: ReadUInt64_digit_def wp_simps is_digit_def w_def Let_def simp_thms)
qed (use assms in auto)

text \<open>A length for which the value is sure to fit, with the last bigit left for a shift.\<close>

lemma ten_power_less: "(10 :: nat) ^ 1054 < B28 ^ 127"
proof -
  have "((10 :: nat) ^ 31) ^ 34 < (2 ^ 103) ^ 34"
    by (rule power_strict_mono) simp_all
  also have "(2 ^ 103) ^ 34 \<le> ((2 :: nat) ^ 28) ^ 127"
    unfolding power_mult [symmetric] by (rule power_increasing) simp_all
  finally have "((10 :: nat) ^ 31) ^ 34 < (2 ^ 28) ^ 127" .
  moreover have "(1054 :: nat) = 31 * 34" and "B28 = 2 ^ 28"
    by simp_all
  ultimately show ?thesis
    by (simp only: power_mult)
qed

text \<open>The state between the groups: the value of the digits read so far, with no hidden zeros.\<close>

definition decimal_inv :: "char list \<Rightarrow> nat \<times> nat \<times> bignum \<Rightarrow> bool" where
  "decimal_inv value = (\<lambda>(pos, n, b). pos + n = length value \<and> bignum_ok b \<and> exponent b = 0 \<and>
     bvalue b = dec_value (take pos value))"

lemma bignum_append_digits_wp:
  assumes digits: "\<forall>c\<in>set value. is_digit c" and len: "length value \<le> 1054"
    and inv: "decimal_inv value (pos, n, b)" and k: "k \<le> n" "k \<le> 19"
  shows "wp (do { digits \<leftarrow> ReadUInt64 value pos k; b \<leftarrow> MultiplyByPowerOfTen b k; AddUInt64 b digits })
    (\<lambda>r. decimal_inv value (pos + k, n - k, r))"
proof -
  have b: "bignum_ok b" "exponent b = 0" "bvalue b = dec_value (take pos value)" "pos + n = length value"
    using inv by (simp_all add: decimal_inv_def)
  obtain v where v: "ReadUInt64 value pos k = Some v" "unat v = dec_value (take k (drop pos value))"
    using ReadUInt64_wp [OF digits, of pos k] b(4) k by (auto elim!: wpE)
  have sig: "bsig b = dec_value (take pos value)"
    using b(2,3) by (simp add: bvalue_def)
  have "dec_value (take pos value) < 10 ^ length (take pos value)"
    by (rule dec_value_less) (use digits in \<open>auto dest: in_set_takeD\<close>)
  also have "length (take pos value) = pos"
    using b(4) by simp
  finally have "10 ^ k * dec_value (take pos value) < 10 ^ k * 10 ^ pos"
    by (rule mult_strict_left_mono) simp
  also have "\<dots> \<le> 10 ^ 1054"
    unfolding power_add [symmetric] using b(4) k len by (intro power_increasing) simp_all
  also have "\<dots> < B28 ^ 127"
    by (rule ten_power_less)
  finally have big: "10 ^ k * dec_value (take pos value) < B28 ^ 127" .
  have "5 ^ k * bsig b \<le> 10 ^ k * dec_value (take pos value)"
    unfolding sig by (intro mult_le_mono1 power_mono) simp_all
  also note big
  finally have "wp (MultiplyByPowerOfTen b k) (\<lambda>r. bignum_ok r \<and> bvalue r = 10 ^ k * bvalue b \<and>
      (used_digits b \<noteq> 0 \<longrightarrow> exponent r = exponent b + k div 28))"
    by (rule MultiplyByPowerOfTen_wp [OF b(1)])
  then obtain r where r: "MultiplyByPowerOfTen b k = Some r" "bignum_ok r" "bvalue r = 10 ^ k * bvalue b"
      "used_digits b \<noteq> 0 \<longrightarrow> exponent r = exponent b + k div 28"
    by (auto elim: wpE)
  have "exponent r = 0"
  proof (cases "used_digits b = 0")
    case True
    then have "bvalue r = 0"
      using r(3) by (simp add: bvalue_def)
    then show ?thesis
      using r(2) by (simp add: bvalue_zero_iff) (simp add: bignum_ok_def)
  next
    case False
    then show ?thesis
      using r(4) b(2) k(2) by simp
  qed
  moreover have "BigitLength r \<le> 127"
    by (rule BigitLength_le) (use r(2,3) b(3) big in simp_all)
  ultimately have "wp (AddUInt64 r v) (\<lambda>x. bignum_ok x \<and> bvalue x = bvalue r + unat v \<and> exponent x = 0)"
    using AddUInt64_wp [OF r(2), of v] by (auto elim!: wp_mono)
  moreover have "bvalue r + unat v = dec_value (take (pos + k) value)"
    using b(3,4) k by (simp add: r(3) v(2) take_add dec_value_append)
  ultimately show ?thesis
    using b(4) k by (auto simp: v(1) r(1) decimal_inv_def elim!: wp_mono)
qed

lemma AssignDecimalString_wp:
  assumes rep: "bignum_rep b" and digits: "\<forall>c\<in>set value. is_digit c" and len: "length value \<le> 1054"
  shows "wp (AssignDecimalString b value) (\<lambda>r. bignum_ok r \<and> bvalue r = dec_value value \<and> exponent r = 0)"
proof -
  have z: "Zero b = Some Bignum_new"
    using Zero_wp [OF rep] by (auto elim: wpE)
  have "wp (while_opt (\<lambda>(pos, length, b). kMaxUint64DecimalDigits \<le> length)
      (AssignDecimalString_group value) (0, length value, Bignum_new))
    (\<lambda>t. decimal_inv value t \<and> fst (snd t) < 19)"
  proof (rule while_opt_rule [where I = "decimal_inv value" and m = "\<lambda>t. fst (snd t)"])
    fix t :: "nat \<times> nat \<times> bignum"
    assume I: "decimal_inv value t" and c: "case t of (pos, n, b) \<Rightarrow> kMaxUint64DecimalDigits \<le> n"
    obtain pos n b where t: "t = (pos, n, b)" by (cases t)
    have n: "19 \<le> n"
      using c by (simp add: t kMaxUint64DecimalDigits_def)
    show "wp (AssignDecimalString_group value t) (\<lambda>u. decimal_inv value u \<and> fst (snd u) < fst (snd t))"
      using bignum_append_digits_wp [OF digits len I [unfolded t] n] n
      by (auto simp: t AssignDecimalString_group_def kMaxUint64DecimalDigits_def wp_simps elim!: wp_mono)
  qed (auto simp: decimal_inv_def kMaxUint64DecimalDigits_def)
  then obtain pos n r where w: "while_opt (\<lambda>(pos, length, b). kMaxUint64DecimalDigits \<le> length)
      (AssignDecimalString_group value) (0, length value, Bignum_new) = Some (pos, n, r)"
      "decimal_inv value (pos, n, r)" "n \<le> 19"
    by (rule wpE) (auto simp: split_paired_all)
  show ?thesis
    using bignum_append_digits_wp [OF digits len w(2) order_refl w(3)] w(2)
    by (auto simp: AssignDecimalString_def z w(1) wp_simps decimal_inv_def elim!: wp_mono intro!: Clamp_wp' [THEN wp_mono])
qed

end
