(* ===== verification/Bignum_Hex.thy ===== *)
theory Bignum_Hex
  imports Bignum_Add Digit_Text
begin

unbundle bit_operations_syntax

text \<open>
  Hexadecimal text of \<open>bignum.cc\<close>: \<open>HexCharValue\<close>, \<open>AssignHexString\<close>, \<open>SizeInHexChars\<close>,
  \<open>HexCharOfValue\<close> and \<open>ToHexString\<close>.  The \<open>char*\<close> buffer that \<open>ToHexString\<close> fills is a list of
  characters; a write outside it stops the model.
\<close>

definition HexCharValue :: "char \<Rightarrow> int option" where
  "HexCharValue c =
    (if code_of CHR ''0'' \<le> code_of c \<and> code_of c \<le> code_of CHR ''9'' then Some (code_of c - code_of CHR ''0'')
     else if code_of CHR ''a'' \<le> code_of c \<and> code_of c \<le> code_of CHR ''f'' then Some (10 + code_of c - code_of CHR ''a'')
     else do {
       ASSERT (code_of CHR ''A'' \<le> code_of c \<and> code_of c \<le> code_of CHR ''F'');
       Some (10 + code_of c - code_of CHR ''A'') })"

text \<open>Seven characters make one bigit, read from the end of the text.\<close>

definition AssignHexString_bigit :: "char list \<Rightarrow> nat \<Rightarrow> nat \<times> u32 list \<Rightarrow> (nat \<times> u32 list) option" where
  "AssignHexString_bigit value i = (\<lambda>(remaining, bs). do {
     (remaining, current_bigit) \<leftarrow> for_up 0 (kBigitSize div 4)
       (\<lambda>j (remaining, current_bigit). do {
          ASSERT (0 < remaining);
          c \<leftarrow> rd value (remaining - 1);
          v \<leftarrow> HexCharValue c;
          Some (remaining - 1, current_bigit + word_of_int (v * 2 ^ (j * 4))) }) (remaining, 0);
     bs \<leftarrow> wr bs i current_bigit;
     Some (remaining, bs) })"

definition AssignHexString :: "bignum \<Rightarrow> char list \<Rightarrow> bignum option" where
  "AssignHexString b value = do {
     b \<leftarrow> Zero b;
     let needed_bigits = length value * 4 div kBigitSize + 1;
     EnsureCapacity needed_bigits;
     (remaining, bs) \<leftarrow> for_up 0 (needed_bigits - 1) (AssignHexString_bigit value) (length value, bigits b);
     let used = needed_bigits - 1;
     most_significant_bigit \<leftarrow> for_up 0 remaining
       (\<lambda>j m. do { c \<leftarrow> rd value j; v \<leftarrow> HexCharValue c; Some (push_bit 4 m + word_of_int v) }) (0 :: u32);
     if most_significant_bigit \<noteq> 0 then do {
       bs \<leftarrow> wr bs used most_significant_bigit;
       Clamp (b\<lparr>bigits := bs, used_digits := used + 1\<rparr>) }
     else Clamp (b\<lparr>bigits := bs, used_digits := used\<rparr>) }"

definition SizeInHexChars :: "u32 \<Rightarrow> nat option" where
  "SizeInHexChars number = do {
     ASSERT (0 < number);
     (number, result) \<leftarrow> while_opt (\<lambda>(number, result). number \<noteq> 0)
       (\<lambda>(number, result). Some (drop_bit 4 number, result + 1)) (number, 0);
     Some result }"

definition HexCharOfValue :: "int \<Rightarrow> char option" where
  "HexCharOfValue value = do {
     ASSERT (0 \<le> value \<and> value \<le> 16);
     if value < 10 then Some (char_at (value + code_of CHR ''0''))
     else Some (char_at (value - 10 + code_of CHR ''A'')) }"

text \<open>Writing goes from the end: \<open>string_index\<close> is one past the next character to write.\<close>

definition put_back :: "char \<Rightarrow> nat \<times> char list \<Rightarrow> (nat \<times> char list) option" where
  "put_back c = (\<lambda>(string_index, buffer). do {
     ASSERT (0 < string_index);
     buffer \<leftarrow> wr buffer (string_index - 1) c;
     Some (string_index - 1, buffer) })"

definition put_hex :: "u32 \<times> nat \<times> char list \<Rightarrow> (u32 \<times> nat \<times> char list) option" where
  "put_hex = (\<lambda>(bigit, s). do {
     c \<leftarrow> HexCharOfValue (sint (bigit AND 0xF));
     s \<leftarrow> put_back c s;
     Some (drop_bit 4 bigit, s) })"

definition ToHexString :: "bignum \<Rightarrow> char list \<Rightarrow> nat \<Rightarrow> (bool \<times> char list) option" where
  "ToHexString b buffer buffer_size = do {
     ASSERT_IsClamped b;
     ASSERT (kBigitSize mod 4 = 0);
     let kHexCharsPerBigit = kBigitSize div 4;
     if used_digits b = 0 then
       if buffer_size < 2 then Some (False, buffer)
       else do {
         buffer \<leftarrow> wr buffer 0 CHR ''0'';
         buffer \<leftarrow> wr buffer 1 CHR 0x00;
         Some (True, buffer) }
     else do {
       top \<leftarrow> top_bigit b;
       size \<leftarrow> SizeInHexChars top;
       let needed_chars = (BigitLength b - 1) * kHexCharsPerBigit + size + 1;
       if buffer_size < needed_chars then Some (False, buffer)
       else do {
         s \<leftarrow> put_back CHR 0x00 (needed_chars, buffer);
         s \<leftarrow> for_up 0 (exponent b) (\<lambda>i s. for_up 0 kHexCharsPerBigit (\<lambda>j. put_back CHR ''0'') s) s;
         s \<leftarrow> for_up 0 (used_digits b - 1) (\<lambda>i s. do {
                current_bigit \<leftarrow> rd (bigits b) i;
                (rest, s) \<leftarrow> for_up 0 kHexCharsPerBigit (\<lambda>j. put_hex) (current_bigit, s);
                Some s }) s;
         (rest, string_index, buffer) \<leftarrow> while_opt (\<lambda>(bigit, s). bigit \<noteq> 0) put_hex (top, s);
         Some (True, buffer) } } }"

end
