(* ===== verification/Digit_Generation.thy ===== *)
theory Digit_Generation
  imports Digit_Text Prelude Complex_Main
begin

text \<open>
  What the digit generators share: a loop that asks a source for one digit after the other and
  writes it to the buffer, and the two ways in which the last digits of a buffer change (a last
  digit that is rounded up, and the carry of a digit ten).  The generators of \<open>bignum-dtoa.cc\<close> and
  of \<open>fixed-dtoa.cc\<close> differ in the number they hold (bignums, a 64 bit and a 128 bit fixed-point
  number); the locale \<open>digit_source\<close> states what each of them promises for one digit, and proves
  what the loop has produced after a number of digits.
\<close>

section \<open>Operations on buffers\<close>

text \<open>\<open>buffer[i]++\<close>\<close>

definition incr :: "char list \<Rightarrow> nat \<Rightarrow> char list option" where
  "incr buffer i = do { c \<leftarrow> rd buffer i; wr buffer i (char_at (code_of c + 1)) }"

definition digit_ten :: char where "digit_ten = char_at (code_of CHR ''0'' + 10)"

text \<open>\<open>for (int i = n; i > 0; --i) { if (buffer[i] != '0' + 10) break; buffer[i] = '0'; buffer[i - 1]++; }\<close>\<close>

primrec propagate_carry :: "nat \<Rightarrow> char list \<Rightarrow> char list option" where
  "propagate_carry 0 buffer = Some buffer"
| "propagate_carry (Suc i) buffer = do {
     c \<leftarrow> rd buffer (Suc i);
     if c \<noteq> digit_ten then Some buffer
     else do { buffer \<leftarrow> wr buffer (Suc i) (CHR ''0''); buffer \<leftarrow> incr buffer i; propagate_carry i buffer } }"

text \<open>
  \<open>if (buffer[0] == '0' + 10) { buffer[0] = '1'; (*decimal_point)++; }\<close>
\<close>

definition carry_past_top :: "char list \<Rightarrow> int \<Rightarrow> (char list \<times> int) option" where
  "carry_past_top buffer decimal_point = do {
     c \<leftarrow> rd buffer 0;
     if c = digit_ten then do { buffer \<leftarrow> wr buffer 0 (CHR ''1''); Some (buffer, decimal_point + 1) }
     else Some (buffer, decimal_point) }"

text \<open>
  The digit loop: at most \<open>n\<close> digits, stopping early when the source is \<open>finished\<close>.
\<close>

primrec emit_digits :: "('s \<Rightarrow> (nat \<times> 's) option) \<Rightarrow> ('s \<Rightarrow> bool) \<Rightarrow> nat \<Rightarrow>
    's \<times> char list \<times> nat \<Rightarrow> ('s \<times> char list \<times> nat) option" where
  "emit_digits step finished 0 t = Some t"
| "emit_digits step finished (Suc n) t = (case t of (s, buffer, len) \<Rightarrow>
     if finished s then Some t
     else do {
       (digit, s) \<leftarrow> step s;
       buffer \<leftarrow> wr buffer len (digit_char digit);
       emit_digits step finished n (s, buffer, len + 1) })"

section \<open>The value of a part of a buffer\<close>

definition part :: "char list \<Rightarrow> nat \<Rightarrow> nat \<Rightarrow> char list" where
  "part buffer i j = take (j - i) (drop i buffer)"

definition digits_in :: "char list \<Rightarrow> nat \<Rightarrow> nat \<Rightarrow> bool" where
  "digits_in buffer i j \<longleftrightarrow> j \<le> length buffer \<and> (\<forall>k. i \<le> k \<and> k < j \<longrightarrow> is_digit (buffer ! k))"

lemma length_part [simp]: "j \<le> length buffer \<Longrightarrow> length (part buffer i j) = j - i"
  by (simp add: part_def min_absorb2)

lemma part_Suc: "i \<le> j \<Longrightarrow> j < length buffer \<Longrightarrow> part buffer i (Suc j) = part buffer i j @ [buffer ! j]"
  by (simp add: part_def Suc_diff_le take_Suc_conv_app_nth)

lemma part_update_ge [simp]: "j \<le> k \<Longrightarrow> part (buffer[k := c]) i j = part buffer i j"
  by (cases "i \<le> j") (simp_all add: part_def take_drop)

lemma part_empty [simp]: "part buffer i i = []"
  by (simp add: part_def)

lemma part_split: "i \<le> j \<Longrightarrow> j \<le> k \<Longrightarrow> part buffer i k = part buffer i j @ part buffer j k"
  using take_add [of "j - i" "k - j" "drop i buffer"] by (simp add: part_def drop_drop)

lemma digits_in_Suc:
  "i \<le> j \<Longrightarrow> digits_in buffer i (Suc j) \<longleftrightarrow> digits_in buffer i j \<and> j < length buffer \<and> is_digit (buffer ! j)"
  by (auto simp: digits_in_def less_Suc_eq)

lemma digits_in_update [simp]: "j \<le> k \<Longrightarrow> digits_in (buffer[k := c]) i j = digits_in buffer i j"
  by (auto simp: digits_in_def)

lemma part_nth: "j \<le> length buffer \<Longrightarrow> m < j - i \<Longrightarrow> part buffer i j ! m = buffer ! (i + m)"
  by (simp add: part_def)

lemma digits_in_part:
  assumes "digits_in buffer i j"
  shows "\<forall>c\<in>set (part buffer i j). is_digit c"
proof
  fix c
  assume "c \<in> set (part buffer i j)"
  then obtain m where "m < length (part buffer i j)" "part buffer i j ! m = c"
    by (auto simp: in_set_conv_nth)
  then show "is_digit c"
    using assms by (auto simp: digits_in_def part_nth)
qed

lemma dec_value_part_less: "digits_in buffer i j \<Longrightarrow> dec_value (part buffer i j) < 10 ^ (j - i)"
  using dec_value_less [OF digits_in_part] by (auto simp: digits_in_def)

lemma dec_value_part_Suc:
  "i \<le> j \<Longrightarrow> j < length buffer \<Longrightarrow> dec_value (part buffer i (Suc j)) = dec_value (part buffer i j) * 10 + digit_of (buffer ! j)"
  by (simp add: part_Suc)

section \<open>The carry\<close>

lemma code_of_digit_ten: "code_of digit_ten = 58" "digit_of digit_ten = 10"
  by (simp_all add: digit_ten_def digit_of_def code_of_char_at)

lemma incr_digit:
  assumes "is_digit c" and "d = char_at (code_of c + 1)"
  shows "digit_of d = digit_of c + 1" and "is_digit d \<or> d = digit_ten" and "c \<noteq> CHR ''9'' \<Longrightarrow> is_digit d"
proof -
  have c: "48 \<le> code_of c" "code_of c \<le> 57"
    using assms(1) by (simp_all add: is_digit_def)
  then have d: "code_of d = code_of c + 1"
    by (simp add: assms(2) code_of_char_at)
  then show "digit_of d = digit_of c + 1"
    using c by (simp add: digit_of_def)
  show "is_digit d \<or> d = digit_ten"
    using c by (auto simp: is_digit_def d code_of_digit_ten simp flip: code_of_inj)
  have "code_of CHR ''9'' = 57"
    by (simp add: code_of_def)
  then show "is_digit d" if "c \<noteq> CHR ''9''"
    using that c by (auto simp: is_digit_def d simp flip: code_of_inj)
qed

definition last_may_be_ten :: "char list \<Rightarrow> nat \<Rightarrow> bool" where
  "last_may_be_ten buffer i \<longleftrightarrow> digits_in buffer 0 i \<and> i < length buffer \<and> (is_digit (buffer ! i) \<or> buffer ! i = digit_ten)"

lemma propagate_carry_wp:
  assumes "last_may_be_ten buffer i"
  shows "wp (propagate_carry i buffer) (\<lambda>b. length b = length buffer \<and> (is_digit (b ! 0) \<or> b ! 0 = digit_ten) \<and>
    (\<forall>k. 0 < k \<and> k \<le> i \<longrightarrow> is_digit (b ! k)) \<and> (\<forall>k>i. b ! k = buffer ! k) \<and>
    dec_value (part b 0 (Suc i)) = dec_value (part buffer 0 (Suc i)))"
  using assms
proof (induction i arbitrary: buffer)
  case 0
  then show ?case
    by (simp add: last_may_be_ten_def)
next
  case (Suc i)
  have len: "Suc i < length buffer" and digits: "digits_in buffer 0 (Suc i)"
    using Suc.prems by (simp_all add: last_may_be_ten_def)
  show ?case
  proof (cases "buffer ! Suc i = digit_ten")
    case False
    then show ?thesis
      using Suc.prems by (auto simp: last_may_be_ten_def wp_simps digits_in_def less_Suc_eq_le le_Suc_eq)
  next
    case True
    have c: "is_digit (buffer ! i)" "digits_in buffer 0 i"
      using digits by (simp_all add: digits_in_Suc)
    define d where "d = char_at (code_of (buffer ! i) + 1)"
    note d = incr_digit [OF c(1) d_def]
    define b where "b = buffer[Suc i := CHR ''0'', i := d]"
    have "last_may_be_ten b i"
      using c d(2) len by (simp add: last_may_be_ten_def b_def)
    note IH = Suc.IH [OF this]
    have b_i: "b ! i = d" "b ! Suc i = CHR ''0''" "length b = length buffer" "part b 0 i = part buffer 0 i"
      using len by (simp_all add: b_def)
    have "dec_value (part b 0 (Suc i)) = dec_value (part buffer 0 (Suc i)) + 1"
      using len d(1) by (simp add: dec_value_part_Suc b_i)
    then have sum: "dec_value (part b 0 (Suc i)) * 10 = dec_value (part buffer 0 (Suc (Suc i)))"
      using len by (simp add: dec_value_part_Suc [of 0 "Suc i"] True code_of_digit_ten)
    have zero: "digit_of CHR ''0'' = 0" "is_digit CHR ''0''"
      by (simp_all add: digit_of_def is_digit_def)
    have "propagate_carry (Suc i) buffer = propagate_carry i b"
      using len True by (simp add: rd_def wr_def incr_def b_def d_def)
    moreover have "wp (propagate_carry i b) (\<lambda>r. length r = length buffer \<and> (is_digit (r ! 0) \<or> r ! 0 = digit_ten) \<and>
        (\<forall>k. 0 < k \<and> k \<le> Suc i \<longrightarrow> is_digit (r ! k)) \<and> (\<forall>k>Suc i. r ! k = buffer ! k) \<and>
        dec_value (part r 0 (Suc (Suc i))) = dec_value (part buffer 0 (Suc (Suc i))))"
    proof (rule wp_mono [OF IH])
      fix r
      assume r: "length r = length b \<and> (is_digit (r ! 0) \<or> r ! 0 = digit_ten) \<and>
        (\<forall>k. 0 < k \<and> k \<le> i \<longrightarrow> is_digit (r ! k)) \<and> (\<forall>k>i. r ! k = b ! k) \<and>
        dec_value (part r 0 (Suc i)) = dec_value (part b 0 (Suc i))"
      then have "r ! Suc i = CHR ''0''" "\<forall>k>Suc i. r ! k = buffer ! k"
        by (simp_all add: b_i) (simp add: b_def)
      moreover from this r have "dec_value (part r 0 (Suc (Suc i))) = dec_value (part buffer 0 (Suc (Suc i)))"
        using len sum by (simp add: dec_value_part_Suc [of 0 "Suc i"] b_i zero)
      ultimately show "length r = length buffer \<and> (is_digit (r ! 0) \<or> r ! 0 = digit_ten) \<and>
        (\<forall>k. 0 < k \<and> k \<le> Suc i \<longrightarrow> is_digit (r ! k)) \<and> (\<forall>k>Suc i. r ! k = buffer ! k) \<and>
        dec_value (part r 0 (Suc (Suc i))) = dec_value (part buffer 0 (Suc (Suc i)))"
        using r zero(2) by (auto simp: b_i le_Suc_eq)
    qed
    ultimately show ?thesis
      by simp
  qed
qed

lemma last_may_be_ten_le:
  assumes "last_may_be_ten buffer i"
  shows "dec_value (part buffer 0 (Suc i)) \<le> 10 ^ Suc i"
proof -
  have "dec_value (part buffer 0 i) < 10 ^ (i - 0)"
    by (rule dec_value_part_less) (use assms in \<open>simp add: last_may_be_ten_def\<close>)
  moreover have "digit_of (buffer ! i) \<le> 10"
    using assms by (auto simp: last_may_be_ten_def code_of_digit_ten dest: digit_of_le)
  ultimately show ?thesis
    using assms by (simp add: dec_value_part_Suc last_may_be_ten_def)
qed

lemma part_first: "0 < j \<Longrightarrow> j \<le> length buffer \<Longrightarrow> part buffer 0 j = buffer ! 0 # part buffer 1 j"
  using part_split [of 0 1 j buffer] part_Suc [of 0 0 buffer] by (cases buffer) auto

lemma part_update_less: "k < i \<Longrightarrow> part (buffer[k := c]) i j = part buffer i j"
  by (simp add: part_def drop_update_cancel)

text \<open>
  The two steps together: either the digits keep their value, or they were all nines, and the value
  goes to the next power of ten, one digit shorter.
\<close>

lemma round_carry_wp:
  assumes "last_may_be_ten buffer i"
  shows "wp (do { b \<leftarrow> propagate_carry i buffer; carry_past_top b dp }) (\<lambda>(b, dp'). length b = length buffer \<and>
    digits_in b 0 (Suc i) \<and> (\<forall>k>i. b ! k = buffer ! k) \<and>
    (dp' = dp \<and> dec_value (part b 0 (Suc i)) = dec_value (part buffer 0 (Suc i)) \<or>
     dp' = dp + 1 \<and> dec_value (part b 0 (Suc i)) * 10 = dec_value (part buffer 0 (Suc i)) \<and>
     dec_value (part b 0 (Suc i)) = 10 ^ i))"
  unfolding wp_bind
proof (rule wp_mono [OF propagate_carry_wp [OF assms]])
  fix b
  assume b: "length b = length buffer \<and> (is_digit (b ! 0) \<or> b ! 0 = digit_ten) \<and>
    (\<forall>k. 0 < k \<and> k \<le> i \<longrightarrow> is_digit (b ! k)) \<and> (\<forall>k>i. b ! k = buffer ! k) \<and>
    dec_value (part b 0 (Suc i)) = dec_value (part buffer 0 (Suc i))"
  have len: "i < length b"
    using b assms by (simp add: last_may_be_ten_def)
  let ?Q = "\<lambda>(b', dp'). length b' = length buffer \<and> digits_in b' 0 (Suc i) \<and> (\<forall>k>i. b' ! k = buffer ! k) \<and>
    (dp' = dp \<and> dec_value (part b' 0 (Suc i)) = dec_value (part buffer 0 (Suc i)) \<or>
     dp' = dp + 1 \<and> dec_value (part b' 0 (Suc i)) * 10 = dec_value (part buffer 0 (Suc i)) \<and>
     dec_value (part b' 0 (Suc i)) = 10 ^ i)"
  show "wp (carry_past_top b dp) ?Q"
  proof (cases "b ! 0 = digit_ten")
    case False
    then have "\<forall>k\<le>i. is_digit (b ! k)"
      using b by (metis neq0_conv)
    then show ?thesis
      using b len False by (auto simp: carry_past_top_def wp_simps digits_in_def less_Suc_eq_le)
  next
    case True
    define r where "r = b[0 := CHR ''1'']"
    have one: "is_digit CHR ''1''" "digit_of CHR ''1'' = 1"
      by (simp_all add: is_digit_def digit_of_def code_of_def)
    have ne: "b \<noteq> []"
      using len by auto
    then have r0: "r ! 0 = CHR ''1''"
      by (simp add: r_def)
    have eqs: "part b 0 (Suc i) = digit_ten # part b 1 (Suc i)" "part r 0 (Suc i) = CHR ''1'' # part b 1 (Suc i)"
      using len ne by (simp_all add: part_first r_def part_update_less True)
    have "dec_value (part b 0 (Suc i)) = 10 * 10 ^ i + dec_value (part b 1 (Suc i))"
      using len by (simp add: eqs dec_value_Cons code_of_digit_ten)
    moreover have "dec_value (part b 0 (Suc i)) \<le> 10 ^ Suc i"
      using last_may_be_ten_le [OF assms] b by simp
    ultimately have "dec_value (part b 1 (Suc i)) = 0" "dec_value (part buffer 0 (Suc i)) = 10 * 10 ^ i"
      using b by simp_all
    moreover from this have "dec_value (part r 0 (Suc i)) = 10 ^ i"
      using len by (simp add: eqs dec_value_Cons one)
    moreover have "is_digit (r ! k)" if "k \<le> i" for k
      using that b one r0 by (cases "k = 0") (simp_all add: r_def)
    then have "digits_in r 0 (Suc i)" "\<forall>k>i. r ! k = buffer ! k" "length r = length buffer"
      using b len by (auto simp: r_def digits_in_def less_Suc_eq_le)
    moreover have "carry_past_top b dp = Some (r, dp + 1)"
      using len True by (cases b) (simp_all add: carry_past_top_def rd_def wr_def r_def)
    ultimately show ?thesis
      by simp
  qed
qed

section \<open>What a source of digits promises\<close>

locale digit_source =
  fixes step :: "'s \<Rightarrow> (nat \<times> 's) option" and finished :: "'s \<Rightarrow> bool"
    and inv :: "'s \<Rightarrow> bool" and val :: "'s \<Rightarrow> real"
  assumes val_range: "inv s \<Longrightarrow> 0 \<le> val s \<and> val s < 10"
    and step_wp: "inv s \<Longrightarrow> \<not> finished s \<Longrightarrow>
      wp (step s) (\<lambda>(d, s'). inv s' \<and> int d = \<lfloor>val s\<rfloor> \<and> val s' = 10 * (val s - real d))"
    and finished_zero: "inv s \<Longrightarrow> finished s \<Longrightarrow> val s = 0"
begin

lemma digit_le: "inv s \<Longrightarrow> int d = \<lfloor>val s\<rfloor> \<Longrightarrow> d \<le> 9"
  using val_range [of s] by linarith

text \<open>
  After \<open>k\<close> digits, the number that they read as and what is left in the source make up the value
  at the start; fewer than \<open>n\<close> digits only when nothing is left.
\<close>

lemma emit_digits_wp:
  assumes "inv s" and "len + n \<le> length buffer"
  shows "wp (emit_digits step finished n (s, buffer, len)) (\<lambda>(s', buffer', len'). \<exists>k\<le>n. len' = len + k \<and>
    inv s' \<and> digits_in buffer' len len' \<and> length buffer' = length buffer \<and>
    (\<forall>i<len. buffer' ! i = buffer ! i) \<and> val s * 10 ^ k = 10 * real (dec_value (part buffer' len len')) + val s' \<and>
    (k < n \<longrightarrow> finished s'))"
  using assms
proof (induction n arbitrary: s buffer len)
  case 0
  then show ?case
    by (auto simp: digits_in_def)
next
  case (Suc n)
  show ?case
  proof (cases "finished s")
    case True
    then show ?thesis
      using Suc.prems by (intro wpI [where x = "(s, buffer, len)"]) (auto simp: digits_in_def)
  next
    case False
    obtain d t where t: "step s = Some (d, t)" and I: "inv t" and d: "int d = \<lfloor>val s\<rfloor>" and v: "val t = 10 * (val s - real d)"
      using step_wp [OF Suc.prems(1) False] by (auto elim: wp_pairE)
    have d9: "d \<le> 9"
      using Suc.prems(1) d by (rule digit_le)
    let ?b = "buffer[len := digit_char d]"
    have "wp (emit_digits step finished n (t, ?b, len + 1)) (\<lambda>(s', buffer', len'). \<exists>k\<le>n. len' = len + 1 + k \<and>
        inv s' \<and> digits_in buffer' (len + 1) len' \<and> length buffer' = length ?b \<and>
        (\<forall>i<len + 1. buffer' ! i = ?b ! i) \<and> val t * 10 ^ k = 10 * real (dec_value (part buffer' (len + 1) len')) + val s' \<and>
        (k < n \<longrightarrow> finished s'))"
      by (rule Suc.IH [OF I]) (use Suc.prems in simp)
    then obtain s' buffer' k where r: "emit_digits step finished n (t, ?b, len + 1) = Some (s', buffer', len + 1 + k)" "k \<le> n" "inv s'"
        "digits_in buffer' (len + 1) (len + 1 + k)" "length buffer' = length buffer" "\<forall>i<len + 1. buffer' ! i = ?b ! i"
        "val t * 10 ^ k = 10 * real (dec_value (part buffer' (len + 1) (len + 1 + k))) + val s'" "k < n \<longrightarrow> finished s'"
      by (auto elim!: wpE)
    have first: "buffer' ! len = digit_char d"
      using r(6) Suc.prems(2) by simp
    have "part buffer' len (len + 1 + k) = digit_char d # part buffer' (len + 1) (len + 1 + k)"
      using part_split [of len "len + 1" "len + 1 + k" buffer'] part_Suc [of len len buffer'] r(5) Suc.prems(2) first by simp
    then have "real (dec_value (part buffer' len (len + 1 + k))) = real d * 10 ^ k + real (dec_value (part buffer' (len + 1) (len + 1 + k)))"
      using r(4) d9 by (simp add: dec_value_Cons digits_in_def)
    moreover have "val s * 10 ^ Suc k = 10 * real d * 10 ^ k + val t * 10 ^ k"
      by (simp add: v algebra_simps)
    ultimately have "val s * 10 ^ Suc k = 10 * real (dec_value (part buffer' len (len + 1 + k))) + val s'"
      using r(7) by simp
    moreover have "digits_in buffer' len (len + 1 + k)"
      using r(4) first d9 by (auto simp: digits_in_def) (metis Suc_leI is_digit_digit_char le_neq_implies_less)
    ultimately show ?thesis
      using r Suc.prems False t by (intro wpI [where x = "(s', buffer', len + Suc k)"]) (auto simp: wr_def intro!: exI [of _ "Suc k"])
  qed
qed

end

end
