(* ===== verification/Diy_Fp.thy ===== *)
theory Diy_Fp
  imports Machine_Words Complex_Main
begin

unbundle bit_operations_syntax

text \<open>
  \<open>class DiyFp\<close> of \<open>diy-fp.h\<close> and \<open>diy-fp.cc\<close>: a 64 bit significand and an int exponent.
  \<open>diy_value\<close> is the number that it stands for.  The product is the exact one of the two
  significands, rounded half up to its upper 64 bits.
\<close>

record diy_fp =
  dfp_f :: u64
  dfp_e :: int

definition DiyFp :: "u64 \<Rightarrow> int \<Rightarrow> diy_fp" where
  "DiyFp significand exponent = \<lparr>dfp_f = significand, dfp_e = exponent\<rparr>"

definition kDiyFpSignificandSize :: int where "kDiyFpSignificandSize = 64"
definition kUint64MSB :: u64 where "kUint64MSB = 0x8000000000000000"
definition k10MSBits :: u64 where "k10MSBits = 0xFFC0000000000000"

definition Subtract :: "diy_fp \<Rightarrow> diy_fp \<Rightarrow> diy_fp option" where
  "Subtract this other = do {
     ASSERT (dfp_e this = dfp_e other);
     ASSERT (dfp_f other \<le> dfp_f this);
     Some (this\<lparr>dfp_f := dfp_f this - dfp_f other\<rparr>) }"

definition Minus :: "diy_fp \<Rightarrow> diy_fp \<Rightarrow> diy_fp option" where
  "Minus a b = Subtract a b"

definition Multiply :: "diy_fp \<Rightarrow> diy_fp \<Rightarrow> diy_fp" where
  "Multiply this other = (
     let kM32 = 0xFFFFFFFF;
         a = drop_bit 32 (dfp_f this);
         b = dfp_f this AND kM32;
         c = drop_bit 32 (dfp_f other);
         d = dfp_f other AND kM32;
         ac = a * c;
         bc = b * c;
         ad = a * d;
         bd = b * d;
         tmp = drop_bit 32 bd + (ad AND kM32) + (bc AND kM32);
         tmp = tmp + push_bit 31 1;
         result_f = ac + drop_bit 32 ad + drop_bit 32 bc + drop_bit 32 tmp
     in this\<lparr>dfp_e := dfp_e this + dfp_e other + 64, dfp_f := result_f\<rparr>)"

definition Times :: "diy_fp \<Rightarrow> diy_fp \<Rightarrow> diy_fp" where
  "Times a b = Multiply a b"

definition shift_up :: "nat \<Rightarrow> u64 \<times> int \<Rightarrow> (u64 \<times> int) option" where
  "shift_up n = (\<lambda>(f, e). Some (push_bit n f, e - int n))"

definition Normalize :: "diy_fp \<Rightarrow> diy_fp option" where
  "Normalize this = do {
     ASSERT (dfp_f this \<noteq> 0);
     s \<leftarrow> while_opt (\<lambda>(f, e). f AND k10MSBits = 0) (shift_up 10) (dfp_f this, dfp_e this);
     (f, e) \<leftarrow> while_opt (\<lambda>(f, e). f AND kUint64MSB = 0) (shift_up 1) s;
     Some (this\<lparr>dfp_f := f, dfp_e := e\<rparr>) }"

section \<open>The number it stands for\<close>

declare of_nat_unat [simp del]

definition diy_value :: "diy_fp \<Rightarrow> real" where
  "diy_value x = real (unat (dfp_f x)) * 2 powi dfp_e x"

lemma diy_value_DiyFp [simp]: "diy_value (DiyFp f e) = real (unat f) * 2 powi e"
  by (simp add: diy_value_def DiyFp_def)

lemma DiyFp_simps [simp]: "dfp_f (DiyFp f e) = f" "dfp_e (DiyFp f e) = e"
  by (simp_all add: DiyFp_def)

lemma two_powi_add: "(2 :: real) powi (a + b) = 2 powi a * 2 powi b"
  by (simp add: power_int_add)

lemma two_powi_nat: "(2 :: real) powi int n = 2 ^ n"
  by simp

section \<open>Subtraction\<close>

lemma Subtract_wp:
  assumes "dfp_e a = dfp_e b" and "dfp_f b \<le> dfp_f a"
  shows "wp (Subtract a b) (\<lambda>r. dfp_e r = dfp_e a \<and> unat (dfp_f r) = unat (dfp_f a) - unat (dfp_f b) \<and>
    diy_value r = diy_value a - diy_value b)"
proof -
  have le: "unat (dfp_f b) \<le> unat (dfp_f a)"
    using assms(2) by (simp add: word_le_nat_alt)
  have "unat (dfp_f a - dfp_f b) = unat (dfp_f a) - unat (dfp_f b)"
    using le by (rule unat_minus)
  then show ?thesis
    using assms le by (simp add: Subtract_def wp_simps diy_value_def of_nat_diff algebra_simps)
qed

section \<open>Multiplication\<close>

text \<open>Schoolbook multiplication on two 32 bit halves, on numbers.\<close>

lemma halves_product:
  fixes a b c d :: nat
  assumes "tmp = b * d div 2 ^ 32 + a * d mod 2 ^ 32 + b * c mod 2 ^ 32 + 2 ^ 31"
  shows "((a * 2 ^ 32 + b) * (c * 2 ^ 32 + d) + 2 ^ 63) div 2 ^ 64 =
    a * c + a * d div 2 ^ 32 + b * c div 2 ^ 32 + tmp div 2 ^ 32"
proof -
  define q1 r1 where "q1 = a * d div 2 ^ 32" and "r1 = a * d mod 2 ^ 32"
  define q2 r2 where "q2 = b * c div 2 ^ 32" and "r2 = b * c mod 2 ^ 32"
  define q3 r3 where "q3 = b * d div 2 ^ 32" and "r3 = b * d mod 2 ^ 32"
  define q4 r4 where "q4 = tmp div 2 ^ 32" and "r4 = tmp mod 2 ^ 32"
  have eqs: "a * d = q1 * 2 ^ 32 + r1" "b * c = q2 * 2 ^ 32 + r2" "b * d = q3 * 2 ^ 32 + r3" "tmp = q4 * 2 ^ 32 + r4"
    by (simp_all only: q1_def r1_def q2_def r2_def q3_def r3_def q4_def r4_def div_mult_mod_eq)
  have less: "r3 < 2 ^ 32" "r4 < 2 ^ 32"
    by (simp_all add: r3_def r4_def)
  have t: "q4 * 2 ^ 32 + r4 = q3 + r1 + r2 + 2 ^ 31"
    using assms unfolding eqs(4) [symmetric] by (simp only: q3_def r1_def r2_def)
  have "(a * 2 ^ 32 + b) * (c * 2 ^ 32 + d) + 2 ^ 63 =
      a * c * 2 ^ 64 + (a * d) * 2 ^ 32 + (b * c) * 2 ^ 32 + b * d + 2 ^ 63"
    by (simp add: algebra_simps)
  also have "\<dots> = (a * c + q1 + q2) * 2 ^ 64 + (q3 + r1 + r2 + 2 ^ 31) * 2 ^ 32 + r3"
    unfolding eqs by (simp add: algebra_simps)
  also have "\<dots> = r4 * 2 ^ 32 + r3 + (a * c + q1 + q2 + q4) * 2 ^ 64"
    unfolding t [symmetric] by (simp add: algebra_simps)
  also have "\<dots> div 2 ^ 64 = a * c + q1 + q2 + q4"
    using less by (subst div_mult_self1) simp_all
  finally show ?thesis
    by (simp only: q1_def q2_def q4_def)
qed

text \<open>No sum on the way wraps: the parts of the result are below its exact value.\<close>

lemma rounded_product_less:
  fixes x y :: u64
  shows "(unat x * unat y + 2 ^ 63) div 2 ^ 64 < 2 ^ 64"
proof -
  have "unat x * unat y \<le> (2 ^ 64 - 1) * (2 ^ 64 - 1)"
    using unat_lt64 [of x] unat_lt64 [of y] by (intro mult_le_mono) (simp_all del: unat_lt64)
  then have "unat x * unat y + 2 ^ 63 < 2 ^ 64 * 2 ^ 64"
    by simp
  then show ?thesis
    by (simp add: less_mult_imp_div_less)
qed

lemma mult_halves:
  fixes p q :: u64
  assumes "unat p < 2 ^ 32" and "unat q < 2 ^ 32"
  shows "unat (p * q) = unat p * unat q" and "unat p * unat q \<le> (2 ^ 32 - 1) * (2 ^ 32 - 1)"
proof -
  show le: "unat p * unat q \<le> (2 ^ 32 - 1) * (2 ^ 32 - 1)"
    using assms by (intro mult_le_mono) simp_all
  then show "unat (p * q) = unat p * unat q"
    by (intro unat_times) simp
qed

lemma Multiply_f: "unat (dfp_f (Multiply x y)) = (unat (dfp_f x) * unat (dfp_f y) + 2 ^ 63) div 2 ^ 64"
proof -
  define a b where "a = drop_bit 32 (dfp_f x)" and "b = dfp_f x AND 0xFFFFFFFF"
  define c d where "c = drop_bit 32 (dfp_f y)" and "d = dfp_f y AND 0xFFFFFFFF"
  define tmp where "tmp = drop_bit 32 (b * d) + (a * d AND 0xFFFFFFFF) + (b * c AND 0xFFFFFFFF) + push_bit 31 1"
  have ab: "unat (dfp_f x) = unat a * 2 ^ 32 + unat b" and cd: "unat (dfp_f y) = unat c * 2 ^ 32 + unat d"
    by (simp_all add: a_def b_def c_def d_def nat_words)
  have "unat (dfp_f x) < 2 ^ 64" "unat (dfp_f y) < 2 ^ 64"
    by simp_all
  then have small: "unat a < 2 ^ 32" "unat b < 2 ^ 32" "unat c < 2 ^ 32" "unat d < 2 ^ 32"
    by (simp_all add: a_def b_def c_def d_def nat_words less_mult_imp_div_less)
  note m = mult_halves [OF small(1,3)] mult_halves [OF small(2,3)] mult_halves [OF small(1,4)] mult_halves [OF small(2,4)]
  have t: "unat (drop_bit 32 (b * d)) = unat b * unat d div 2 ^ 32" "unat (a * d AND 0xFFFFFFFF) = unat a * unat d mod 2 ^ 32"
      "unat (b * c AND 0xFFFFFFFF) = unat b * unat c mod 2 ^ 32" "unat (push_bit 31 1 :: u64) = 2 ^ 31"
    by (simp_all add: nat_words m)
  have "unat b * unat d div 2 ^ 32 < 2 ^ 32" "unat a * unat d mod 2 ^ 32 < 2 ^ 32" "unat b * unat c mod 2 ^ 32 < 2 ^ 32"
    using m(8) by (simp_all add: less_mult_imp_div_less)
  with t have tmp: "unat tmp = unat b * unat d div 2 ^ 32 + unat a * unat d mod 2 ^ 32 + unat b * unat c mod 2 ^ 32 + 2 ^ 31"
    unfolding tmp_def by (simp add: unat_plus)
  let ?r = "unat a * unat c + unat a * unat d div 2 ^ 32 + unat b * unat c div 2 ^ 32 + unat tmp div 2 ^ 32"
  have exact: "(unat (dfp_f x) * unat (dfp_f y) + 2 ^ 63) div 2 ^ 64 = ?r"
    unfolding ab cd by (rule halves_product [OF tmp])
  with rounded_product_less [of "dfp_f x" "dfp_f y"] have less: "?r < 2 ^ 64"
    by simp
  have u: "unat (a * c) = unat a * unat c" "unat (drop_bit 32 (a * d)) = unat a * unat d div 2 ^ 32"
      "unat (drop_bit 32 (b * c)) = unat b * unat c div 2 ^ 32" "unat (drop_bit 32 tmp) = unat tmp div 2 ^ 32"
    by (simp_all add: nat_words m)
  have "dfp_f (Multiply x y) = a * c + drop_bit 32 (a * d) + drop_bit 32 (b * c) + drop_bit 32 tmp"
    by (simp add: Multiply_def Let_def a_def b_def c_def d_def tmp_def)
  moreover have "unat (a * c + drop_bit 32 (a * d)) = unat a * unat c + unat a * unat d div 2 ^ 32"
    using less by (subst unat_plus) (simp_all add: u)
  moreover from this have "unat (a * c + drop_bit 32 (a * d) + drop_bit 32 (b * c)) =
      unat a * unat c + unat a * unat d div 2 ^ 32 + unat b * unat c div 2 ^ 32"
    using less by (subst unat_plus) (simp_all add: u)
  ultimately have "unat (dfp_f (Multiply x y)) = ?r"
    using less by (simp add: u unat_plus)
  then show ?thesis
    by (simp only: exact)
qed

lemma Multiply_e [simp]: "dfp_e (Multiply x y) = dfp_e x + dfp_e y + 64"
  by (simp add: Multiply_def Let_def)

text \<open>The product is off by at most half a unit in the last place.\<close>

lemma round_div_error:
  fixes n :: nat
  shows "\<bar>real ((n + 2 ^ 63) div 2 ^ 64) * 2 ^ 64 - real n\<bar> \<le> 2 ^ 63"
proof -
  define q r where "q = (n + 2 ^ 63) div 2 ^ 64" and "r = (n + 2 ^ 63) mod 2 ^ 64"
  have eq: "n + 2 ^ 63 = q * 2 ^ 64 + r"
    by (simp only: q_def r_def div_mult_mod_eq)
  have "r < 2 ^ 64"
    by (simp add: r_def)
  moreover have "real n + 2 ^ 63 = real q * 2 ^ 64 + real r"
    using arg_cong [OF eq, of real] by simp
  ultimately show ?thesis
    unfolding q_def [symmetric] by (simp add: abs_le_iff)
qed

lemma Multiply_error:
  "\<bar>diy_value (Multiply x y) - diy_value x * diy_value y\<bar> \<le> 2 powi (dfp_e x + dfp_e y + 63)"
proof -
  let ?n = "unat (dfp_f x) * unat (dfp_f y)" and ?s = "2 powi (dfp_e x + dfp_e y) :: real"
  have "diy_value (Multiply x y) = real ((?n + 2 ^ 63) div 2 ^ 64) * 2 ^ 64 * ?s"
    unfolding diy_value_def Multiply_f Multiply_e two_powi_add [of "dfp_e x + dfp_e y"] by simp
  moreover have "diy_value x * diy_value y = real ?n * ?s"
    by (simp add: diy_value_def two_powi_add)
  ultimately have "diy_value (Multiply x y) - diy_value x * diy_value y =
      (real ((?n + 2 ^ 63) div 2 ^ 64) * 2 ^ 64 - real ?n) * ?s"
    by (simp only: left_diff_distrib)
  then have "\<bar>diy_value (Multiply x y) - diy_value x * diy_value y\<bar> =
      \<bar>real ((?n + 2 ^ 63) div 2 ^ 64) * 2 ^ 64 - real ?n\<bar> * ?s"
    by (simp add: abs_mult)
  also have "\<dots> \<le> 2 ^ 63 * ?s"
    by (rule mult_right_mono [OF round_div_error]) simp
  also have "\<dots> = 2 powi (dfp_e x + dfp_e y + 63)"
    unfolding two_powi_add [of "dfp_e x + dfp_e y"] by simp
  finally show ?thesis .
qed

section \<open>Normalisation\<close>

lemma masks_not: "k10MSBits = NOT (mask 54)" "kUint64MSB = NOT (mask 63)"
  by (simp_all add: k10MSBits_def kUint64MSB_def mask_numeral)

lemma shift_up_loop_wp:
  assumes f: "f \<noteq> 0" and n: "0 < n" "n \<le> m" "m \<le> 63" and up: "m + n \<le> 64"
  shows "wp (while_opt (\<lambda>(f, e). f AND NOT (mask m) = 0) (shift_up n) (f, e))
    (\<lambda>(f', e'). \<exists>k. unat f' = unat f * 2 ^ k \<and> e' = e - int k \<and> 2 ^ m \<le> unat f')"
proof (rule while_opt_rule [where I = "\<lambda>(f', e'). \<exists>k. unat f' = unat f * 2 ^ k \<and> e' = e - int k"
      and m = "\<lambda>(f', e'). 2 ^ 64 - unat f'"])
  fix t :: "u64 \<times> int"
  assume I: "case t of (f', e') \<Rightarrow> \<exists>k. unat f' = unat f * 2 ^ k \<and> e' = e - int k"
    and c: "case t of (f, e) \<Rightarrow> f AND NOT (mask m) = 0"
  obtain f' e' where t: "t = (f', e')" by (cases t)
  obtain k where k: "unat f' = unat f * 2 ^ k" "e' = e - int k"
    using I by (auto simp: t)
  have less: "unat f' < 2 ^ m"
    using c by (simp add: t and_not_mask_zero)
  then have "unat f' * 2 ^ n < 2 ^ m * 2 ^ n"
    by simp
  also have "\<dots> \<le> 2 ^ 64"
    unfolding power_add [symmetric] by (rule power_increasing [OF up]) simp
  finally have fits: "unat f' * 2 ^ n < 2 ^ 64" .
  then have p: "unat (push_bit n f') = unat f' * 2 ^ n"
    by (intro unat_push) simp
  have "0 < unat f"
    using f by (simp add: unat_eq_zero)
  then have "0 < unat f'"
    using k(1) by simp
  moreover have "(2 :: nat) ^ 1 \<le> 2 ^ n"
    using n(1) by (intro power_increasing) simp_all
  ultimately have "unat f' * 1 < unat f' * 2 ^ n"
    by (intro mult_strict_left_mono) simp_all
  then have "2 ^ 64 - unat (push_bit n f') < 2 ^ 64 - unat f'"
    using fits unfolding p by linarith
  moreover have "unat (push_bit n f') = unat f * 2 ^ (k + n)" "e' - int n = e - int (k + n)"
    unfolding p k by (simp_all add: power_add)
  ultimately show "wp (shift_up n t) (\<lambda>u. (case u of (f', e') \<Rightarrow> \<exists>k. unat f' = unat f * 2 ^ k \<and> e' = e - int k) \<and>
      (case u of (f', e') \<Rightarrow> 2 ^ 64 - unat f') < (case t of (f', e') \<Rightarrow> 2 ^ 64 - unat f'))"
    by (auto simp: t shift_up_def)
qed (auto simp: and_not_mask_zero not_less intro: exI [of _ 0])

lemma Normalize_wp:
  assumes "dfp_f x \<noteq> 0"
  shows "wp (Normalize x) (\<lambda>r. \<exists>k. unat (dfp_f r) = unat (dfp_f x) * 2 ^ k \<and> dfp_e r = dfp_e x - int k \<and>
    2 ^ 63 \<le> unat (dfp_f r))"
proof -
  obtain f1 e1 k1 where 1: "while_opt (\<lambda>(f, e). f AND k10MSBits = 0) (shift_up 10) (dfp_f x, dfp_e x) = Some (f1, e1)"
      "unat f1 = unat (dfp_f x) * 2 ^ k1" "e1 = dfp_e x - int k1" "2 ^ 54 \<le> unat f1"
    using shift_up_loop_wp [OF assms, of 10 54 "dfp_e x"] unfolding masks_not by (auto elim!: wpE)
  have "f1 \<noteq> 0"
    using 1(4) by (auto simp: unat_eq_zero)
  then obtain f2 e2 k2 where 2: "while_opt (\<lambda>(f, e). f AND kUint64MSB = 0) (shift_up 1) (f1, e1) = Some (f2, e2)"
      "unat f2 = unat f1 * 2 ^ k2" "e2 = e1 - int k2" "2 ^ 63 \<le> unat f2"
    using shift_up_loop_wp [of f1 1 63 e1] unfolding masks_not by (auto elim!: wpE)
  have "unat f2 = unat (dfp_f x) * 2 ^ (k1 + k2)" "e2 = dfp_e x - int (k1 + k2)"
    by (simp_all add: 1 2 power_add)
  then show ?thesis
    using assms 2(4) by (auto simp: Normalize_def wp_simps 1(1) 2(1) intro!: exI [of _ "k1 + k2"] simp del: One_nat_def)
qed

lemma scaled_value:
  assumes "unat (dfp_f r) = unat (dfp_f x) * 2 ^ k" and "dfp_e r = dfp_e x - int k"
  shows "diy_value r = diy_value x"
proof -
  have "(2 :: real) powi dfp_e x = 2 powi (dfp_e r + int k)"
    by (simp add: assms(2))
  then show ?thesis
    by (simp add: diy_value_def assms(1) two_powi_add)
qed

lemma Normalize_value:
  assumes "dfp_f x \<noteq> 0"
  shows "wp (Normalize x) (\<lambda>r. diy_value r = diy_value x \<and> 2 ^ 63 \<le> unat (dfp_f r))"
  using Normalize_wp [OF assms] by (rule wp_mono) (auto intro: scaled_value)

end
