(* ===== verification/Ieee.thy ===== *)
theory Ieee
  imports Diy_Fp
begin

unbundle bit_operations_syntax

text \<open>
  \<open>class Double\<close> and \<open>class Single\<close> of \<open>ieee.h\<close>.  A C++ \<open>double\<close> is its 64 bit pattern and a \<open>float\<close>
  its 32 bit pattern, which is all that the two classes look at (\<open>BitCast\<close>).  \<open>enc_val\<close> is the
  number that a pattern without sign encodes, in units of the smallest denormal; the locale
  \<open>ieee_encoding\<close> is what the conversion algorithms rely on, and both classes provide it.
\<close>

type_synonym double_bits = u64
type_synonym single_bits = u32

section \<open>Double\<close>

definition kSignMask :: u64 where "kSignMask = 0x8000000000000000"
definition kExponentMask :: u64 where "kExponentMask = 0x7FF0000000000000"
definition kSignificandMask :: u64 where "kSignificandMask = 0x000FFFFFFFFFFFFF"
definition kHiddenBit :: u64 where "kHiddenBit = 0x0010000000000000"
definition kPhysicalSignificandSize :: nat where "kPhysicalSignificandSize = 52"
definition kSignificandSize :: int where "kSignificandSize = 53"
definition kExponentBias :: int where "kExponentBias = 0x3FF + int kPhysicalSignificandSize"
definition kDenormalExponent :: int where "kDenormalExponent = - kExponentBias + 1"
definition kMaxExponent :: int where "kMaxExponent = 0x7FF - kExponentBias"
definition kInfinity :: u64 where "kInfinity = 0x7FF0000000000000"
definition kNaN :: u64 where "kNaN = 0x7FF8000000000000"

lemmas double_consts = kSignMask_def kExponentMask_def kSignificandMask_def kHiddenBit_def
  kPhysicalSignificandSize_def kSignificandSize_def kExponentBias_def kDenormalExponent_def
  kMaxExponent_def kInfinity_def kNaN_def

definition IsDenormal :: "double_bits \<Rightarrow> bool" where
  "IsDenormal d64 \<longleftrightarrow> d64 AND kExponentMask = 0"

definition IsSpecial :: "double_bits \<Rightarrow> bool" where
  "IsSpecial d64 \<longleftrightarrow> d64 AND kExponentMask = kExponentMask"

definition IsNan :: "double_bits \<Rightarrow> bool" where
  "IsNan d64 \<longleftrightarrow> d64 AND kExponentMask = kExponentMask \<and> d64 AND kSignificandMask \<noteq> 0"

definition IsInfinite :: "double_bits \<Rightarrow> bool" where
  "IsInfinite d64 \<longleftrightarrow> d64 AND kExponentMask = kExponentMask \<and> d64 AND kSignificandMask = 0"

definition Sign :: "double_bits \<Rightarrow> int" where
  "Sign d64 = (if d64 AND kSignMask = 0 then 1 else - 1)"

definition Exponent :: "double_bits \<Rightarrow> int" where
  "Exponent d64 =
    (if IsDenormal d64 then kDenormalExponent
     else uint (drop_bit kPhysicalSignificandSize (d64 AND kExponentMask)) - kExponentBias)"

definition Significand :: "double_bits \<Rightarrow> u64" where
  "Significand d64 =
    (let significand = d64 AND kSignificandMask in
     if \<not> IsDenormal d64 then significand + kHiddenBit else significand)"

text \<open>\<open>value() > 0.0\<close>, an IEEE comparison: false for zeros, negative numbers and NaN.\<close>

definition value_positive :: "double_bits \<Rightarrow> bool" where
  "value_positive d64 \<longleftrightarrow> 0 < Sign d64 \<and> \<not> IsNan d64 \<and> d64 \<noteq> 0"

definition AsDiyFp :: "double_bits \<Rightarrow> diy_fp option" where
  "AsDiyFp d64 = do {
     ASSERT (0 < Sign d64);
     ASSERT (\<not> IsSpecial d64);
     Some (DiyFp (Significand d64) (Exponent d64)) }"

definition AsNormalizedDiyFp :: "double_bits \<Rightarrow> diy_fp option" where
  "AsNormalizedDiyFp d64 = do {
     ASSERT (value_positive d64);
     (f, e) \<leftarrow> while_opt (\<lambda>(f, e). f AND kHiddenBit = 0) (shift_up 1) (Significand d64, Exponent d64);
     let shift = kDiyFpSignificandSize - kSignificandSize;
     Some (DiyFp (push_bit (nat shift) f) (e - shift)) }"

definition NextDouble :: "double_bits \<Rightarrow> double_bits" where
  "NextDouble d64 =
    (if d64 = kInfinity then kInfinity
     else if Sign d64 < 0 \<and> Significand d64 = 0 then 0
     else if Sign d64 < 0 then d64 - 1
     else d64 + 1)"

definition PreviousDouble :: "double_bits \<Rightarrow> double_bits" where
  "PreviousDouble d64 =
    (if d64 = kInfinity OR kSignMask then kInfinity OR kSignMask
     else if Sign d64 < 0 then d64 + 1
     else if Significand d64 = 0 then kSignMask
     else d64 - 1)"

definition UpperBoundary :: "double_bits \<Rightarrow> diy_fp option" where
  "UpperBoundary d64 = do {
     ASSERT (0 < Sign d64);
     Some (DiyFp (Significand d64 * 2 + 1) (Exponent d64 - 1)) }"

definition LowerBoundaryIsCloser :: "double_bits \<Rightarrow> bool" where
  "LowerBoundaryIsCloser d64 =
    (let physical_significand_is_zero = (d64 AND kSignificandMask = 0)
     in physical_significand_is_zero \<and> Exponent d64 \<noteq> kDenormalExponent)"

text \<open>
  The body of \<open>NormalizedBoundaries\<close>, the same text in both classes: the result is
  \<open>(*out_m_minus, *out_m_plus)\<close>.
\<close>

definition boundaries_of :: "diy_fp \<Rightarrow> bool \<Rightarrow> (diy_fp \<times> diy_fp) option" where
  "boundaries_of v lower_boundary_is_closer = do {
     m_plus \<leftarrow> Normalize (DiyFp (push_bit 1 (dfp_f v) + 1) (dfp_e v - 1));
     let m_minus = (if lower_boundary_is_closer then DiyFp (push_bit 2 (dfp_f v) - 1) (dfp_e v - 2)
                    else DiyFp (push_bit 1 (dfp_f v) - 1) (dfp_e v - 1));
     ASSERT (dfp_e m_plus \<le> dfp_e m_minus);
     Some (m_minus\<lparr>dfp_f := push_bit (nat (dfp_e m_minus - dfp_e m_plus)) (dfp_f m_minus),
                   dfp_e := dfp_e m_plus\<rparr>, m_plus) }"

definition NormalizedBoundaries :: "double_bits \<Rightarrow> (diy_fp \<times> diy_fp) option" where
  "NormalizedBoundaries d64 = do {
     ASSERT (value_positive d64);
     v \<leftarrow> AsDiyFp d64;
     boundaries_of v (LowerBoundaryIsCloser d64) }"

definition SignificandSizeForOrderOfMagnitude :: "int \<Rightarrow> int" where
  "SignificandSizeForOrderOfMagnitude order =
    (if kDenormalExponent + kSignificandSize \<le> order then kSignificandSize
     else if order \<le> kDenormalExponent then 0
     else order - kDenormalExponent)"

definition DiyFpToUint64 :: "diy_fp \<Rightarrow> u64 option" where
  "DiyFpToUint64 diy_fp = do {
     (significand, exponent) \<leftarrow> while_opt (\<lambda>(significand, exponent). kHiddenBit + kSignificandMask < significand)
       (\<lambda>(significand, exponent). Some (drop_bit 1 significand, exponent + 1)) (dfp_f diy_fp, dfp_e diy_fp);
     if kMaxExponent \<le> exponent then Some kInfinity
     else if exponent < kDenormalExponent then Some 0
     else do {
       (significand, exponent) \<leftarrow>
         while_opt (\<lambda>(significand, exponent). kDenormalExponent < exponent \<and> significand AND kHiddenBit = 0)
           (shift_up 1) (significand, exponent);
       let biased_exponent =
         (if exponent = kDenormalExponent \<and> significand AND kHiddenBit = 0 then 0
          else word_of_int (exponent + kExponentBias));
       Some ((significand AND kSignificandMask) OR push_bit kPhysicalSignificandSize biased_exponent) } }"

text \<open>The constructor \<open>Double(DiyFp)\<close>.\<close>

definition Double_of_DiyFp :: "diy_fp \<Rightarrow> double_bits option" where
  "Double_of_DiyFp diy_fp = DiyFpToUint64 diy_fp"

section \<open>Single\<close>

definition Single_kSignMask :: u32 where "Single_kSignMask = 0x80000000"
definition Single_kExponentMask :: u32 where "Single_kExponentMask = 0x7F800000"
definition Single_kSignificandMask :: u32 where "Single_kSignificandMask = 0x007FFFFF"
definition Single_kHiddenBit :: u32 where "Single_kHiddenBit = 0x00800000"
definition Single_kPhysicalSignificandSize :: nat where "Single_kPhysicalSignificandSize = 23"
definition Single_kSignificandSize :: int where "Single_kSignificandSize = 24"
definition Single_kExponentBias :: int where "Single_kExponentBias = 0x7F + int Single_kPhysicalSignificandSize"
definition Single_kDenormalExponent :: int where "Single_kDenormalExponent = - Single_kExponentBias + 1"
definition Single_kInfinity :: u32 where "Single_kInfinity = 0x7F800000"
definition Single_kNaN :: u32 where "Single_kNaN = 0x7FC00000"

lemmas single_consts = Single_kSignMask_def Single_kExponentMask_def Single_kSignificandMask_def
  Single_kHiddenBit_def Single_kPhysicalSignificandSize_def Single_kSignificandSize_def
  Single_kExponentBias_def Single_kDenormalExponent_def Single_kInfinity_def Single_kNaN_def

definition Single_IsDenormal :: "single_bits \<Rightarrow> bool" where
  "Single_IsDenormal d32 \<longleftrightarrow> d32 AND Single_kExponentMask = 0"

definition Single_IsSpecial :: "single_bits \<Rightarrow> bool" where
  "Single_IsSpecial d32 \<longleftrightarrow> d32 AND Single_kExponentMask = Single_kExponentMask"

definition Single_IsNan :: "single_bits \<Rightarrow> bool" where
  "Single_IsNan d32 \<longleftrightarrow> d32 AND Single_kExponentMask = Single_kExponentMask \<and> d32 AND Single_kSignificandMask \<noteq> 0"

definition Single_IsInfinite :: "single_bits \<Rightarrow> bool" where
  "Single_IsInfinite d32 \<longleftrightarrow> d32 AND Single_kExponentMask = Single_kExponentMask \<and> d32 AND Single_kSignificandMask = 0"

definition Single_Sign :: "single_bits \<Rightarrow> int" where
  "Single_Sign d32 = (if d32 AND Single_kSignMask = 0 then 1 else - 1)"

definition Single_Exponent :: "single_bits \<Rightarrow> int" where
  "Single_Exponent d32 =
    (if Single_IsDenormal d32 then Single_kDenormalExponent
     else uint (drop_bit Single_kPhysicalSignificandSize (d32 AND Single_kExponentMask)) - Single_kExponentBias)"

definition Single_Significand :: "single_bits \<Rightarrow> u32" where
  "Single_Significand d32 =
    (let significand = d32 AND Single_kSignificandMask in
     if \<not> Single_IsDenormal d32 then significand + Single_kHiddenBit else significand)"

definition Single_value_positive :: "single_bits \<Rightarrow> bool" where
  "Single_value_positive d32 \<longleftrightarrow> 0 < Single_Sign d32 \<and> \<not> Single_IsNan d32 \<and> d32 \<noteq> 0"

definition Single_AsDiyFp :: "single_bits \<Rightarrow> diy_fp option" where
  "Single_AsDiyFp d32 = do {
     ASSERT (0 < Single_Sign d32);
     ASSERT (\<not> Single_IsSpecial d32);
     Some (DiyFp (ucast (Single_Significand d32)) (Single_Exponent d32)) }"

definition Single_UpperBoundary :: "single_bits \<Rightarrow> diy_fp option" where
  "Single_UpperBoundary d32 = do {
     ASSERT (0 < Single_Sign d32);
     Some (DiyFp (ucast (Single_Significand d32 * 2 + 1)) (Single_Exponent d32 - 1)) }"

definition Single_LowerBoundaryIsCloser :: "single_bits \<Rightarrow> bool" where
  "Single_LowerBoundaryIsCloser d32 =
    (let physical_significand_is_zero = (d32 AND Single_kSignificandMask = 0)
     in physical_significand_is_zero \<and> Single_Exponent d32 \<noteq> Single_kDenormalExponent)"

definition Single_NormalizedBoundaries :: "single_bits \<Rightarrow> (diy_fp \<times> diy_fp) option" where
  "Single_NormalizedBoundaries d32 = do {
     ASSERT (Single_value_positive d32);
     v \<leftarrow> Single_AsDiyFp d32;
     boundaries_of v (Single_LowerBoundaryIsCloser d32) }"

section \<open>What a pattern encodes\<close>

text \<open>
  \<open>p\<close> is the physical size of the significand, \<open>n\<close> the pattern without its sign; the value is in
  units of the smallest denormal, so it is an integer.
\<close>

definition enc_sig :: "nat \<Rightarrow> nat \<Rightarrow> nat" where
  "enc_sig p n = (if n div 2 ^ p = 0 then n mod 2 ^ p else n mod 2 ^ p + 2 ^ p)"

definition enc_exp :: "nat \<Rightarrow> nat \<Rightarrow> nat" where
  "enc_exp p n = n div 2 ^ p - 1"

definition enc_val :: "nat \<Rightarrow> nat \<Rightarrow> nat" where
  "enc_val p n = enc_sig p n * 2 ^ enc_exp p n"

lemma div_mod_lin:
  fixes r B :: nat
  assumes "n = r + q * B" and "r < B"
  shows "n div B = q" and "n mod B = r"
  using assms by simp_all

text \<open>Two neighbours are one unit in the last place of the smaller one apart.\<close>

lemma enc_val_Suc: "enc_val p (Suc n) = enc_val p n + 2 ^ enc_exp p n"
proof -
  define q r where "q = n div 2 ^ p" and "r = n mod 2 ^ p"
  have r: "r < 2 ^ p"
    by (simp add: r_def)
  have n: "n = q * 2 ^ p + r"
    by (simp only: q_def r_def div_mult_mod_eq)
  show ?thesis
  proof (cases "Suc r = 2 ^ p")
    case True
    then have "Suc n = Suc q * 2 ^ p"
      using n by simp
    then have "Suc n div 2 ^ p = Suc q" "Suc n mod 2 ^ p = 0"
      by simp_all
    moreover have "r + 2 ^ p + 1 = 2 * 2 ^ p"
      using True by simp
    then have "(r + 2 ^ p) * 2 ^ (q - 1) + 2 ^ (q - 1) = 2 * 2 ^ p * 2 ^ (q - 1)"
      by (metis add_mult_distrib mult_1)
    ultimately show ?thesis
      using True by (cases q) (simp_all add: enc_val_def enc_sig_def enc_exp_def flip: q_def r_def)
  next
    case False
    then have "Suc r < 2 ^ p"
      using r by simp
    moreover have "Suc n = Suc r + q * 2 ^ p"
      using n by simp
    ultimately have "Suc n div 2 ^ p = q" "Suc n mod 2 ^ p = Suc r"
      using div_mod_lin by blast+
    then show ?thesis
      by (simp add: enc_val_def enc_sig_def enc_exp_def flip: q_def r_def)
  qed
qed

lemma enc_val_mono: "m < n \<Longrightarrow> enc_val p m < enc_val p n"
  by (rule lift_Suc_mono_less [of "enc_val p"]) (simp add: enc_val_Suc)

lemma enc_val_inject: "enc_val p m = enc_val p n \<longleftrightarrow> m = n"
  using enc_val_mono by (metis linorder_neq_iff)

lemma enc_val_less_iff: "enc_val p m < enc_val p n \<longleftrightarrow> m < n"
  by (metis enc_val_mono less_asym linorder_neqE_nat order_less_irrefl)

lemma enc_sig_less: "enc_sig p n < 2 ^ (p + 1)"
proof -
  have "n mod 2 ^ p < 2 ^ p"
    by simp
  then show ?thesis
    unfolding enc_sig_def by (auto simp del: mod_less_divisor)
qed

lemma enc_val_0 [simp]: "enc_val p 0 = 0"
  by (simp add: enc_val_def enc_sig_def)

definition enc_real :: "nat \<Rightarrow> int \<Rightarrow> nat \<Rightarrow> real" where
  "enc_real p den n = real (enc_val p n) * 2 powi den"

lemma enc_real_less_iff: "enc_real p den m < enc_real p den n \<longleftrightarrow> m < n"
  by (simp add: enc_real_def enc_val_less_iff)

lemma enc_exp_pred:
  assumes "0 < n"
  shows "enc_exp p (n - 1) = (if n mod 2 ^ p = 0 \<and> enc_exp p n \<noteq> 0 then enc_exp p n - 1 else enc_exp p n)"
proof -
  obtain m where m: "n = Suc m"
    using assms by (cases n) auto
  define q r where "q = m div 2 ^ p" and "r = m mod 2 ^ p"
  have r: "r < 2 ^ p" and mq: "m = q * 2 ^ p + r"
    by (simp add: r_def) (simp only: q_def r_def div_mult_mod_eq)
  show ?thesis
  proof (cases "Suc r = 2 ^ p")
    case True
    then have "n = Suc q * 2 ^ p"
      using mq m by simp
    then have "n div 2 ^ p = Suc q" "n mod 2 ^ p = 0"
      by simp_all
    then show ?thesis
      by (simp add: enc_exp_def m flip: q_def)
  next
    case False
    then have "Suc r < 2 ^ p"
      using r by simp
    moreover have "n = Suc r + q * 2 ^ p"
      using mq m by simp
    ultimately have "n div 2 ^ p = q" "n mod 2 ^ p = Suc r"
      using div_mod_lin by blast+
    then show ?thesis
      by (simp add: enc_exp_def m flip: q_def)
  qed
qed

text \<open>What the algorithms use of a floating point type: its two accessors and the closer boundary.\<close>

locale ieee_encoding =
  fixes p :: nat and den :: int
    and bits :: "'w \<Rightarrow> nat" and finite_pos :: "'w \<Rightarrow> bool"
    and significand :: "'w \<Rightarrow> nat" and expo :: "'w \<Rightarrow> int" and closer :: "'w \<Rightarrow> bool"
  assumes significand: "finite_pos w \<Longrightarrow> significand w = enc_sig p (bits w)"
    and expo: "finite_pos w \<Longrightarrow> expo w = den + int (enc_exp p (bits w))"
    and closer: "finite_pos w \<Longrightarrow> closer w \<longleftrightarrow> bits w mod 2 ^ p = 0 \<and> enc_exp p (bits w) \<noteq> 0"
begin

lemma value_eq:
  "finite_pos w \<Longrightarrow> real (significand w) * 2 powi expo w = enc_real p den (bits w)"
  by (simp add: significand expo enc_real_def enc_val_def two_powi_add)

lemma upper_midpoint:
  assumes "finite_pos w"
  shows "real (2 * significand w + 1) * 2 powi (expo w - 1) =
    (enc_real p den (bits w) + enc_real p den (Suc (bits w))) / 2"
proof -
  have "enc_real p den (Suc (bits w)) = enc_real p den (bits w) + 2 powi expo w"
    by (simp add: enc_real_def enc_val_Suc expo [OF assms] two_powi_add algebra_simps)
  moreover have "(2 :: real) powi (expo w - 1) = 2 powi expo w / 2"
    by (simp add: power_int_diff)
  ultimately show ?thesis
    by (simp add: value_eq [OF assms, symmetric] field_simps)
qed

lemma lower_midpoint:
  assumes "finite_pos w" and "0 < bits w"
  shows "(if closer w then (4 * real (significand w) - 1) * 2 powi (expo w - 2)
      else (2 * real (significand w) - 1) * 2 powi (expo w - 1)) =
    (enc_real p den (bits w - 1) + enc_real p den (bits w)) / 2"
proof -
  let ?n = "bits w"
  have e: "enc_exp p (?n - 1) = (if closer w then enc_exp p ?n - 1 else enc_exp p ?n)"
    unfolding enc_exp_pred [OF assms(2)] closer [OF assms(1)] by simp
  have "enc_val p ?n = enc_val p (?n - 1) + 2 ^ enc_exp p (?n - 1)"
    using enc_val_Suc [of p "?n - 1"] assms(2) by simp
  then have "enc_real p den ?n = enc_real p den (?n - 1) + 2 ^ enc_exp p (?n - 1) * 2 powi den"
    by (simp add: enc_real_def algebra_simps)
  moreover have "2 ^ enc_exp p (?n - 1) * (2 :: real) powi den = (if closer w then 2 powi expo w / 2 else 2 powi expo w)"
  proof (cases "closer w")
    case True
    then have "int (enc_exp p ?n - 1) = int (enc_exp p ?n) - 1"
      using closer [OF assms(1)] by simp
    then have "(2 :: real) ^ (enc_exp p ?n - 1) = 2 powi (int (enc_exp p ?n) - 1)"
      using two_powi_nat [of "enc_exp p ?n - 1"] by simp
    then show ?thesis
      using True e by (simp add: expo [OF assms(1)] two_powi_add power_int_diff)
  next
    case False
    then show ?thesis
      using e by (simp add: expo [OF assms(1)] two_powi_add)
  qed
  ultimately show ?thesis
    by (simp add: value_eq [OF assms(1), symmetric] power_int_diff field_simps split: if_splits)
qed

end

section \<open>Both classes provide it\<close>

lemma and_field: "x AND push_bit k (mask m) = push_bit k (take_bit m (drop_bit k x))" for x :: "'a::len word"
  by (rule bit_eqI) (auto simp: bit_simps)

lemma unat_field:
  fixes x :: "'a::len word"
  assumes "k + m \<le> LENGTH('a)"
  shows "unat (x AND push_bit k (mask m)) = unat x div 2 ^ k mod 2 ^ m * 2 ^ k"
proof -
  have "unat x div 2 ^ k mod 2 ^ m < 2 ^ m"
    by simp
  then have "unat x div 2 ^ k mod 2 ^ m * 2 ^ k < 2 ^ m * 2 ^ k"
    by simp
  also have "\<dots> \<le> 2 ^ LENGTH('a)"
    unfolding power_add [symmetric] using assms by (intro power_increasing) simp_all
  finally show ?thesis
    unfolding and_field by (subst unat_push) (simp_all only: unat_take unat_drop)
qed

lemma double_masks:
  "kSignMask = NOT (mask 63)" "kExponentMask = push_bit 52 (mask 11)" "kSignificandMask = mask 52" "kHiddenBit = push_bit 52 1"
  by (simp_all add: double_consts mask_numeral)

lemma single_masks:
  "Single_kSignMask = NOT (mask 31)" "Single_kExponentMask = push_bit 23 (mask 8)" "Single_kSignificandMask = mask 23"
  "Single_kHiddenBit = push_bit 23 1"
  by (simp_all add: single_consts mask_numeral)

lemma double_fields:
  "unat (d AND kExponentMask) = unat d div 2 ^ 52 mod 2 ^ 11 * 2 ^ 52" "unat (d AND kSignificandMask) = unat d mod 2 ^ 52"
  "0 < Sign d \<longleftrightarrow> unat d < 2 ^ 63"
  unfolding double_masks by (simp_all add: unat_field unat_and_mask Sign_def double_masks and_not_mask_zero)

lemma single_fields:
  "unat (d AND Single_kExponentMask) = unat d div 2 ^ 23 mod 2 ^ 8 * 2 ^ 23" "unat (d AND Single_kSignificandMask) = unat d mod 2 ^ 23"
  "0 < Single_Sign d \<longleftrightarrow> unat d < 2 ^ 31"
  unfolding single_masks by (simp_all add: unat_field unat_and_mask Single_Sign_def single_masks and_not_mask_zero)

definition double_finite_pos :: "double_bits \<Rightarrow> bool" where
  "double_finite_pos d \<longleftrightarrow> 0 < Sign d \<and> \<not> IsSpecial d"

definition single_finite_pos :: "single_bits \<Rightarrow> bool" where
  "single_finite_pos d \<longleftrightarrow> 0 < Single_Sign d \<and> \<not> Single_IsSpecial d"

lemma double_special:
  "IsSpecial d \<longleftrightarrow> unat d div 2 ^ 52 mod 2 ^ 11 = 2047" "IsDenormal d \<longleftrightarrow> unat d div 2 ^ 52 mod 2 ^ 11 = 0"
proof -
  have "unat kExponentMask = 2047 * 2 ^ 52"
    by (simp add: kExponentMask_def)
  then show "IsSpecial d \<longleftrightarrow> unat d div 2 ^ 52 mod 2 ^ 11 = 2047"
    unfolding IsSpecial_def word_unat_eq_iff double_fields by simp
  show "IsDenormal d \<longleftrightarrow> unat d div 2 ^ 52 mod 2 ^ 11 = 0"
    unfolding IsDenormal_def word_unat_eq_iff double_fields by simp
qed

lemma single_special:
  "Single_IsSpecial d \<longleftrightarrow> unat d div 2 ^ 23 mod 2 ^ 8 = 255" "Single_IsDenormal d \<longleftrightarrow> unat d div 2 ^ 23 mod 2 ^ 8 = 0"
proof -
  have "unat Single_kExponentMask = 255 * 2 ^ 23"
    by (simp add: Single_kExponentMask_def)
  then show "Single_IsSpecial d \<longleftrightarrow> unat d div 2 ^ 23 mod 2 ^ 8 = 255"
    unfolding Single_IsSpecial_def word_unat_eq_iff single_fields by simp
  show "Single_IsDenormal d \<longleftrightarrow> unat d div 2 ^ 23 mod 2 ^ 8 = 0"
    unfolding Single_IsDenormal_def word_unat_eq_iff single_fields by simp
qed

lemma double_finite_pos_iff: "double_finite_pos d \<longleftrightarrow> unat d < 2047 * 2 ^ 52"
proof -
  have "unat d div 2 ^ 52 mod 2 ^ 11 = unat d div 2 ^ 52" "unat d div 2 ^ 52 < 2 ^ 11" if "unat d < 2 ^ 63"
    using that by (simp_all add: less_mult_imp_div_less)
  then show ?thesis
    unfolding double_finite_pos_def double_fields double_special
    using div_less_iff_less_mult [of "2 ^ 52" "unat d" 2047] by fastforce
qed

lemma single_finite_pos_iff: "single_finite_pos d \<longleftrightarrow> unat d < 255 * 2 ^ 23"
proof -
  have "unat d div 2 ^ 23 mod 2 ^ 8 = unat d div 2 ^ 23" "unat d div 2 ^ 23 < 2 ^ 8" if "unat d < 2 ^ 31"
    using that by (simp_all add: less_mult_imp_div_less)
  then show ?thesis
    unfolding single_finite_pos_def single_fields single_special
    using div_less_iff_less_mult [of "2 ^ 23" "unat d" 255] by fastforce
qed

lemma double_field_div: "double_finite_pos d \<Longrightarrow> unat d div 2 ^ 52 mod 2 ^ 11 = unat d div 2 ^ 52"
  by (simp add: double_finite_pos_iff less_mult_imp_div_less)

lemma single_field_div: "single_finite_pos d \<Longrightarrow> unat d div 2 ^ 23 mod 2 ^ 8 = unat d div 2 ^ 23"
  by (simp add: single_finite_pos_iff less_mult_imp_div_less)

lemma double_accessors:
  assumes "double_finite_pos d"
  shows "unat (Significand d) = enc_sig 52 (unat d)"
    and "Exponent d = kDenormalExponent + int (enc_exp 52 (unat d))"
    and "LowerBoundaryIsCloser d \<longleftrightarrow> unat d mod 2 ^ 52 = 0 \<and> enc_exp 52 (unat d) \<noteq> 0"
proof -
  note f = double_field_div [OF assms]
  have h: "unat kHiddenBit = 2 ^ 52"
    by (simp add: kHiddenBit_def)
  have M: "unat d mod 2 ^ 52 < 2 ^ 52"
    by simp
  then show "unat (Significand d) = enc_sig 52 (unat d)"
    unfolding Significand_def Let_def double_special f
    by (auto simp: double_fields h unat_plus enc_sig_def)
  have "unat (drop_bit 52 (d AND kExponentMask)) = unat d div 2 ^ 52"
    by (simp only: unat_drop double_fields f) simp
  then have "uint (drop_bit 52 (d AND kExponentMask)) = int (unat d div 2 ^ 52)"
    by (metis of_nat_unat)
  then show e: "Exponent d = kDenormalExponent + int (enc_exp 52 (unat d))"
    unfolding Exponent_def double_special f
    by (auto simp: kPhysicalSignificandSize_def enc_exp_def kDenormalExponent_def of_nat_diff)
  show "LowerBoundaryIsCloser d \<longleftrightarrow> unat d mod 2 ^ 52 = 0 \<and> enc_exp 52 (unat d) \<noteq> 0"
    unfolding LowerBoundaryIsCloser_def Let_def e word_unat_eq_iff double_fields by simp
qed

lemma single_accessors:
  assumes "single_finite_pos d"
  shows "unat (Single_Significand d) = enc_sig 23 (unat d)"
    and "Single_Exponent d = Single_kDenormalExponent + int (enc_exp 23 (unat d))"
    and "Single_LowerBoundaryIsCloser d \<longleftrightarrow> unat d mod 2 ^ 23 = 0 \<and> enc_exp 23 (unat d) \<noteq> 0"
proof -
  note f = single_field_div [OF assms]
  have h: "unat Single_kHiddenBit = 2 ^ 23"
    by (simp add: Single_kHiddenBit_def)
  have M: "unat d mod 2 ^ 23 < 2 ^ 23"
    by simp
  then show "unat (Single_Significand d) = enc_sig 23 (unat d)"
    unfolding Single_Significand_def Let_def single_special f
    by (auto simp: single_fields h unat_plus enc_sig_def)
  have "unat (drop_bit 23 (d AND Single_kExponentMask)) = unat d div 2 ^ 23"
    by (simp only: unat_drop single_fields f) simp
  then have "uint (drop_bit 23 (d AND Single_kExponentMask)) = int (unat d div 2 ^ 23)"
    by (metis of_nat_unat)
  then show e: "Single_Exponent d = Single_kDenormalExponent + int (enc_exp 23 (unat d))"
    unfolding Single_Exponent_def single_special f
    by (auto simp: Single_kPhysicalSignificandSize_def enc_exp_def Single_kDenormalExponent_def of_nat_diff)
  show "Single_LowerBoundaryIsCloser d \<longleftrightarrow> unat d mod 2 ^ 23 = 0 \<and> enc_exp 23 (unat d) \<noteq> 0"
    unfolding Single_LowerBoundaryIsCloser_def Let_def e word_unat_eq_iff single_fields by simp
qed

interpretation dbl: ieee_encoding 52 kDenormalExponent unat double_finite_pos "\<lambda>d. unat (Significand d)" Exponent LowerBoundaryIsCloser
  by unfold_locales (auto simp: double_accessors)

interpretation sgl: ieee_encoding 23 Single_kDenormalExponent unat single_finite_pos "\<lambda>d. unat (Single_Significand d)" Single_Exponent
    Single_LowerBoundaryIsCloser
  by unfold_locales (auto simp: single_accessors)

definition double_value :: "double_bits \<Rightarrow> real" where
  "double_value d = (if 0 < Sign d then enc_real 52 kDenormalExponent (unat d)
     else - enc_real 52 kDenormalExponent (unat d - 2 ^ 63))"

definition single_value :: "single_bits \<Rightarrow> real" where
  "single_value d = (if 0 < Single_Sign d then enc_real 23 Single_kDenormalExponent (unat d)
     else - enc_real 23 Single_kDenormalExponent (unat d - 2 ^ 31))"

lemma AsDiyFp_wp:
  assumes "double_finite_pos d"
  shows "wp (AsDiyFp d) (\<lambda>v. dfp_f v = Significand d \<and> dfp_e v = Exponent d \<and> diy_value v = double_value d)"
  using assms dbl.value_eq [OF assms] by (simp add: AsDiyFp_def wp_simps double_finite_pos_def double_value_def)

lemma Single_AsDiyFp_wp:
  assumes "single_finite_pos d"
  shows "wp (Single_AsDiyFp d) (\<lambda>v. unat (dfp_f v) = unat (Single_Significand d) \<and> dfp_e v = Single_Exponent d \<and>
    diy_value v = single_value d)"
  using assms sgl.value_eq [OF assms]
  by (simp add: Single_AsDiyFp_def wp_simps single_finite_pos_def single_value_def nat_words)

end
