(* ===== verification/Ieee_Boundaries.thy ===== *)
theory Ieee_Boundaries
  imports Ieee
begin

unbundle bit_operations_syntax

text \<open>
  The operations of \<open>ieee.h\<close> are correct: the boundaries are the midpoints to the neighbours, the
  conversion to and from \<open>DiyFp\<close> keeps the value, and \<open>NextDouble\<close> and \<open>PreviousDouble\<close> step to the
  neighbour in the order of the values.
\<close>

section \<open>Boundaries\<close>

lemma boundaries_of_wp:
  assumes f: "0 < unat (dfp_f v)" "unat (dfp_f v) < 2 ^ 53"
  shows "wp (boundaries_of v c) (\<lambda>(m_minus, m_plus). dfp_e m_minus = dfp_e m_plus \<and> 2 ^ 63 \<le> unat (dfp_f m_plus) \<and>
    diy_value m_plus = real (2 * unat (dfp_f v) + 1) * 2 powi (dfp_e v - 1) \<and>
    diy_value m_minus = (if c then (4 * real (unat (dfp_f v)) - 1) * 2 powi (dfp_e v - 2)
      else (2 * real (unat (dfp_f v)) - 1) * 2 powi (dfp_e v - 1)))"
proof -
  let ?f = "unat (dfp_f v)" and ?e = "dfp_e v"
  let ?p = "DiyFp (push_bit 1 (dfp_f v) + 1) (?e - 1)"
  have p1: "unat (push_bit 1 (dfp_f v)) = 2 * ?f" and p2: "unat (push_bit 2 (dfp_f v)) = 4 * ?f"
    by (subst unat_push; use f in simp)+
  then have p: "unat (dfp_f ?p) = 2 * ?f + 1"
    using f by (simp add: unat_plus)
  then have "dfp_f ?p \<noteq> 0"
    by (auto simp: unat_eq_zero)
  then obtain mp k where mp: "Normalize ?p = Some mp" "unat (dfp_f mp) = (2 * ?f + 1) * 2 ^ k" "dfp_e mp = ?e - 1 - int k"
      "2 ^ 63 \<le> unat (dfp_f mp)"
    using Normalize_wp [of ?p] unfolding p by (auto elim!: wpE)
  have "0 < k"
    using mp(2,4) f(2) by (cases k) auto
  have less: "(2 * ?f + 1) * 2 ^ k < 2 ^ 64"
    using unat_lt64 [of "dfp_f mp"] mp(2) by (simp del: unat_lt64)
  have vp: "diy_value mp = real (2 * ?f + 1) * 2 powi (?e - 1)"
    using scaled_value [of mp ?p k] mp(2,3) p by simp
  define m where "m = (if c then DiyFp (push_bit 2 (dfp_f v) - 1) (?e - 2) else DiyFp (push_bit 1 (dfp_f v) - 1) (?e - 1))"
  define j where "j = (if c then k - 1 else k)"
  have j: "dfp_e m - dfp_e mp = int j" "dfp_e mp \<le> dfp_e m"
    using \<open>0 < k\<close> by (auto simp: m_def j_def mp(3) of_nat_diff)
  have mf: "unat (dfp_f m) = (if c then 4 * ?f - 1 else 2 * ?f - 1)"
    using f p1 p2 by (auto simp: m_def unat_minus)
  have fits: "unat (dfp_f m) * 2 ^ j < 2 ^ 64"
  proof (cases c)
    case True
    have "2 * ((4 * ?f - 1) * 2 ^ j) = (4 * ?f - 1) * 2 ^ k"
      using \<open>0 < k\<close> True by (cases k) (simp_all add: j_def)
    also have "\<dots> \<le> 2 * ((2 * ?f + 1) * 2 ^ k)"
      unfolding mult.assoc [symmetric] by (intro mult_le_mono1) simp
    finally show ?thesis
      using less mf True by simp
  next
    case False
    have "(2 * ?f - 1) * 2 ^ k \<le> (2 * ?f + 1) * 2 ^ k"
      by (intro mult_le_mono1) simp
    then show ?thesis
      using less mf False by (simp add: j_def)
  qed
  let ?r = "m\<lparr>dfp_f := push_bit (nat (dfp_e m - dfp_e mp)) (dfp_f m), dfp_e := dfp_e mp\<rparr>"
  have "unat (dfp_f ?r) = unat (dfp_f m) * 2 ^ j"
    using fits by (simp add: j unat_push)
  moreover have "dfp_e ?r = dfp_e m - int j"
    using j(1) by simp
  ultimately have "diy_value ?r = diy_value m"
    by (rule scaled_value)
  moreover have "diy_value m = (if c then (4 * real ?f - 1) * 2 powi (?e - 2) else (2 * real ?f - 1) * 2 powi (?e - 1))"
    using f by (simp add: diy_value_def mf of_nat_diff) (simp add: m_def)
  ultimately show ?thesis
    using mp(1,4) vp j(2) by (auto simp: boundaries_of_def wp_simps ASSERT_def Let_def simp flip: m_def)
qed

lemma sig_positive: "0 < n \<Longrightarrow> 0 < enc_sig p n"
  using mult_div_mod_eq [of "2 ^ p" n] by (cases "n div 2 ^ p = 0") (auto simp: enc_sig_def)

lemma NormalizedBoundaries_wp:
  assumes "double_finite_pos d" and "d \<noteq> 0"
  shows "wp (NormalizedBoundaries d) (\<lambda>(m_minus, m_plus). dfp_e m_minus = dfp_e m_plus \<and> 2 ^ 63 \<le> unat (dfp_f m_plus) \<and>
    diy_value m_plus = (double_value d + enc_real 52 kDenormalExponent (Suc (unat d))) / 2 \<and>
    diy_value m_minus = (enc_real 52 kDenormalExponent (unat d - 1) + double_value d) / 2)"
proof -
  have pos: "0 < unat d" "0 < Sign d"
    using assms by (simp_all add: unat_eq_zero double_finite_pos_def)
  have "value_positive d"
    using assms by (simp add: value_positive_def double_finite_pos_def IsSpecial_def IsNan_def)
  moreover obtain v where v: "AsDiyFp d = Some v" "dfp_f v = Significand d" "dfp_e v = Exponent d"
    using AsDiyFp_wp [OF assms(1)] by (auto elim: wpE)
  moreover have f: "0 < unat (dfp_f v)" "unat (dfp_f v) < 2 ^ 53"
    using sig_positive [OF pos(1), of 52] enc_sig_less [of 52 "unat d"] by (simp_all add: v double_accessors [OF assms(1)])
  ultimately show ?thesis
    using boundaries_of_wp [OF f, of "LowerBoundaryIsCloser d",
        unfolded v(2,3) dbl.upper_midpoint [OF assms(1)] dbl.lower_midpoint [OF assms(1) pos(1)]] pos(2)
    by (simp add: NormalizedBoundaries_def wp_simps double_value_def)
qed

lemma Single_NormalizedBoundaries_wp:
  assumes "single_finite_pos d" and "d \<noteq> 0"
  shows "wp (Single_NormalizedBoundaries d) (\<lambda>(m_minus, m_plus). dfp_e m_minus = dfp_e m_plus \<and> 2 ^ 63 \<le> unat (dfp_f m_plus) \<and>
    diy_value m_plus = (single_value d + enc_real 23 Single_kDenormalExponent (Suc (unat d))) / 2 \<and>
    diy_value m_minus = (enc_real 23 Single_kDenormalExponent (unat d - 1) + single_value d) / 2)"
proof -
  have pos: "0 < unat d" "0 < Single_Sign d"
    using assms by (simp_all add: unat_eq_zero single_finite_pos_def)
  have "Single_value_positive d"
    using assms by (simp add: Single_value_positive_def single_finite_pos_def Single_IsSpecial_def Single_IsNan_def)
  moreover obtain v where v: "Single_AsDiyFp d = Some v" "unat (dfp_f v) = unat (Single_Significand d)" "dfp_e v = Single_Exponent d"
    using Single_AsDiyFp_wp [OF assms(1)] by (auto elim: wpE)
  moreover have f: "0 < unat (dfp_f v)" "unat (dfp_f v) < 2 ^ 53"
    using sig_positive [OF pos(1), of 23] enc_sig_less [of 23 "unat d"] by (simp_all add: v single_accessors [OF assms(1)])
  ultimately show ?thesis
    using boundaries_of_wp [OF f, of "Single_LowerBoundaryIsCloser d",
        unfolded v(2,3) sgl.upper_midpoint [OF assms(1)] sgl.lower_midpoint [OF assms(1) pos(1)]] pos(2)
    by (simp add: Single_NormalizedBoundaries_def wp_simps single_value_def)
qed

section \<open>To a DiyFp and back\<close>

lemma hidden_bit_zero:
  assumes "unat f < 2 ^ 53"
  shows "f AND kHiddenBit = 0 \<longleftrightarrow> unat f < 2 ^ 52"
proof -
  have "kHiddenBit = push_bit 52 (mask 1)"
    by (simp add: double_masks)
  moreover have "unat (f AND push_bit 52 (mask 1)) = unat f div 2 ^ 52 mod 2 ^ 1 * 2 ^ 52"
    by (rule unat_field) simp
  ultimately have "unat (f AND kHiddenBit) = unat f div 2 ^ 52 mod 2 ^ 1 * 2 ^ 52"
    by (simp only:)
  moreover have "unat f div 2 ^ 52 < 2"
    using assms by (simp add: less_mult_imp_div_less)
  ultimately have "unat (f AND kHiddenBit) = unat f div 2 ^ 52 * 2 ^ 52"
    by simp
  then show ?thesis
    by (simp add: unat_eq_zero div_eq_0_iff)
qed

text \<open>Both loops that move a significand up to the hidden bit; \<open>b\<close> is what else stops the loop.\<close>

lemma hidden_loop_wp:
  assumes f: "0 < unat f" "unat f < 2 ^ 53"
    and stop: "\<And>f e. c (f, e) \<longleftrightarrow> b e \<and> f AND kHiddenBit = 0"
  shows "wp (while_opt c (shift_up 1) (f, e))
    (\<lambda>(f', e'). \<exists>k. unat f' = unat f * 2 ^ k \<and> e' = e - int k \<and> unat f' < 2 ^ 53 \<and>
      (\<forall>j<k. b (e - int j)) \<and> (b e' \<longrightarrow> 2 ^ 52 \<le> unat f'))"
proof (rule while_opt_rule [where I = "\<lambda>(f', e'). \<exists>k. unat f' = unat f * 2 ^ k \<and> e' = e - int k \<and> unat f' < 2 ^ 53 \<and>
      (\<forall>j<k. b (e - int j))" and m = "\<lambda>(f', e'). 2 ^ 53 - unat f'"])
  fix t :: "u64 \<times> int"
  assume I: "case t of (f', e') \<Rightarrow> \<exists>k. unat f' = unat f * 2 ^ k \<and> e' = e - int k \<and> unat f' < 2 ^ 53 \<and> (\<forall>j<k. b (e - int j))"
    and c: "c t"
  obtain f' e' where t: "t = (f', e')" by (cases t)
  obtain k where k: "unat f' = unat f * 2 ^ k" "e' = e - int k" "unat f' < 2 ^ 53" "\<forall>j<k. b (e - int j)"
    using I by (auto simp: t)
  have b: "b e'" and less: "unat f' < 2 ^ 52"
    using c k(3) by (simp_all add: t stop hidden_bit_zero)
  have p: "unat (push_bit 1 f') = unat f' * 2"
    by (subst unat_push) (use less in simp_all)
  have "0 < unat f'"
    using f(1) k(1) by simp
  then have m: "2 ^ 53 - unat (push_bit 1 f') < 2 ^ 53 - unat f'"
    using less unfolding p by simp
  have "unat (push_bit 1 f') = unat f * 2 ^ Suc k" "e' - int 1 = e - int (Suc k)" "unat (push_bit 1 f') < 2 ^ 53"
      "\<forall>j<Suc k. b (e - int j)"
    using less b k unfolding p by (auto simp: less_Suc_eq)
  then show "wp (shift_up 1 t) (\<lambda>u. (case u of (f', e') \<Rightarrow> \<exists>k. unat f' = unat f * 2 ^ k \<and> e' = e - int k \<and> unat f' < 2 ^ 53 \<and>
      (\<forall>j<k. b (e - int j))) \<and> (case u of (f', e') \<Rightarrow> 2 ^ 53 - unat f') < (case t of (f', e') \<Rightarrow> 2 ^ 53 - unat f'))"
    using m unfolding t shift_up_def prod.case wp_Some by blast
next
  fix t :: "u64 \<times> int"
  assume I: "case t of (f', e') \<Rightarrow> \<exists>k. unat f' = unat f * 2 ^ k \<and> e' = e - int k \<and> unat f' < 2 ^ 53 \<and> (\<forall>j<k. b (e - int j))"
    and c: "\<not> c t"
  obtain f' e' where t: "t = (f', e')" by (cases t)
  obtain k where k: "unat f' = unat f * 2 ^ k" "e' = e - int k" "unat f' < 2 ^ 53" "\<forall>j<k. b (e - int j)"
    using I by (auto simp: t)
  have "b e' \<longrightarrow> 2 ^ 52 \<le> unat f'"
    using c k(3) by (simp add: t stop hidden_bit_zero not_less)
  with k show "case t of (f', e') \<Rightarrow> \<exists>k. unat f' = unat f * 2 ^ k \<and> e' = e - int k \<and> unat f' < 2 ^ 53 \<and>
      (\<forall>j<k. b (e - int j)) \<and> (b e' \<longrightarrow> 2 ^ 52 \<le> unat f')"
    unfolding t prod.case by blast
qed (use f in \<open>auto intro: exI [of _ 0]\<close>)

lemma AsNormalizedDiyFp_wp:
  assumes "double_finite_pos d" and "d \<noteq> 0"
  shows "wp (AsNormalizedDiyFp d) (\<lambda>v. diy_value v = double_value d \<and> 2 ^ 63 \<le> unat (dfp_f v) \<and>
    dfp_e v \<le> Exponent d - 11 \<and> Exponent d - 63 \<le> dfp_e v)"
proof -
  have pos: "0 < unat d" "0 < Sign d"
    using assms by (simp_all add: unat_eq_zero double_finite_pos_def)
  have "value_positive d"
    using assms by (simp add: value_positive_def double_finite_pos_def IsSpecial_def IsNan_def)
  have f: "0 < unat (Significand d)" "unat (Significand d) < 2 ^ 53"
    using sig_positive [OF pos(1), of 52] enc_sig_less [of 52 "unat d"] by (simp_all add: double_accessors [OF assms(1)])
  obtain f' e' k where 1: "while_opt (\<lambda>(f, e). f AND kHiddenBit = 0) (shift_up 1) (Significand d, Exponent d) = Some (f', e')"
      "unat f' = unat (Significand d) * 2 ^ k" "e' = Exponent d - int k" "unat f' < 2 ^ 53" "2 ^ 52 \<le> unat f'"
    using hidden_loop_wp [OF f, of "\<lambda>(f, e). f AND kHiddenBit = 0" "\<lambda>_. True" "Exponent d"] by (auto elim!: wpE)
  have s: "unat (push_bit 11 f') = unat f' * 2 ^ 11"
    by (subst unat_push) (use 1(4) in simp_all)
  have "1 * 2 ^ k \<le> unat (Significand d) * 2 ^ k"
    using f(1) by (intro mult_le_mono1) simp
  then have "2 ^ k < (2 :: nat) ^ 53"
    using 1(2,4) by linarith
  then have k: "k < 53"
    by (rule power_less_imp_less_exp [rotated]) simp
  let ?r = "DiyFp (push_bit 11 f') (e' - 11)"
  have "diy_value ?r = diy_value (DiyFp (Significand d) (Exponent d))"
    by (rule scaled_value [where k = "k + 11"]) (simp_all add: s 1(2,3) power_add)
  also have "\<dots> = double_value d"
    using dbl.value_eq [OF assms(1)] pos(2) by (simp add: double_value_def)
  finally show ?thesis
    using \<open>value_positive d\<close> 1(1,3,5) k s
    by (simp add: AsNormalizedDiyFp_def wp_simps ASSERT_def kDiyFpSignificandSize_def kSignificandSize_def Let_def)
qed

text \<open>The last step of \<open>DiyFpToUint64\<close> puts the fields together.\<close>

lemma pack_fields:
  fixes s x :: u64
  assumes "unat x < 2 ^ 11"
  shows "unat ((s AND kSignificandMask) OR push_bit 52 x) = unat x * 2 ^ 52 + unat s mod 2 ^ 52"
proof -
  have "(s AND kSignificandMask) AND push_bit 52 x = 0"
    unfolding double_masks by (rule bit_eqI) (auto simp: bit_simps)
  then have "(s AND kSignificandMask) OR push_bit 52 x = (s AND kSignificandMask) + push_bit 52 x"
    by (rule disjunctive_add_eq_or [symmetric])
  moreover have "unat x * 2 ^ 52 \<le> (2 ^ 11 - 1) * 2 ^ 52"
    using assms by (intro mult_le_mono1) simp
  moreover from this have "unat (push_bit 52 x) = unat x * 2 ^ 52"
    by (subst unat_push) simp_all
  moreover have "unat s mod 2 ^ 52 < 2 ^ 52"
    by simp
  ultimately show ?thesis
    by (simp add: unat_plus double_fields)
qed

lemma enc_val_pack:
  assumes "r < 2 ^ p"
  shows "enc_val p (q * 2 ^ p + r) = (if q = 0 then r else (r + 2 ^ p) * 2 ^ (q - 1))"
proof -
  have "(q * 2 ^ p + r) div 2 ^ p = q" "(q * 2 ^ p + r) mod 2 ^ p = r"
    using assms by simp_all
  then show ?thesis
    by (simp add: enc_val_def enc_sig_def enc_exp_def)
qed

text \<open>The loop that denormals stop early.\<close>

lemma denormal_loop_wp:
  assumes f: "unat f < 2 ^ 53" and e: "kDenormalExponent \<le> e"
  shows "wp (while_opt (\<lambda>(significand, exponent). kDenormalExponent < exponent \<and> significand AND kHiddenBit = 0)
      (shift_up 1) (f, e))
    (\<lambda>(f', e'). \<exists>k. unat f' = unat f * 2 ^ k \<and> e' = e - int k \<and> unat f' < 2 ^ 53 \<and>
      kDenormalExponent \<le> e' \<and> (kDenormalExponent < e' \<longrightarrow> 2 ^ 52 \<le> unat f'))" (is "wp (while_opt ?c _ _) _")
proof (cases "unat f = 0")
  case True
  show ?thesis
  proof (rule while_opt_rule [where I = "\<lambda>(f', e'). f' = 0 \<and> kDenormalExponent \<le> e' \<and> e' \<le> e"
        and m = "\<lambda>(f', e'). nat (e' - kDenormalExponent)"])
    fix t :: "u64 \<times> int"
    assume "case t of (f', e') \<Rightarrow> f' = 0 \<and> kDenormalExponent \<le> e' \<and> e' \<le> e" and "\<not> ?c t"
    then show "case t of (f', e') \<Rightarrow> \<exists>k. unat f' = unat f * 2 ^ k \<and> e' = e - int k \<and> unat f' < 2 ^ 53 \<and>
        kDenormalExponent \<le> e' \<and> (kDenormalExponent < e' \<longrightarrow> 2 ^ 52 \<le> unat f')"
      using True by (auto intro!: exI [of _ "nat (e - snd t)"])
  next
    have "f = 0"
      using True by (simp add: unat_eq_zero)
    then show "case (f, e) of (f', e') \<Rightarrow> f' = 0 \<and> kDenormalExponent \<le> e' \<and> e' \<le> e"
      using e by simp
  qed (auto simp: shift_up_def)
next
  case False
  have low: "kDenormalExponent \<le> e - int k" if "\<forall>j<k. kDenormalExponent < e - int j" for k
    using that e by (cases k) auto
  have "wp (while_opt ?c (shift_up 1) (f, e)) (\<lambda>(f', e'). \<exists>k. unat f' = unat f * 2 ^ k \<and> e' = e - int k \<and> unat f' < 2 ^ 53 \<and>
      (\<forall>j<k. kDenormalExponent < e - int j) \<and> (kDenormalExponent < e' \<longrightarrow> 2 ^ 52 \<le> unat f'))"
    by (rule hidden_loop_wp) (use False f in simp_all)
  then show ?thesis
    by (rule wp_mono) (use low in fastforce)
qed

lemma DiyFpToUint64_wp:
  assumes f: "unat (dfp_f x) < 2 ^ 53" and e: "kDenormalExponent \<le> dfp_e x" "dfp_e x < kMaxExponent"
  shows "wp (DiyFpToUint64 x) (\<lambda>d. double_finite_pos d \<and> double_value d = diy_value x)"
proof -
  have "unat (kHiddenBit + kSignificandMask) = 2 ^ 53 - 1"
    by (simp add: kHiddenBit_def kSignificandMask_def)
  then have "\<not> kHiddenBit + kSignificandMask < dfp_f x"
    using f by (simp add: word_less_nat_alt)
  then have 1: "while_opt (\<lambda>(significand, exponent). kHiddenBit + kSignificandMask < significand)
       (\<lambda>(significand, exponent). Some (drop_bit 1 significand, exponent + 1)) (dfp_f x, dfp_e x) = Some (dfp_f x, dfp_e x)"
    by (subst while_opt.simps) simp
  obtain s y k where 2: "while_opt (\<lambda>(significand, exponent). kDenormalExponent < exponent \<and> significand AND kHiddenBit = 0)
      (shift_up 1) (dfp_f x, dfp_e x) = Some (s, y)"
      "unat s = unat (dfp_f x) * 2 ^ k" "y = dfp_e x - int k" "unat s < 2 ^ 53" "kDenormalExponent \<le> y"
      "kDenormalExponent < y \<longrightarrow> 2 ^ 52 \<le> unat s"
    using denormal_loop_wp [OF f e(1)] by (auto elim!: wpE)
  define b where "b = (if y = kDenormalExponent \<and> s AND kHiddenBit = 0 then 0 else nat (y - kDenormalExponent) + 1)"
  define B :: u64 where "B = (if y = kDenormalExponent \<and> s AND kHiddenBit = 0 then 0 else word_of_int (y + kExponentBias))"
  have y: "y < kMaxExponent"
    using 2(3) e(2) by simp
  then have b: "b < 2047"
    using 2(5) by (auto simp: b_def kDenormalExponent_def kMaxExponent_def nat_less_iff)
  have B: "unat B = b"
  proof (cases "y = kDenormalExponent \<and> s AND kHiddenBit = 0")
    case False
    then have "y + kExponentBias = int b"
      using 2(5) by (auto simp: b_def kDenormalExponent_def)
    then have "B = word_of_nat b"
      using False by (auto simp: B_def)
    then show ?thesis
      using b by (simp add: unsigned_of_nat take_bit_nat_eq_self)
  qed (simp add: B_def b_def)
  define d where "d = (s AND kSignificandMask) OR push_bit 52 B"
  have d: "unat d = b * 2 ^ 52 + unat s mod 2 ^ 52"
    unfolding d_def using b by (subst pack_fields) (simp_all add: B)
  have sm: "unat s mod 2 ^ 52 < 2 ^ 52"
    by simp
  have "unat d < 2047 * 2 ^ 52"
  proof -
    have "(b + 1) * 2 ^ 52 \<le> 2047 * 2 ^ 52"
      using b by (intro mult_le_mono1) simp
    then show ?thesis
      unfolding d using sm by simp
  qed
  then have fin: "double_finite_pos d"
    by (simp only: double_finite_pos_iff)
  have "enc_val 52 (unat d) = unat s * 2 ^ nat (y - kDenormalExponent)"
  proof (cases "unat s < 2 ^ 52")
    case True
    then have "y = kDenormalExponent"
      using 2(5,6) by force
    with True show ?thesis
      unfolding d enc_val_pack [OF sm] by (simp add: b_def hidden_bit_zero 2(4))
  next
    case False
    then have "s AND kHiddenBit \<noteq> 0"
      using 2(4) by (simp add: hidden_bit_zero)
    moreover have "unat s div 2 ^ 52 = 1"
      using False 2(4) by (intro div_nat_eqI) simp_all
    then have "unat s mod 2 ^ 52 + 2 ^ 52 = unat s"
      using mod_mult_div_eq [of "unat s" "2 ^ 52"] by simp
    ultimately show ?thesis
      unfolding d enc_val_pack [OF sm] by (simp add: b_def)
  qed
  then have "double_value d = real (unat s) * 2 powi y"
  proof -
    assume v: "enc_val 52 (unat d) = unat s * 2 ^ nat (y - kDenormalExponent)"
    have "(2 :: real) ^ nat (y - kDenormalExponent) * 2 powi kDenormalExponent = 2 powi y"
      using two_powi_add [of "y - kDenormalExponent" kDenormalExponent] 2(5) by (simp add: power_int_def)
    then show ?thesis
      using fin by (simp add: double_value_def double_finite_pos_def enc_real_def v)
  qed
  also have "\<dots> = diy_value x"
    using scaled_value [of "DiyFp s y" x k] 2(2,3) by simp
  finally have v: "double_value d = diy_value x" .
  have "DiyFpToUint64 x = Some d"
    using e 1 2(1) by (simp add: DiyFpToUint64_def Let_def kPhysicalSignificandSize_def flip: B_def d_def)
  then show ?thesis
    using fin v by simp
qed

section \<open>Neighbours\<close>

text \<open>The position of a pattern in the order of the values, both zeros next to each other.\<close>

definition double_key :: "double_bits \<Rightarrow> int" where
  "double_key d = (if unat d < 2 ^ 63 then int (unat d) else - int (unat d - 2 ^ 63) - 1)"

lemma double_value_key:
  "double_value d = (if 0 \<le> double_key d then enc_real 52 kDenormalExponent (nat (double_key d))
     else - enc_real 52 kDenormalExponent (nat (- double_key d - 1)))"
proof (cases "unat d < 2 ^ 63")
  case False
  define m where "m = unat d - 2 ^ 63"
  have "double_key d = - int m - 1"
    using False by (simp only: double_key_def m_def if_False)
  then have "nat (- double_key d - 1) = m" "\<not> 0 \<le> double_key d"
    by simp_all
  moreover have "double_value d = - enc_real 52 kDenormalExponent m"
    using False by (simp add: double_value_def double_fields m_def)
  ultimately show ?thesis
    by simp
qed (simp add: double_value_def double_key_def double_fields)

lemma enc_real_nonneg: "0 \<le> enc_real p den n"
  by (simp add: enc_real_def)

lemma enc_real_zero_iff: "enc_real p den n = 0 \<longleftrightarrow> n = 0"
  using enc_val_inject [of p n 0] by (simp add: enc_real_def)

lemma double_value_mono: "double_key a \<le> double_key b \<Longrightarrow> double_value a \<le> double_value b"
  unfolding double_value_key
  using enc_real_nonneg [of 52 kDenormalExponent "nat (double_key b)"] enc_real_nonneg [of 52 kDenormalExponent "nat (- double_key a - 1)"]
    enc_real_less_iff [of 52 kDenormalExponent "nat (double_key b)" "nat (double_key a)"]
    enc_real_less_iff [of 52 kDenormalExponent "nat (- double_key a - 1)" "nat (- double_key b - 1)"]
  by (auto split: if_splits)

lemma double_value_less:
  assumes "double_key a < double_key b" and "\<not> (double_key a = - 1 \<and> double_key b = 0)"
  shows "double_value a < double_value b"
proof -
  have pos: "0 < enc_real 52 kDenormalExponent n \<longleftrightarrow> 0 < n" for n
    using enc_real_nonneg [of 52 kDenormalExponent n] enc_real_zero_iff [of 52 kDenormalExponent n] by linarith
  have neg: "- enc_real 52 kDenormalExponent m < enc_real 52 kDenormalExponent n" if "0 < m \<or> 0 < n" for m n
    using that pos [of m] pos [of n] enc_real_nonneg [of 52 kDenormalExponent m] enc_real_nonneg [of 52 kDenormalExponent n] by linarith
  show ?thesis
    unfolding double_value_key using assms neg by (auto simp: enc_real_less_iff)
qed

lemma double_order: "double_key a < double_key b \<longleftrightarrow> double_value a < double_value b \<or> double_key a = - 1 \<and> double_key b = 0"
  using double_value_less [of a b] double_value_mono [of b a] by fastforce

lemma Significand_zero_iff: "Significand d = 0 \<longleftrightarrow> unat d mod 2 ^ 63 = 0"
proof -
  let ?E = "unat d div 2 ^ 52 mod 2 ^ 11" and ?M = "unat d mod 2 ^ 52"
  have split: "unat d mod 2 ^ 63 = ?E * 2 ^ 52 + ?M"
    using mod_mult2_eq [of "unat d" "2 ^ 52" "2 ^ 11"] by (simp add: mult.commute)
  have h: "unat kHiddenBit = 2 ^ 52"
    by (simp add: kHiddenBit_def)
  have "?M < 2 ^ 52"
    by simp
  then have "unat (Significand d) = (if ?E = 0 then ?M else ?M + 2 ^ 52)"
    by (simp add: Significand_def double_special double_fields Let_def unat_plus h)
  then show ?thesis
    unfolding split by (simp add: unat_eq_zero)
qed

lemma IsNan_iff: "IsNan d \<longleftrightarrow> 2047 * 2 ^ 52 < unat d mod 2 ^ 63"
proof -
  let ?E = "unat d div 2 ^ 52 mod 2 ^ 11" and ?M = "unat d mod 2 ^ 52"
  have split: "unat d mod 2 ^ 63 = ?E * 2 ^ 52 + ?M"
    using mod_mult2_eq [of "unat d" "2 ^ 52" "2 ^ 11"] by (simp add: mult.commute)
  have "?E < 2 ^ 11" "?M < 2 ^ 52"
    by simp_all
  then have "2047 * 2 ^ 52 < ?E * 2 ^ 52 + ?M \<longleftrightarrow> ?E = 2047 \<and> ?M \<noteq> 0"
    by (auto simp del: mod_less_divisor)
  moreover have "IsNan d \<longleftrightarrow> IsSpecial d \<and> ?M \<noteq> 0"
    by (simp add: IsNan_def IsSpecial_def unat_eq_zero double_fields)
  ultimately show ?thesis
    unfolding split double_special by blast
qed

lemma double_infinity: "unat kInfinity = 2047 * 2 ^ 52" "unat (kInfinity OR kSignMask) = 2 ^ 63 + 2047 * 2 ^ 52"
  by (simp_all add: kInfinity_def kSignMask_def)

lemma double_key_pos: "unat d < 2 ^ 63 \<Longrightarrow> double_key d = int (unat d)"
  by (simp add: double_key_def)

lemma double_key_neg: "unat d = 2 ^ 63 + m \<Longrightarrow> double_key d = - int m - 1"
  by (simp add: double_key_def)

lemma double_negE:
  assumes "\<not> unat (d :: u64) < 2 ^ 63"
  obtains m where "unat d = 2 ^ 63 + m" and "m < 2 ^ 63" and "unat d mod 2 ^ 63 = m"
proof -
  define m where "m = unat d - 2 ^ 63"
  have "unat d = 2 ^ 63 + m" "m < 2 ^ 63"
    using assms unat_lt64 [of d] by (simp_all add: m_def del: unat_lt64)
  then show ?thesis
    using that [of m] by simp
qed

lemma NextDouble_key:
  assumes "\<not> IsNan d" and "d \<noteq> kInfinity"
  shows "double_key (NextDouble d) = double_key d + 1"
proof (cases "unat d < 2 ^ 63")
  case True
  then have "unat d \<le> 2047 * 2 ^ 52" "unat d \<noteq> 2047 * 2 ^ 52"
    using assms by (simp_all add: IsNan_iff not_less word_unat_eq_iff double_infinity)
  then have u: "unat (d + 1) = unat d + 1"
    by (simp add: unat_plus)
  have "0 < Sign d"
    using True by (simp add: double_fields)
  then have "NextDouble d = d + 1"
    using assms(2) by (simp add: NextDouble_def)
  then show ?thesis
    using True \<open>unat d \<le> 2047 * 2 ^ 52\<close> by (simp add: double_key_pos u)
next
  case False
  then obtain m where m: "unat d = 2 ^ 63 + m" "m < 2 ^ 63" "unat d mod 2 ^ 63 = m"
    by (rule double_negE)
  have neg: "Sign d < 0"
    using False double_fields(3) [of d] by (simp add: Sign_def split: if_splits)
  show ?thesis
  proof (cases "m = 0")
    case True
    then show ?thesis
      using assms(2) neg m by (simp add: NextDouble_def Significand_zero_iff double_key_neg [OF m(1)] double_key_pos)
  next
    case nz: False
    then have "unat (d - 1) = 2 ^ 63 + (m - 1)"
      using m(1) by (simp add: unat_minus)
    then have "double_key (d - 1) = - int (m - 1) - 1"
      by (rule double_key_neg)
    then show ?thesis
      using assms(2) neg m nz by (simp add: NextDouble_def Significand_zero_iff double_key_neg [OF m(1)] of_nat_diff)
  qed
qed

lemma PreviousDouble_key:
  assumes "\<not> IsNan d" and "d \<noteq> kInfinity OR kSignMask"
  shows "double_key (PreviousDouble d) = double_key d - 1"
proof (cases "unat d < 2 ^ 63")
  case True
  have pos: "0 < Sign d"
    using True by (simp add: double_fields)
  show ?thesis
  proof (cases "unat d = 0")
    case z: True
    then have "PreviousDouble d = kSignMask"
      using assms(2) pos by (simp add: PreviousDouble_def Significand_zero_iff)
    moreover have "unat kSignMask = 2 ^ 63 + 0"
      by (simp add: kSignMask_def)
    ultimately show ?thesis
      using z by (simp add: double_key_neg double_key_pos)
  next
    case False
    then have "unat (d - 1) = unat d - 1"
      by (simp add: unat_minus)
    moreover have "PreviousDouble d = d - 1"
      using assms(2) pos False True by (simp add: PreviousDouble_def Significand_zero_iff)
    ultimately show ?thesis
      using True False by (simp add: double_key_pos of_nat_diff)
  qed
next
  case False
  then obtain m where m: "unat d = 2 ^ 63 + m" "m < 2 ^ 63" "unat d mod 2 ^ 63 = m"
    by (rule double_negE)
  have neg: "Sign d < 0"
    using False double_fields(3) [of d] by (simp add: Sign_def split: if_splits)
  have "m \<le> 2047 * 2 ^ 52"
    using assms(1) m by (simp add: IsNan_iff)
  then have "unat (d + 1) = 2 ^ 63 + (m + 1)"
    using m(1) by (simp add: unat_plus)
  then have "double_key (d + 1) = - int (m + 1) - 1"
    by (rule double_key_neg)
  then show ?thesis
    using assms(2) neg by (simp add: PreviousDouble_def double_key_neg [OF m(1)])
qed

lemma double_key_inject: "double_key a = double_key b \<longleftrightarrow> a = b"
proof
  assume eq: "double_key a = double_key b"
  show "a = b"
  proof (cases "unat a < 2 ^ 63 \<longleftrightarrow> unat b < 2 ^ 63")
    case True
    then have "unat a = unat b"
      using eq by (auto simp: double_key_def split: if_splits)
    then show ?thesis
      by (simp add: word_unat_eq_iff)
  qed (use eq in \<open>auto simp: double_key_def split: if_splits\<close>)
qed simp

lemma key_not_nan:
  assumes "double_key d \<le> 2047 * 2 ^ 52 \<and> - (2047 * 2 ^ 52) \<le> double_key d"
  shows "\<not> IsNan d"
proof (cases "unat d < 2 ^ 63")
  case False
  then obtain m where m: "unat d = 2 ^ 63 + m" "unat d mod 2 ^ 63 = m"
    by (rule double_negE)
  then show ?thesis
    using assms by (simp add: IsNan_iff double_key_neg [OF m(1)])
qed (use assms in \<open>simp add: IsNan_iff double_key_pos\<close>)

lemma key_not_minus_infinity:
  assumes "double_key d \<le> 2047 * 2 ^ 52 \<and> - (2047 * 2 ^ 52) \<le> double_key d"
  shows "d \<noteq> kInfinity OR kSignMask"
proof
  assume "d = kInfinity OR kSignMask"
  then have "unat d = 2 ^ 63 + 2047 * 2 ^ 52"
    by (simp only: double_infinity)
  then show False
    using assms double_key_neg [of d "2047 * 2 ^ 52"] by simp
qed

end
