(* ===== verification/Double_Round.thy ===== *)
theory Double_Round
  imports Ieee_Boundaries
begin

unbundle bit_operations_syntax

text \<open>
  The arithmetic of the C++ type \<open>double\<close> that the code uses outside of its own classes: a product,
  a quotient, a difference, a conversion from an integer and to a \<open>float\<close>, comparisons, and
  \<open>ceil\<close>.  The operations follow IEEE 754 with rounding to nearest, ties to even: the exact result
  is a ratio of two natural numbers, and \<open>round_enc\<close> computes the encoding next to it.  \<open>nearest\<close> is
  the specification of a correctly rounded result, and the one that reading a decimal text has to
  meet.
\<close>

section \<open>Rounding a ratio to an encoding\<close>

definition round_even :: "nat \<Rightarrow> nat \<Rightarrow> nat" where
  "round_even n d = (if 2 * (n mod d) < d \<or> 2 * (n mod d) = d \<and> even (n div d) then n div d else n div d + 1)"

fun ilog2 :: "nat \<Rightarrow> nat" where
  "ilog2 n = (if n < 2 then 0 else Suc (ilog2 (n div 2)))"

declare ilog2.simps [simp del]

text \<open>
  The pattern with \<open>p\<close> physical significand bits next to \<open>n / d\<close>, the number counted in units of
  the smallest denormal.
\<close>

definition round_enc :: "nat \<Rightarrow> nat \<Rightarrow> nat \<Rightarrow> nat" where
  "round_enc p n d = (let e = ilog2 (n div d) - p in e * 2 ^ p + round_even n (d * 2 ^ e))"

lemma ilog2_bounds: "0 < n \<Longrightarrow> 2 ^ ilog2 n \<le> n \<and> n < 2 ^ Suc (ilog2 n)"
proof (induction n rule: ilog2.induct)
  case (1 n)
  show ?case
  proof (cases "n < 2")
    case False
    then have "2 ^ ilog2 (n div 2) \<le> n div 2" "n div 2 < 2 ^ Suc (ilog2 (n div 2))"
      using 1 by simp_all
    then show ?thesis
      using False by (subst (1 2) ilog2.simps) auto
  qed (use 1 in \<open>auto simp: ilog2.simps\<close>)
qed

lemma ilog2_0 [simp]: "ilog2 0 = 0"
  by (simp add: ilog2.simps)

lemma enc_val_piece: "f < 2 ^ Suc p \<Longrightarrow> e = 0 \<or> 2 ^ p \<le> f \<Longrightarrow> enc_val p (e * 2 ^ p + f) = f * 2 ^ e"
proof (cases "f < 2 ^ p")
  case True
  moreover assume "e = 0 \<or> 2 ^ p \<le> f"
  ultimately show ?thesis
    using enc_val_pack [of f p e] by simp
next
  case False
  then obtain g where g: "f = 2 ^ p + g"
    using le_Suc_ex not_less by blast
  moreover assume "f < 2 ^ Suc p"
  ultimately show ?thesis
    using enc_val_pack [of g p "Suc e"] by (simp add: algebra_simps)
qed

lemma enc_val_piece':
  assumes "f \<le> 2 ^ Suc p" and "e = 0 \<or> 2 ^ p \<le> f"
  shows "enc_val p (e * 2 ^ p + f) = f * 2 ^ e"
proof (cases "f = 2 ^ Suc p")
  case True
  have "enc_val p (Suc e * 2 ^ p + 2 ^ p) = 2 ^ p * 2 ^ Suc e"
    by (rule enc_val_piece) simp_all
  moreover have eqs: "Suc e * 2 ^ p + 2 ^ p = e * 2 ^ p + f" "(2 :: nat) ^ p * 2 ^ Suc e = f * 2 ^ e"
    by (simp_all add: True)
  ultimately show ?thesis
    unfolding eqs by simp
qed (use assms in \<open>simp add: enc_val_piece\<close>)

section \<open>The specification: the nearest encoding, ties to even\<close>

definition mid_real :: "nat \<Rightarrow> int \<Rightarrow> nat \<Rightarrow> real" where
  "mid_real p den k = (enc_real p den k + enc_real p den (Suc k)) / 2"

definition lower_ok :: "nat \<Rightarrow> int \<Rightarrow> real \<Rightarrow> nat \<Rightarrow> bool" where
  "lower_ok p den x k \<longleftrightarrow> k = 0 \<or> mid_real p den (k - 1) < x \<or> mid_real p den (k - 1) = x \<and> even k"

definition upper_ok :: "nat \<Rightarrow> int \<Rightarrow> real \<Rightarrow> nat \<Rightarrow> bool" where
  "upper_ok p den x k \<longleftrightarrow> x < mid_real p den k \<or> x = mid_real p den k \<and> even k"

definition nearest :: "nat \<Rightarrow> int \<Rightarrow> real \<Rightarrow> nat \<Rightarrow> bool" where
  "nearest p den x k \<longleftrightarrow> lower_ok p den x k \<and> upper_ok p den x k"

lemma mid_real_less: "j < k \<Longrightarrow> mid_real p den j < mid_real p den k"
  unfolding mid_real_def
  by (intro divide_strict_right_mono add_strict_mono) (simp_all add: enc_real_less_iff)

lemma mid_real_le: "j \<le> k \<Longrightarrow> mid_real p den j \<le> mid_real p den k"
  using mid_real_less [of j k p den] by (cases "j = k") auto

lemma nearest_unique:
  assumes "nearest p den x j" and "nearest p den x k"
  shows "j = k"
proof -
  have "False" if "nearest p den x j" "nearest p den x k" "j < k" for j k
  proof -
    have "mid_real p den (k - 1) \<le> x" "x \<le> mid_real p den j"
      using that by (auto simp: nearest_def lower_ok_def upper_ok_def)
    moreover have "mid_real p den j \<le> mid_real p den (k - 1)"
      using that(3) by (intro mid_real_le) simp
    ultimately have eq: "x = mid_real p den j" "x = mid_real p den (k - 1)"
      by linarith+
    then have "\<not> j < k - 1"
      using mid_real_less [of j "k - 1" p den] by auto
    then have "k = Suc j"
      using that(3) by simp
    moreover have "even j" "even k"
      using that eq by (auto simp: nearest_def lower_ok_def upper_ok_def)
    ultimately show False
      by simp
  qed
  then show ?thesis
    using assms by (metis linorder_neqE_nat)
qed

text \<open>It is a nearest one.\<close>

lemma nearest_closest:
  assumes "nearest p den x k"
  shows "\<bar>enc_real p den k - x\<bar> \<le> \<bar>enc_real p den j - x\<bar>"
proof (cases j k rule: linorder_cases)
  case less
  then have "mid_real p den (k - 1) \<le> x"
    using assms by (auto simp: nearest_def lower_ok_def)
  moreover have "enc_real p den j \<le> enc_real p den (k - 1)"
    using less by (simp add: not_less [symmetric] enc_real_less_iff)
  moreover have "enc_real p den (k - 1) < enc_real p den k"
    using less by (simp add: enc_real_less_iff)
  ultimately show ?thesis
    using less by (simp add: mid_real_def)
next
  case greater
  then have "x \<le> mid_real p den k"
    using assms by (auto simp: nearest_def upper_ok_def)
  moreover have "enc_real p den (Suc k) \<le> enc_real p den j"
    using greater by (simp add: not_less [symmetric] enc_real_less_iff)
  moreover have "enc_real p den k < enc_real p den (Suc k)"
    by (simp add: enc_real_less_iff)
  ultimately show ?thesis
    by (simp add: mid_real_def)
qed simp

lemma nearest_exact: "nearest p den (enc_real p den k) k"
proof -
  have "mid_real p den (k - 1) < enc_real p den k" if "0 < k"
    using that enc_real_less_iff [of p den "k - 1" k] by (simp add: mid_real_def)
  moreover have "enc_real p den k < mid_real p den k"
    using enc_real_less_iff [of p den k "Suc k"] by (simp add: mid_real_def)
  ultimately show ?thesis
    by (auto simp: nearest_def lower_ok_def upper_ok_def)
qed

text \<open>The same in units of the smallest denormal.\<close>

lemma mid_real_scaled:
  "mid_real p den k < y * 2 powi den \<longleftrightarrow> real (enc_val p k + enc_val p (Suc k)) < 2 * y"
  "y * 2 powi den < mid_real p den k \<longleftrightarrow> 2 * y < real (enc_val p k + enc_val p (Suc k))"
  "mid_real p den k = y * 2 powi den \<longleftrightarrow> real (enc_val p k + enc_val p (Suc k)) = 2 * y"
  "y * 2 powi den = mid_real p den k \<longleftrightarrow> 2 * y = real (enc_val p k + enc_val p (Suc k))"
proof -
  define S P where "S = real (enc_val p k + enc_val p (Suc k))" and "P = (2 :: real) powi den"
  have P: "0 < P"
    by (simp add: P_def)
  have M: "mid_real p den k = S / 2 * P"
    by (simp add: mid_real_def enc_real_def field_simps S_def P_def)
  have "S / 2 * P < y * P \<longleftrightarrow> S < 2 * y" "y * P < S / 2 * P \<longleftrightarrow> 2 * y < S"
    unfolding mult_less_cancel_right_pos [OF P] by auto
  moreover have "S / 2 * P = y * P \<longleftrightarrow> S = 2 * y" "y * P = S / 2 * P \<longleftrightarrow> 2 * y = S"
    using P by auto
  ultimately show "mid_real p den k < y * 2 powi den \<longleftrightarrow> real (enc_val p k + enc_val p (Suc k)) < 2 * y"
    "y * 2 powi den < mid_real p den k \<longleftrightarrow> 2 * y < real (enc_val p k + enc_val p (Suc k))"
    "mid_real p den k = y * 2 powi den \<longleftrightarrow> real (enc_val p k + enc_val p (Suc k)) = 2 * y"
    "y * 2 powi den = mid_real p den k \<longleftrightarrow> 2 * y = real (enc_val p k + enc_val p (Suc k))"
    unfolding S_def [symmetric] P_def [symmetric] M by auto
qed

lemma lower_ok_scaled:
  "lower_ok p den (y * 2 powi den) k \<longleftrightarrow> k = 0 \<or> real (enc_val p (k - 1) + enc_val p k) < 2 * y \<or>
    real (enc_val p (k - 1) + enc_val p k) = 2 * y \<and> even k"
  by (cases k) (auto simp: lower_ok_def mid_real_scaled)

lemma upper_ok_scaled:
  "upper_ok p den (y * 2 powi den) k \<longleftrightarrow> 2 * y < real (enc_val p k + enc_val p (Suc k)) \<or>
    2 * y = real (enc_val p k + enc_val p (Suc k)) \<and> even k"
  by (simp add: upper_ok_def mid_real_scaled)

lemma ratio_compare:
  assumes "0 < d"
  shows "2 * (real n / real d) < real m \<longleftrightarrow> 2 * n < m * d" "real m < 2 * (real n / real d) \<longleftrightarrow> m * d < 2 * n"
    "2 * (real n / real d) = real m \<longleftrightarrow> 2 * n = m * d" "real m = 2 * (real n / real d) \<longleftrightarrow> m * d = 2 * n"
proof -
  have d: "0 < real d" "real d \<noteq> 0"
    using assms by simp_all
  have eq: "2 * (real n / real d) = real (2 * n) / real d"
    by simp
  show "2 * (real n / real d) < real m \<longleftrightarrow> 2 * n < m * d" "real m < 2 * (real n / real d) \<longleftrightarrow> m * d < 2 * n"
    unfolding eq pos_divide_less_eq [OF d(1)] pos_less_divide_eq [OF d(1)]
    by (simp_all only: of_nat_mult [symmetric] of_nat_less_iff)
  show "2 * (real n / real d) = real m \<longleftrightarrow> 2 * n = m * d" "real m = 2 * (real n / real d) \<longleftrightarrow> m * d = 2 * n"
    unfolding eq nonzero_divide_eq_eq [OF d(2)] nonzero_eq_divide_eq [OF d(2)]
    by (simp_all only: of_nat_mult [symmetric] of_nat_eq_iff)
qed

text \<open>The rounded quotient is off by half at most, and by exactly half only where it is even.\<close>

lemma round_even_bounds:
  assumes "0 < d" and "f = round_even n d"
  shows "2 * n < (2 * f + 1) * d \<or> 2 * n = (2 * f + 1) * d \<and> even f"
    and "2 * f * d < 2 * n + d \<or> 2 * f * d = 2 * n + d \<and> even f"
proof -
  define q r where "q = n div d" and "r = n mod d"
  have n: "n = q * d + r" "r < d"
    using assms(1) by (simp_all add: q_def r_def)
  have f: "f = (if 2 * r < d \<or> 2 * r = d \<and> even q then q else q + 1)"
    by (simp add: assms(2) round_even_def q_def r_def)
  have Q: "(2 * q + 1) * d = 2 * (q * d) + d" "(2 * (q + 1) + 1) * d = 2 * (q * d) + 3 * d" "2 * (q + 1) * d = 2 * (q * d) + 2 * d"
    "2 * q * d = 2 * (q * d)"
    by (simp_all add: algebra_simps)
  show "2 * n < (2 * f + 1) * d \<or> 2 * n = (2 * f + 1) * d \<and> even f"
    using n by (auto simp: f Q)
  show "2 * f * d < 2 * n + d \<or> 2 * f * d = 2 * n + d \<and> even f"
    using n by (auto simp: f Q)
qed

lemma round_even_ge: "0 < d \<Longrightarrow> m * d \<le> n \<Longrightarrow> m \<le> round_even n d"
  using div_le_mono [of "m * d" n d] by (auto simp: round_even_def)

lemma round_even_le: "0 < d \<Longrightarrow> n < m * d \<Longrightarrow> round_even n d \<le> m"
  using less_mult_imp_div_less [of n m d] by (auto simp: round_even_def)

theorem round_enc_nearest:
  assumes "0 < d" and "0 < p"
  shows "nearest p den (real n / real d * 2 powi den) (round_enc p n d)"
proof -
  define e where "e = ilog2 (n div d) - p"
  define f where "f = round_even n (d * 2 ^ e)"
  have k: "round_enc p n d = e * 2 ^ p + f" (is "_ = ?k")
    by (simp add: round_enc_def e_def f_def Let_def)
  have D: "0 < d * 2 ^ e"
    using assms(1) by simp
  have M: "n div d < 2 ^ Suc p * 2 ^ e"
  proof (cases "n div d = 0")
    case False
    have "2 ^ Suc (ilog2 (n div d)) \<le> (2 :: nat) ^ (Suc p + e)"
      by (rule power_increasing) (simp_all add: e_def)
    then show ?thesis
      using ilog2_bounds [of "n div d"] False unfolding power_add by linarith
  qed simp
  have hi: "n < 2 ^ Suc p * (d * 2 ^ e)"
    using M assms(1) by (simp add: div_less_iff_less_mult mult.assoc mult.left_commute mult.commute)
  have lo: "e = 0 \<or> 2 ^ p * (d * 2 ^ e) \<le> n"
  proof (cases "e = 0")
    case False
    then have "ilog2 (n div d) = p + e"
      by (simp add: e_def)
    moreover have "0 < n div d"
      using False unfolding e_def by (metis diff_0_eq_0 ilog2_0 neq0_conv)
    ultimately have "2 ^ p * 2 ^ e \<le> n div d"
      using ilog2_bounds [of "n div d"] by (simp add: power_add)
    then have "2 ^ p * 2 ^ e * d \<le> n div d * d"
      by (rule mult_le_mono1)
    also have "\<dots> \<le> n"
      by simp
    finally show ?thesis
      by (simp add: ac_simps)
  qed simp
  have f_hi: "f \<le> 2 ^ Suc p"
    unfolding f_def by (rule round_even_le [OF D hi])
  have f_lo: "e = 0 \<or> 2 ^ p \<le> f"
    using lo by (auto simp: f_def intro: round_even_ge [OF D])
  have Ek: "enc_val p ?k = f * 2 ^ e"
    using f_hi f_lo by (rule enc_val_piece')
  have even: "even ?k \<longleftrightarrow> even f"
    using assms(2) by simp
  have upper: "2 * n < (enc_val p ?k + enc_val p (Suc ?k)) * d \<or> 2 * n = (enc_val p ?k + enc_val p (Suc ?k)) * d \<and> even f"
  proof (cases "f = 2 ^ Suc p")
    case True
    have "2 * n < 2 * (f * 2 ^ e) * d"
      using hi by (simp add: True ac_simps)
    also have "\<dots> \<le> (enc_val p ?k + enc_val p (Suc ?k)) * d"
      by (rule mult_le_mono1) (simp add: Ek [symmetric] enc_val_Suc)
    finally show ?thesis ..
  next
    case False
    then have "enc_val p (e * 2 ^ p + Suc f) = Suc f * 2 ^ e"
      using f_hi f_lo by (intro enc_val_piece') auto
    then have E: "enc_val p (Suc ?k) = Suc f * 2 ^ e"
      by simp
    have "(enc_val p ?k + enc_val p (Suc ?k)) * d = (2 * f + 1) * (d * 2 ^ e)"
      unfolding Ek E by (simp add: algebra_simps)
    then show ?thesis
      using round_even_bounds(1) [OF D f_def] by simp
  qed
  have lower: "?k = 0 \<or> (enc_val p (?k - 1) + enc_val p ?k) * d < 2 * n \<or> (enc_val p (?k - 1) + enc_val p ?k) * d = 2 * n \<and> even f"
  proof (cases "?k = 0 \<or> 0 < e \<and> f = 2 ^ p")
    case True
    then show ?thesis
    proof (elim disjE conjE)
      assume f: "0 < e" "f = 2 ^ p"
      have "enc_val p (?k - 1) < enc_val p ?k"
        using f by (intro enc_val_mono) simp
      then have "(enc_val p (?k - 1) + enc_val p ?k) * d < 2 * (f * 2 ^ e) * d"
        using assms(1) by (simp add: Ek)
      also have "\<dots> \<le> 2 * n"
        using lo f by (simp add: ac_simps)
      finally show ?thesis
        by simp
    qed simp
  next
    case False
    then obtain g where g: "f = Suc g" "e = 0 \<or> 2 ^ p \<le> g"
      using f_lo by (cases f) auto
    then have "enc_val p (e * 2 ^ p + g) = g * 2 ^ e"
      using f_hi by (intro enc_val_piece') auto
    then have E: "enc_val p (?k - 1) = g * 2 ^ e"
      by (simp add: g(1))
    have "(enc_val p (?k - 1) + enc_val p ?k) * d + d * 2 ^ e = 2 * f * (d * 2 ^ e)"
      unfolding Ek E by (simp add: g(1) algebra_simps)
    then show ?thesis
      using round_even_bounds(2) [OF D f_def] by linarith
  qed
  show ?thesis
    unfolding nearest_def lower_ok_scaled upper_ok_scaled k even ratio_compare [OF assms(1)]
    using lower upper by blast
qed

end
