(* ===== verification/Double_Arith.thy ===== *)
theory Double_Arith
  imports Double_Round
begin

unbundle bit_operations_syntax

text \<open>
  The operations on \<open>double\<close> and \<open>float\<close> values that the code leaves to the machine, on bit patterns.
  A finite magnitude is a natural number of units of the smallest denormal (\<open>2 ^ -1074\<close>).  A NaN
  result is the quiet one: no code here looks at the payload.
\<close>

section \<open>Operations\<close>

definition kInfinityBits :: nat where "kInfinityBits = 2047 * 2 ^ 52"

definition double_neg :: "double_bits \<Rightarrow> bool" where
  "double_neg d \<longleftrightarrow> Sign d < 0"

definition double_magnitude :: "double_bits \<Rightarrow> nat" where
  "double_magnitude d = enc_val 52 (unat d mod 2 ^ 63)"

definition double_scaled :: "double_bits \<Rightarrow> int" where
  "double_scaled d = Sign d * int (double_magnitude d)"

text \<open>The double next to \<open>n / d\<close> units, infinity where it is too large.\<close>

definition double_of_ratio :: "bool \<Rightarrow> nat \<Rightarrow> nat \<Rightarrow> double_bits" where
  "double_of_ratio neg n d =
    (let m = word_of_nat (min (round_enc 52 n d) kInfinityBits) in if neg then m OR kSignMask else m)"

definition double_infinity_of :: "bool \<Rightarrow> double_bits" where
  "double_infinity_of neg = (if neg then kInfinity OR kSignMask else kInfinity)"

definition double_of_int :: "int \<Rightarrow> double_bits" where
  "double_of_int i = double_of_ratio (i < 0) (nat \<bar>i\<bar> * 2 ^ 1074) 1"

definition double_uminus :: "double_bits \<Rightarrow> double_bits" where
  "double_uminus a = a XOR kSignMask"

definition double_mult :: "double_bits \<Rightarrow> double_bits \<Rightarrow> double_bits" where
  "double_mult a b =
    (if IsNan a \<or> IsNan b then kNaN
     else if IsInfinite a \<or> IsInfinite b then
       (if double_magnitude a = 0 \<or> double_magnitude b = 0 then kNaN else double_infinity_of (double_neg a \<noteq> double_neg b))
     else double_of_ratio (double_neg a \<noteq> double_neg b) (double_magnitude a * double_magnitude b) (2 ^ 1074))"

definition double_div :: "double_bits \<Rightarrow> double_bits \<Rightarrow> double_bits" where
  "double_div a b =
    (if IsNan a \<or> IsNan b then kNaN
     else if IsInfinite a then (if IsInfinite b then kNaN else double_infinity_of (double_neg a \<noteq> double_neg b))
     else if IsInfinite b then double_of_ratio (double_neg a \<noteq> double_neg b) 0 1
     else if double_magnitude b = 0 then
       (if double_magnitude a = 0 then kNaN else double_infinity_of (double_neg a \<noteq> double_neg b))
     else double_of_ratio (double_neg a \<noteq> double_neg b) (double_magnitude a * 2 ^ 1074) (double_magnitude b))"

definition double_sub :: "double_bits \<Rightarrow> double_bits \<Rightarrow> double_bits" where
  "double_sub a b =
    (if IsNan a \<or> IsNan b then kNaN
     else if IsInfinite a then (if IsInfinite b \<and> double_neg a = double_neg b then kNaN else a)
     else if IsInfinite b then double_uminus b
     else let s = double_scaled a - double_scaled b in
       double_of_ratio (if s = 0 then double_neg a \<and> \<not> double_neg b else s < 0) (nat \<bar>s\<bar>) 1)"

definition double_less :: "double_bits \<Rightarrow> double_bits \<Rightarrow> bool" where
  "double_less a b \<longleftrightarrow> \<not> IsNan a \<and> \<not> IsNan b \<and> double_scaled a < double_scaled b"

definition double_equal :: "double_bits \<Rightarrow> double_bits \<Rightarrow> bool" where
  "double_equal a b \<longleftrightarrow> \<not> IsNan a \<and> \<not> IsNan b \<and> double_scaled a = double_scaled b"

text \<open>\<open>static_cast<int>(ceil(d))\<close> of a finite \<open>d\<close>.\<close>

definition double_ceil_int :: "double_bits \<Rightarrow> int" where
  "double_ceil_int d = - ((- double_scaled d) div 2 ^ 1074)"

text \<open>\<open>static_cast<float>(d)\<close> and \<open>static_cast<double>(f)\<close>.\<close>

definition single_of_double :: "double_bits \<Rightarrow> single_bits" where
  "single_of_double d =
    (if IsNan d then Single_kNaN
     else let m = word_of_nat (min (round_enc 23 (double_magnitude d) (2 ^ 925)) (255 * 2 ^ 23))
       in if double_neg d then m OR Single_kSignMask else m)"

definition double_of_single :: "single_bits \<Rightarrow> double_bits" where
  "double_of_single f =
    (if Single_IsNan f then kNaN
     else if Single_IsInfinite f then double_infinity_of (Single_Sign f < 0)
     else double_of_ratio (Single_Sign f < 0) (enc_val 23 (unat f mod 2 ^ 31) * 2 ^ 925) 1)"

section \<open>Correctly rounded results\<close>

definition double_nearest :: "real \<Rightarrow> double_bits \<Rightarrow> bool" where
  "double_nearest x r \<longleftrightarrow> unat r \<le> kInfinityBits \<and> lower_ok 52 kDenormalExponent x (unat r) \<and>
    (unat r < kInfinityBits \<longrightarrow> upper_ok 52 kDenormalExponent x (unat r))"

lemma kDenormalExponent_eq: "kDenormalExponent = - 1074"
  by (simp add: double_consts)

lemma lower_ok_less:
  assumes "lower_ok p den x k" and "j < k"
  shows "lower_ok p den x j"
proof (cases "j = 0")
  case False
  then have "j - 1 < k - 1"
    using assms(2) by simp
  then have "mid_real p den (j - 1) < mid_real p den (k - 1)"
    by (rule mid_real_less)
  then show ?thesis
    using assms by (auto simp: lower_ok_def)
qed (simp add: lower_ok_def)

lemma nearest_capped:
  assumes "nearest p den x k" and "j = min k m"
  shows "j \<le> m \<and> lower_ok p den x j \<and> (j < m \<longrightarrow> upper_ok p den x j)"
  using assms lower_ok_less [of p den x k m] by (auto simp: nearest_def min_def)

lemma capped_word:
  assumes "m \<le> kInfinityBits"
  shows "unat (word_of_nat m :: u64) = m"
proof -
  have "m < 2 ^ 64"
    using assms by (simp add: kInfinityBits_def)
  then show ?thesis
    by (intro of_nat_inverse [OF refl]) simp
qed

lemma double_of_ratio_nearest:
  assumes "0 < d"
  shows "double_nearest (real n / real d * 2 powi kDenormalExponent) (double_of_ratio False n d)"
proof -
  define m where "m = min (round_enc 52 n d) kInfinityBits"
  have m: "unat (word_of_nat m :: u64) = m"
    by (rule capped_word) (simp add: m_def)
  have "nearest 52 kDenormalExponent (real n / real d * 2 powi kDenormalExponent) (round_enc 52 n d)"
    using assms by (intro round_enc_nearest) simp_all
  from nearest_capped [OF this m_def] show ?thesis
    by (simp add: double_nearest_def double_of_ratio_def m Let_def flip: m_def)
qed

lemma double_nearest_unique:
  assumes "double_nearest x a" and "double_nearest x b"
  shows "a = b"
proof -
  have "False" if "double_nearest x a" "double_nearest x b" "unat a < unat b" for a b
  proof -
    have "nearest 52 kDenormalExponent x (unat a)" and b: "lower_ok 52 kDenormalExponent x (unat b)"
      using that by (auto simp: double_nearest_def nearest_def)
    then have a: "x \<le> mid_real 52 kDenormalExponent (unat a)" "x = mid_real 52 kDenormalExponent (unat a) \<longrightarrow> even (unat a)"
      by (auto simp: nearest_def upper_ok_def)
    have "mid_real 52 kDenormalExponent (unat a) \<le> mid_real 52 kDenormalExponent (unat b - 1)"
      using that(3) by (intro mid_real_le) simp
    then have eq: "x = mid_real 52 kDenormalExponent (unat a)" "mid_real 52 kDenormalExponent (unat b - 1) = x" "even (unat b)"
      using a(1) b that(3) by (auto simp: lower_ok_def)
    then have "\<not> unat a < unat b - 1"
      using mid_real_less [of "unat a" "unat b - 1" 52 kDenormalExponent] by auto
    then have "unat b = Suc (unat a)"
      using that(3) by simp
    with a(2) eq show False
      by simp
  qed
  then show ?thesis
    using assms by (metis linorder_neqE_nat word_unat_eq_iff)
qed

lemma double_nearest_exact: "double_finite_pos d \<Longrightarrow> double_nearest (double_value d) d"
  using nearest_exact [of 52 kDenormalExponent "unat d"]
  by (auto simp: double_nearest_def double_value_def double_finite_pos_iff kInfinityBits_def nearest_def
      double_fields)


section \<open>Signed values and rounding errors\<close>

lemma or_sign_mask:
  assumes "m < 2 ^ 63"
  shows "unat ((word_of_nat m :: u64) OR kSignMask) = 2 ^ 63 + m"
proof -
  define w :: u64 where "w = word_of_nat m"
  have w: "unat w = m"
    unfolding w_def by (rule of_nat_inverse [OF refl]) (use assms in simp)
  have "w AND kSignMask = 0"
    using assms unfolding double_masks by (simp add: and_not_mask_zero w)
  then have "w OR kSignMask = w + kSignMask"
    by (rule disjunctive_add_eq_or [symmetric])
  moreover have "unat (w + kSignMask) = m + 2 ^ 63"
    using assms by (subst unat_plus) (simp_all add: w kSignMask_def)
  ultimately show ?thesis
    by (simp add: w_def)
qed

lemma pack_sign:
  assumes "m \<le> kInfinityBits" and "r = (if neg then word_of_nat m OR kSignMask else word_of_nat m)"
  shows "double_neg r = neg" and "unat r mod 2 ^ 63 = m" and "double_scaled r = (if neg then - 1 else 1) * int (enc_val 52 m)"
    and "m < kInfinityBits \<Longrightarrow> \<not> IsNan r \<and> \<not> IsInfinite r"
proof -
  have m: "m < 2 ^ 63"
    using assms(1) by (simp add: kInfinityBits_def)
  have r: "unat r = (if neg then 2 ^ 63 + m else m)"
    using or_sign_mask [OF m] capped_word [OF assms(1)] by (simp add: assms(2))
  then have "0 < Sign r \<longleftrightarrow> \<not> neg"
    using m by (simp add: double_fields)
  then have sign: "Sign r = (if neg then - 1 else 1)"
    by (simp add: Sign_def split: if_splits)
  then show "double_neg r = neg"
    by (simp add: double_neg_def)
  show mod: "unat r mod 2 ^ 63 = m"
    using m by (simp add: r)
  show "double_scaled r = (if neg then - 1 else 1) * int (enc_val 52 m)"
    unfolding double_scaled_def double_magnitude_def mod sign by simp
  show "\<not> IsNan r \<and> \<not> IsInfinite r" if "m < kInfinityBits"
  proof -
    have "2 ^ 52 * (unat r div 2 ^ 52 mod 2 ^ 11) \<le> unat r mod (2 ^ 52 * 2 ^ 11)"
      unfolding mod_mult2_eq by simp
    then have "2 ^ 52 * (unat r div 2 ^ 52 mod 2 ^ 11) < 2047 * 2 ^ 52"
      using that mod by (simp add: kInfinityBits_def)
    then have "\<not> IsSpecial r"
      unfolding double_special by auto
    then show ?thesis
      by (simp add: IsSpecial_def IsNan_def IsInfinite_def)
  qed
qed

lemma enc_val_representable:
  assumes "f \<le> 2 ^ Suc p"
  shows "\<exists>k\<le>(e + 1) * 2 ^ p + 2 ^ p. enc_val p k = f * 2 ^ e"
  using assms
proof (induction e arbitrary: f)
  case 0
  then have "enc_val p (0 * 2 ^ p + f) = f * 2 ^ 0"
    by (intro enc_val_piece') simp_all
  then show ?case
    using 0 by (intro exI [of _ f]) simp
next
  case (Suc e)
  show ?case
  proof (cases "f < 2 ^ p")
    case True
    then obtain k where "k \<le> (e + 1) * 2 ^ p + 2 ^ p" "enc_val p k = 2 * f * 2 ^ e"
      using Suc.IH [of "2 * f"] by auto
    then show ?thesis
      by (intro exI [of _ k]) simp
  next
    case False
    then have "enc_val p (Suc e * 2 ^ p + f) = f * 2 ^ Suc e"
      using Suc.prems by (intro enc_val_piece') simp_all
    then show ?thesis
      using Suc.prems by (intro exI [of _ "Suc e * 2 ^ p + f"]) simp
  qed
qed

lemma round_enc_exact:
  assumes "0 < p" and "0 < d"
  shows "round_enc p (enc_val p k * d) d = k"
proof -
  have "nearest p 0 (real (enc_val p k * d) / real d * 2 powi 0) (round_enc p (enc_val p k * d) d)"
    using assms by (intro round_enc_nearest)
  moreover have "nearest p 0 (real (enc_val p k * d) / real d * 2 powi 0) k"
    using nearest_exact [of p 0 k] assms(2) by (simp add: enc_real_def)
  ultimately show ?thesis
    by (rule nearest_unique)
qed

lemma round_enc_error:
  assumes "0 < p" and "0 < d" and "n \<le> 2 ^ Suc p * 2 ^ e * d"
  shows "\<bar>int (enc_val p (round_enc p n d)) * int d - int n\<bar> \<le> 2 ^ e * int d"
proof -
  define D where "D = d * 2 ^ e"
  have D: "0 < D" "n \<le> 2 ^ Suc p * D"
    using assms by (simp_all add: D_def ac_simps)
  define f where "f = n div D"
  have "f \<le> 2 ^ Suc p"
    using div_le_mono [OF D(2), of D] D(1) by (simp add: f_def)
  then obtain j where j: "enc_val p j = f * 2 ^ e"
    using enc_val_representable by blast
  have "n = f * D + n mod D" "n mod D < D"
    using D(1) by (simp_all add: f_def)
  then have "real n = real f * real D + real (n mod D)" "real (n mod D) \<le> real D"
    by (metis of_nat_add of_nat_mult, metis less_imp_le of_nat_le_iff)
  then have "\<bar>real f * real D - real n\<bar> \<le> real D"
    by linarith
  have "\<bar>enc_real p 0 (round_enc p n d) - real n / real d * 2 powi 0\<bar> \<le> \<bar>enc_real p 0 j - real n / real d * 2 powi 0\<bar>"
    by (rule nearest_closest [OF round_enc_nearest]) (use assms in simp_all)
  then have "\<bar>real (enc_val p (round_enc p n d)) - real n / real d\<bar> * real d \<le> \<bar>real (enc_val p j) - real n / real d\<bar> * real d"
    by (intro mult_right_mono) (simp_all add: enc_real_def)
  moreover have "\<bar>x - real n / real d\<bar> * real d = \<bar>x * real d - real n\<bar>" for x
    using assms(2) abs_mult_pos [of "real d" "x - real n / real d"] by (simp add: left_diff_distrib)
  ultimately have "\<bar>real (enc_val p (round_enc p n d)) * real d - real n\<bar> \<le> \<bar>real f * real D - real n\<bar>"
    by (simp add: j D_def ac_simps)
  also have "\<dots> \<le> real D"
    by fact
  finally have "\<bar>real_of_int (int (enc_val p (round_enc p n d)) * int d - int n)\<bar> \<le> real_of_int (int D)"
    by simp
  then show ?thesis
    by (simp only: of_int_abs [symmetric] of_int_le_iff) (simp add: D_def ac_simps)
qed

lemma enc_val_infinity: "enc_val 52 kInfinityBits = 2 ^ 52 * 2 ^ 2046"
  using enc_val_piece [of "2 ^ 52" 52 2046] by (simp add: kInfinityBits_def)

lemma round_enc_finite:
  assumes "0 < d" and "n \<le> 2 ^ 53 * 2 ^ e * d" and "e \<le> 2000"
  shows "round_enc 52 n d < kInfinityBits"
proof -
  define E where "E = enc_val 52 (round_enc 52 n d)"
  have "\<bar>int E * int d - int n\<bar> \<le> 2 ^ e * int d"
    unfolding E_def by (rule round_enc_error) (use assms in simp_all)
  then have "int E * int d \<le> int n + 2 ^ e * int d"
    by linarith
  also have "\<dots> \<le> int (2 ^ 53 * 2 ^ e * d) + 2 ^ e * int d"
    using assms(2) by linarith
  finally have "int E * int d \<le> (2 ^ 53 * 2 ^ e + 2 ^ e) * int d"
    by (simp only: distrib_right of_nat_mult of_nat_power of_nat_numeral)
  then have "int E \<le> 2 ^ 53 * 2 ^ e + 2 ^ e"
    using assms(1) by simp
  also have "\<dots> \<le> 2 ^ 54 * 2 ^ e"
    by simp
  also have "\<dots> \<le> 2 ^ 54 * 2 ^ 2000"
    using assms(3) by (intro mult_left_mono power_increasing) simp_all
  also have "\<dots> < int (enc_val 52 kInfinityBits)"
    unfolding enc_val_infinity by (simp add: power_add [symmetric] del: power_Suc)
  finally show ?thesis
    by (simp add: E_def enc_val_less_iff)
qed

lemma double_of_ratio_error:
  assumes "0 < d" and "n \<le> 2 ^ 53 * 2 ^ e * d" and "e \<le> 2000" and r: "r = double_of_ratio neg n d"
  shows "\<not> IsNan r \<and> \<not> IsInfinite r" and "double_neg r = neg"
    and "\<bar>double_scaled r * int d - (if neg then - 1 else 1) * int n\<bar> \<le> 2 ^ e * int d"
proof -
  define m where "m = round_enc 52 n d"
  have m: "m < kInfinityBits"
    unfolding m_def by (rule round_enc_finite [OF assms(1-3)])
  then have "r = (if neg then word_of_nat m OR kSignMask else word_of_nat m)"
    by (simp add: r double_of_ratio_def Let_def flip: m_def)
  note pack = pack_sign [OF less_imp_le [OF m] this]
  show "\<not> IsNan r \<and> \<not> IsInfinite r" "double_neg r = neg"
    by (rule pack(4) [OF m], rule pack(1))
  have "\<bar>int (enc_val 52 m) * int d - int n\<bar> \<le> 2 ^ e * int d"
    unfolding m_def by (rule round_enc_error) (use assms in simp_all)
  then show "\<bar>double_scaled r * int d - (if neg then - 1 else 1) * int n\<bar> \<le> 2 ^ e * int d"
    unfolding pack(3) by (cases neg) (simp_all add: abs_minus_commute)
qed

lemma double_scaled_magnitude: "int (double_magnitude a) = \<bar>double_scaled a\<bar>" "double_scaled a < 0 \<Longrightarrow> double_neg a"
  "0 < double_scaled a \<Longrightarrow> \<not> double_neg a"
  by (simp_all add: double_scaled_def Sign_def double_neg_def split: if_splits)

lemma double_scaled_sign: "double_scaled a = (if double_neg a then - 1 else 1) * int (double_magnitude a)"
  by (simp add: double_scaled_def Sign_def double_neg_def)

definition double_finite :: "double_bits \<Rightarrow> bool" where
  "double_finite a \<longleftrightarrow> \<not> IsNan a \<and> \<not> IsInfinite a"

lemma double_mult_error:
  assumes "double_finite a" "double_finite b" and "\<bar>double_scaled a * double_scaled b\<bar> \<le> 2 ^ 53 * 2 ^ e * 2 ^ 1074" and "e \<le> 2000"
  shows "double_finite (double_mult a b)"
    and "\<bar>double_scaled (double_mult a b) * 2 ^ 1074 - double_scaled a * double_scaled b\<bar> \<le> 2 ^ e * 2 ^ 1074"
proof -
  let ?n = "double_magnitude a * double_magnitude b"
  have r: "double_mult a b = double_of_ratio (double_neg a \<noteq> double_neg b) ?n (2 ^ 1074)"
    using assms(1,2) by (simp add: double_mult_def double_finite_def)
  have "int ?n \<le> int (2 ^ 53 * 2 ^ e * 2 ^ 1074)"
    using assms(3) by (simp only: of_nat_mult double_scaled_magnitude abs_mult [symmetric] of_nat_power of_nat_numeral)
  then have n: "?n \<le> 2 ^ 53 * 2 ^ e * 2 ^ 1074"
    by (simp only: of_nat_le_iff)
  have D: "(0 :: nat) < 2 ^ 1074"
    by (rule zero_less_power) simp
  note err = double_of_ratio_error [OF D n assms(4) r]
  show "double_finite (double_mult a b)"
    using err(1) by (simp add: double_finite_def)
  have "(if double_neg a \<noteq> double_neg b then - 1 else 1) * int ?n = double_scaled a * double_scaled b"
    unfolding double_scaled_sign by simp
  then show "\<bar>double_scaled (double_mult a b) * 2 ^ 1074 - double_scaled a * double_scaled b\<bar> \<le> 2 ^ e * 2 ^ 1074"
    using err(3) by (simp only: of_nat_power of_nat_numeral)
qed

lemma double_sub_error:
  assumes "double_finite a" "double_finite b" and "\<bar>double_scaled a - double_scaled b\<bar> \<le> 2 ^ 53 * 2 ^ e" and "e \<le> 2000"
  shows "double_finite (double_sub a b)"
    and "\<bar>double_scaled (double_sub a b) - (double_scaled a - double_scaled b)\<bar> \<le> 2 ^ e"
proof -
  define s where "s = double_scaled a - double_scaled b"
  define neg where "neg \<longleftrightarrow> (if s = 0 then double_neg a \<and> \<not> double_neg b else s < 0)"
  have r: "double_sub a b = double_of_ratio neg (nat \<bar>s\<bar>) 1"
    using assms(1,2) by (simp add: double_sub_def double_finite_def Let_def neg_def flip: s_def)
  have n: "nat \<bar>s\<bar> \<le> 2 ^ 53 * 2 ^ e * 1"
    using assms(3) by (simp add: nat_le_iff flip: s_def)
  note err = double_of_ratio_error [OF zero_less_one n assms(4) r]
  show "double_finite (double_sub a b)"
    using err(1) by (simp add: double_finite_def)
  have "(if neg then - 1 else 1) * int (nat \<bar>s\<bar>) = s"
    by (auto simp: neg_def)
  then show "\<bar>double_scaled (double_sub a b) - (double_scaled a - double_scaled b)\<bar> \<le> 2 ^ e"
    using err(3) by (simp add: s_def)
qed

lemma double_of_int_scaled:
  assumes "\<bar>i\<bar> \<le> 2 ^ 53"
  shows "double_finite (double_of_int i)" and "double_scaled (double_of_int i) = i * 2 ^ 1074"
proof -
  have n: "nat \<bar>i\<bar> \<le> 2 ^ Suc 52"
    using assms by (simp add: nat_le_iff)
  then have n': "nat \<bar>i\<bar> * 2 ^ 1074 \<le> 2 ^ 53 * 2 ^ 1074 * 1"
    unfolding mult_1_right by (intro mult_le_mono1) simp
  have "(1074 :: nat) \<le> 2000"
    by simp
  note err = double_of_ratio_error [OF zero_less_one n' this double_of_int_def]
  show "double_finite (double_of_int i)"
    using err(1) by (simp add: double_finite_def)
  obtain k where k: "enc_val 52 k = nat \<bar>i\<bar> * 2 ^ 1074"
    using enc_val_representable [OF n] by blast
  then have round: "round_enc 52 (nat \<bar>i\<bar> * 2 ^ 1074) 1 = k"
    using round_enc_exact [of 52 1 k] by simp
  have le: "k < kInfinityBits"
    using round_enc_finite [OF zero_less_one n'] unfolding round by simp
  have "double_of_int i = (if i < 0 then word_of_nat k OR kSignMask else word_of_nat k)"
    using le by (simp only: double_of_int_def double_of_ratio_def round Let_def min.absorb1 less_imp_le)
  from pack_sign(3) [OF less_imp_le [OF le] this] show "double_scaled (double_of_int i) = i * 2 ^ 1074"
    unfolding k by (simp only: of_nat_mult of_nat_power of_nat_numeral) simp
qed

end
