(* ===== verification/Power_Estimate.thy ===== *)
theory Power_Estimate
  imports Double_Arith
begin

unbundle bit_operations_syntax

text \<open>
  Estimates of decimal exponents.  \<open>EstimatePower\<close> of \<open>bignum-dtoa.cc\<close> computes the estimate with
  three double operations; its error is bounded here from the rounding of each of them, and two
  neighbouring fractions of the continued fraction of the logarithm of 2 (\<open>643 / 2136\<close> and
  \<open>146 / 485\<close>) turn the bounds on exponents into bounds on powers.
\<close>

section \<open>Powers of two and of ten\<close>

lemma five_step:
  assumes "(5 :: nat) ^ k \<le> a * 2 ^ e" and "5 ^ j * (a * a) \<le> b * 2 ^ s" and "m = k + k + j" and "t = e + e + s"
  shows "(5 :: nat) ^ m \<le> b * 2 ^ t"
proof -
  have "(5 :: nat) ^ m = 5 ^ j * (5 ^ k * 5 ^ k)"
    by (simp add: assms(3) power_add)
  also have "\<dots> \<le> 5 ^ j * ((a * 2 ^ e) * (a * 2 ^ e))"
    using assms(1) by (intro mult_le_mono order_refl)
  also have "\<dots> = 5 ^ j * (a * a) * 2 ^ (e + e)"
    by (simp add: power_add)
  also have "\<dots> \<le> b * 2 ^ s * 2 ^ (e + e)"
    using assms(2) by (rule mult_le_mono1)
  finally show ?thesis
    by (simp add: assms(4) power_add ac_simps)
qed

text \<open>The power, kept to 40 bits at each squaring.\<close>

lemma ten_643: "(10 :: nat) ^ 643 \<le> 2 ^ 2136"
proof -
  have "(5 :: nat) ^ 40 \<le> 1009741958683 * 2 ^ 53"
    by simp
  then have "(5 :: nat) ^ 80 \<le> 927301537673 * 2 ^ 146"
    by (rule five_step [where j = 0 and s = 40]) simp_all
  then have "(5 :: nat) ^ 160 \<le> 782063709058 * 2 ^ 332"
    by (rule five_step [where j = 0 and s = 40]) simp_all
  then have "(5 :: nat) ^ 321 \<le> 695335580788 * 2 ^ 706"
    by (rule five_step [where j = 1 and s = 42]) simp_all
  then have "(5 :: nat) ^ 643 \<le> 1099332552963 * 2 ^ 1453"
    by (rule five_step [where j = 1 and s = 41]) simp_all
  also have "\<dots> \<le> 2 ^ 40 * 2 ^ 1453"
    by (rule mult_le_mono1) simp
  also have "\<dots> = 2 ^ 1493"
    unfolding power_add [symmetric] by (rule arg_cong [where f = "power 2"]) simp
  finally have "(2 :: nat) ^ 643 * 5 ^ 643 \<le> 2 ^ 643 * 2 ^ 1493"
    by (rule mult_le_mono2)
  moreover have "(10 :: nat) ^ 643 = (2 * 5) ^ 643"
    by (rule arg_cong [where f = "\<lambda>x. x ^ 643"]) simp
  moreover have "(2 :: nat) ^ 643 * 2 ^ 1493 = 2 ^ 2136"
    unfolding power_add [symmetric] by (rule arg_cong [where f = "power 2"]) simp
  ultimately show ?thesis
    by (simp only: power_mult_distrib)
qed

lemma ten_le_two_nat:
  assumes "2136 * k \<le> 643 * x"
  shows "(10 :: nat) ^ k \<le> 2 ^ x"
proof -
  have "((10 :: nat) ^ 643) ^ k \<le> (2 ^ 2136) ^ k"
    using ten_643 by (rule power_mono) (rule le0)
  also have "\<dots> = 2 ^ (2136 * k)"
    by (simp only: power_mult)
  also have "\<dots> \<le> 2 ^ (643 * x)"
    using assms by (rule power_increasing) simp
  finally have "((10 :: nat) ^ k) ^ 643 \<le> (2 ^ x) ^ 643"
    by (simp only: power_mult [symmetric] mult.commute [of _ k] mult.commute [of _ x])
  then show ?thesis
    by (subst (asm) power_mono_iff) simp_all
qed

lemma two_le_ten_nat:
  assumes "146 * x \<le> 485 * k"
  shows "(2 :: nat) ^ x \<le> 10 ^ k"
proof -
  have "((2 :: nat) ^ 485) ^ x \<le> (10 ^ 146) ^ x"
    by (rule power_mono) simp_all
  also have "\<dots> = 10 ^ (146 * x)"
    by (simp only: power_mult)
  also have "\<dots> \<le> 10 ^ (485 * k)"
    using assms by (rule power_increasing) simp
  finally have "((2 :: nat) ^ x) ^ 485 \<le> (10 ^ k) ^ 485"
    by (simp only: power_mult [symmetric] mult.commute [of _ x] mult.commute [of _ k])
  then show ?thesis
    by (subst (asm) power_mono_iff) simp_all
qed

lemma powi_cases:
  fixes x :: int
  obtains n where "x = int n" and "(b :: real) powi x = b ^ n"
    | n where "x = - int n" and "b powi x = 1 / b ^ n"
  using that by (cases x rule: int_cases4) (auto simp: power_int_def field_simps)

lemma ten_le_two:
  assumes "2136 * k \<le> 643 * x" and "485 * k \<le> 146 * x"
  shows "(10 :: real) powi k \<le> 2 powi x"
proof (cases "0 \<le> k")
  case True
  then have "0 \<le> x"
    using assms(1) by linarith
  have "(10 :: nat) ^ nat k \<le> 2 ^ nat x"
    using assms(1) True \<open>0 \<le> x\<close> by (intro ten_le_two_nat) linarith
  then have "(10 :: real) ^ nat k \<le> 2 ^ nat x"
    by (metis of_nat_le_iff of_nat_numeral of_nat_power)
  then show ?thesis
    using True \<open>0 \<le> x\<close> by (simp add: power_int_def)
next
  case False
  show ?thesis
  proof (cases "0 \<le> x")
    case True
    have "(10 :: real) powi k \<le> 10 powi 0"
      using False by (intro power_int_increasing) simp_all
    also have "\<dots> \<le> 2 powi x"
      using True by (simp add: power_int_def)
    finally show ?thesis .
  next
    case neg: False
    have "(2 :: nat) ^ nat (- x) \<le> 10 ^ nat (- k)"
      using assms(2) False neg by (intro two_le_ten_nat) linarith
    then have "(2 :: real) ^ nat (- x) \<le> 10 ^ nat (- k)"
      by (metis of_nat_le_iff of_nat_numeral of_nat_power)
    then show ?thesis
      using False neg by (simp add: power_int_def power_inverse [symmetric] field_simps)
  qed
qed

lemma two_le_ten:
  assumes "643 * x \<le> 2136 * k" and "146 * x \<le> 485 * k"
  shows "(2 :: real) powi x \<le> 10 powi k"
proof -
  have "(10 :: real) powi (- k) \<le> 2 powi (- x)"
    using assms by (intro ten_le_two) linarith+
  then show ?thesis
    by (simp add: power_int_minus inverse_eq_divide field_simps)
qed

section \<open>The estimate\<close>

definition EstimatePower :: "int \<Rightarrow> int" where
  "EstimatePower exponent =
    (let k1Log10 = 0x3FD34413509F79FE;
         estimate = double_sub (double_mult (double_of_int (exponent + kSignificandSize - 1)) k1Log10) 0x3DDB7CDFD9D7BDBB
     in double_ceil_int estimate)"

lemma finite_constant:
  assumes "unat d < kInfinityBits"
  shows "double_finite d" and "double_scaled d = int (enc_val 52 (unat d))"
proof -
  have d: "d = (if False then word_of_nat (unat d) OR kSignMask else word_of_nat (unat d))"
    by (simp add: of_nat_unat)
  show "double_finite d" "double_scaled d = int (enc_val 52 (unat d))"
    using pack_sign(3,4) [OF less_imp_le [OF assms] d] assms by (simp_all add: double_finite_def)
qed

text \<open>\<open>k1Log10\<close> and the margin \<open>1e-10\<close> as fractions.\<close>

lemma log_constants:
  "double_finite 0x3FD34413509F79FE" "double_scaled 0x3FD34413509F79FE = 5422874305198590 * 2 ^ 1020"
  "double_finite 0x3DDB7CDFD9D7BDBB" "double_scaled 0x3DDB7CDFD9D7BDBB = 7737125245533627 * 2 ^ 988"
proof -
  have c: "unat (0x3FD34413509F79FE :: u64) = 1020 * 2 ^ 52 + 5422874305198590" "unat (0x3DDB7CDFD9D7BDBB :: u64) = 988 * 2 ^ 52 + 7737125245533627"
    by simp_all
  have fin: "unat (0x3FD34413509F79FE :: u64) < kInfinityBits" "unat (0x3DDB7CDFD9D7BDBB :: u64) < kInfinityBits"
    by (simp_all add: kInfinityBits_def)
  have "enc_val 52 (1020 * 2 ^ 52 + 5422874305198590) = 5422874305198590 * 2 ^ 1020"
    "enc_val 52 (988 * 2 ^ 52 + 7737125245533627) = 7737125245533627 * 2 ^ 988"
    by (rule enc_val_piece; simp)+
  then show "double_finite 0x3FD34413509F79FE" "double_scaled 0x3FD34413509F79FE = 5422874305198590 * 2 ^ 1020"
    "double_finite 0x3DDB7CDFD9D7BDBB" "double_scaled 0x3DDB7CDFD9D7BDBB = 7737125245533627 * 2 ^ 988"
    using finite_constant [OF fin(1)] finite_constant [OF fin(2)] unfolding c by (simp_all only: of_nat_mult of_nat_power of_nat_numeral)
qed

lemma double_ceil_int_bounds:
  assumes "k = double_ceil_int d"
  shows "(k - 1) * 2 ^ 1074 < double_scaled d" and "double_scaled d \<le> k * 2 ^ 1074"
proof -
  define U :: int where "U = 2 ^ 1074"
  have U: "0 < U"
    unfolding U_def by (rule zero_less_power) simp
  have k: "k = - (- double_scaled d div U)"
    by (simp only: assms double_ceil_int_def U_def)
  have "- double_scaled d = (- double_scaled d div U) * U + (- double_scaled d mod U)" "0 \<le> - double_scaled d mod U" "- double_scaled d mod U < U"
    using U by simp_all
  then have "- double_scaled d = - k * U + (- double_scaled d mod U)" "0 \<le> - double_scaled d mod U" "- double_scaled d mod U < U"
    by (simp_all add: k)
  then show "(k - 1) * 2 ^ 1074 < double_scaled d" "double_scaled d \<le> k * 2 ^ 1074"
    unfolding U_def [symmetric] by (simp_all add: algebra_simps)
qed

text \<open>A product with the constant \<open>1 / lg(10)\<close>.\<close>

lemma log_product:
  assumes "\<bar>x\<bar> \<le> 1300" and "P = double_mult (double_of_int x) 0x3FD34413509F79FE"
  shows "double_finite P" and "\<bar>double_scaled P - x * 5422874305198590 * 2 ^ 1020\<bar> \<le> 2 ^ 1031"
proof -
  have "\<bar>x\<bar> \<le> 2 ^ 53"
    using assms(1) by simp
  note x = double_of_int_scaled [OF this]
  have eq: "double_scaled (double_of_int x) * double_scaled 0x3FD34413509F79FE = x * 5422874305198590 * 2 ^ 1020 * 2 ^ 1074"
    unfolding x(2) log_constants by (simp only: ac_simps)
  have "\<bar>x * 5422874305198590 * 2 ^ 1020 * 2 ^ 1074\<bar> = \<bar>x * 5422874305198590\<bar> * 2 ^ 1020 * 2 ^ 1074"
    by (simp only: abs_mult power_abs abs_numeral)
  also have "\<dots> \<le> 2 ^ 64 * 2 ^ 1020 * 2 ^ 1074"
    using assms(1) by (intro mult_right_mono zero_le_power) (simp_all add: abs_mult)
  also have "\<dots> = 2 ^ 53 * 2 ^ 1031 * 2 ^ 1074"
    by (simp only: power_add [symmetric] numeral_plus_numeral) (simp only: add_num_simps)
  finally have le: "\<bar>double_scaled (double_of_int x) * double_scaled 0x3FD34413509F79FE\<bar> \<le> 2 ^ 53 * 2 ^ 1031 * 2 ^ 1074"
    unfolding eq .
  note err = double_mult_error [OF x(1) log_constants(1) le, unfolded eq, folded assms(2)]
  show "double_finite P"
    by (rule err(1)) simp
  have "\<bar>double_scaled P * 2 ^ 1074 - x * 5422874305198590 * 2 ^ 1020 * 2 ^ 1074\<bar> \<le> 2 ^ 1031 * 2 ^ 1074"
    by (rule err(2)) simp
  moreover have "0 < (2 :: int) ^ 1074"
    by (rule zero_less_power) simp
  ultimately show "\<bar>double_scaled P - x * 5422874305198590 * 2 ^ 1020\<bar> \<le> 2 ^ 1031"
    by (simp only: left_diff_distrib [symmetric] abs_mult power_abs abs_numeral mult_le_cancel_right_pos)
qed

lemma EstimatePower_bounds:
  assumes "\<bar>exponent + 52\<bar> \<le> 1300" and "k = EstimatePower exponent"
  shows "(k - 1) * 2 ^ 54 < (exponent + 52) * 5422874305198590"
    and "(exponent + 52) * 5422874305198590 \<le> k * 2 ^ 54 + 2 ^ 22"
proof -
  define x where "x = exponent + 52"
  define P where "P = double_mult (double_of_int x) 0x3FD34413509F79FE"
  define S where "S = double_sub P 0x3DDB7CDFD9D7BDBB"
  define U :: int where "U = 2 ^ 988"
  have U: "0 < U"
    unfolding U_def by (rule zero_less_power) simp
  have pow: "(2 :: int) ^ 1020 = 2 ^ 32 * U" "(2 :: int) ^ 1031 = 2 ^ 43 * U" "(2 :: int) ^ 1074 = 2 ^ 86 * U"
    unfolding U_def power_add [symmetric] by (simp_all only: numeral_plus_numeral add_num_simps)
  have k: "k = double_ceil_int S"
    by (simp add: assms(2) EstimatePower_def kSignificandSize_def Let_def S_def P_def x_def add.commute)
  note p = log_product [OF assms(1) [folded x_def] P_def]
  have p2: "\<bar>double_scaled P - x * 5422874305198590 * 2 ^ 32 * U\<bar> \<le> 2 ^ 43 * U"
    using p(2) unfolding pow by (simp only: mult.assoc)
  have "\<bar>x * 5422874305198590 * 2 ^ 32\<bar> \<le> 2 ^ 95"
    using assms(1) by (simp add: abs_mult flip: x_def)
  then have "\<bar>x * 5422874305198590 * 2 ^ 32\<bar> * U \<le> 2 ^ 95 * U"
    using U by (intro mult_right_mono) simp_all
  then have "\<bar>x * 5422874305198590 * 2 ^ 32 * U\<bar> \<le> 2 ^ 95 * U"
    using U by (simp only: abs_mult abs_of_pos)
  then have "\<bar>double_scaled P - 7737125245533627 * U\<bar> \<le> 2 ^ 53 * (2 ^ 43 * U)"
    using p2 U by simp
  then have le: "\<bar>double_scaled P - double_scaled 0x3DDB7CDFD9D7BDBB\<bar> \<le> 2 ^ 53 * 2 ^ 1031"
    unfolding log_constants pow(2) U_def .
  have "\<bar>double_scaled S - (double_scaled P - 7737125245533627 * U)\<bar> \<le> 2 ^ 43 * U"
    using double_sub_error(2) [OF p(1) log_constants(3) le] unfolding log_constants S_def pow(2) U_def by simp
  with p2 have s: "\<bar>double_scaled S - (x * 5422874305198590 * 2 ^ 32 * U - 7737125245533627 * U)\<bar> \<le> 2 ^ 44 * U"
    by simp
  have "(k - 1) * 2 ^ 86 * U < double_scaled S" "double_scaled S \<le> k * 2 ^ 86 * U"
    using double_ceil_int_bounds [OF k] unfolding pow(3) by (simp_all only: mult.assoc)
  with s have "(k - 1) * 2 ^ 86 * U < (x * 5422874305198590 * 2 ^ 32 - 7737125245533627 + 2 ^ 44) * U"
    "(x * 5422874305198590 * 2 ^ 32 - 7737125245533627 - 2 ^ 44) * U \<le> k * 2 ^ 86 * U"
    by (simp_all add: algebra_simps)
  then have "(k - 1) * 2 ^ 86 < x * 5422874305198590 * 2 ^ 32 - 7737125245533627 + 2 ^ 44"
    "x * 5422874305198590 * 2 ^ 32 - 7737125245533627 - 2 ^ 44 \<le> k * 2 ^ 86"
    using U by (simp_all only: mult_less_cancel_right_pos mult_le_cancel_right_pos)
  then show "(k - 1) * 2 ^ 54 < (exponent + 52) * 5422874305198590"
    "(exponent + 52) * 5422874305198590 \<le> k * 2 ^ 54 + 2 ^ 22"
    unfolding x_def [symmetric] by simp_all
qed

text \<open>
  The two fractions are neighbours, so no fraction with a denominator below their sum lies between
  them: a bound by the machine constant is a bound by both.
\<close>

lemma between_fractions:
  fixes m x :: int
  assumes "m * 2 ^ 54 < x * 5422874305198590" and "\<bar>x\<bar> \<le> 1300"
  shows "2136 * m \<le> 643 * x" and "485 * m \<le> 146 * x"
proof -
  have x: "- 1300 \<le> x" "x \<le> 1300"
    using assms(2) by simp_all
  show "2136 * m \<le> 643 * x"
  proof (cases "0 \<le> x")
    case True
    then have "485 * m < 146 * x"
      using assms(1) by simp
    then show ?thesis
      using x by linarith
  qed (use assms in simp)
  show "485 * m \<le> 146 * x"
  proof (cases "0 \<le> x")
    case False
    then have "2136 * m < 643 * x"
      using assms(1) by simp
    then show ?thesis
      using x by linarith
  qed (use assms in simp)
qed

theorem EstimatePower_spec:
  assumes "\<bar>exponent + 52\<bar> \<le> 1300" and "k = EstimatePower exponent"
  shows "(10 :: real) powi (k - 1) \<le> 2 powi (exponent + 52)" and "(2 :: real) powi (exponent + 50) \<le> 10 powi k"
proof -
  note k = EstimatePower_bounds [OF assms]
  show "(10 :: real) powi (k - 1) \<le> 2 powi (exponent + 52)"
    using between_fractions [OF k(1) assms(1)] by (rule ten_le_two)
  have x: "- 1300 \<le> exponent + 52" "exponent + 52 \<le> 1300"
    using assms(1) by simp_all
  have "643 * (exponent + 50) \<le> 2136 * k"
    using k(2) x by simp
  moreover have "146 * (exponent + 50) \<le> 485 * k"
    using k(2) x by simp
  ultimately show "(2 :: real) powi (exponent + 50) \<le> 10 powi k"
    by (rule two_le_ten)
qed

end
