(* ===== verification/Bignum_Dtoa.thy ===== *)
theory Bignum_Dtoa
  imports Bignum_Divide Bignum_Square Bignum_Compare Bignum_Multiply Digit_Generation Power_Estimate
begin

unbundle bit_operations_syntax

text \<open>
  \<open>bignum-dtoa.cc\<close>: exact decimal digits of a double from bignums.  The double is brought into the
  form \<open>numerator / denominator * 10 ^ estimated_power\<close>, scaled into the range from 1 to 10, and its
  digits are generated one division at a time.  The out parameters of the C++ functions are
  results; \<open>delta_plus\<close> and \<open>delta_minus\<close> are two objects unless \<open>same\<close> says that the pointer
  \<open>delta_plus\<close> has been set to \<open>delta_minus\<close>, in which case both names have the same value.
\<close>

datatype BignumDtoaMode =
  BIGNUM_DTOA_SHORTEST | BIGNUM_DTOA_SHORTEST_SINGLE | BIGNUM_DTOA_FIXED | BIGNUM_DTOA_PRECISION

definition NormalizedExponent :: "u64 \<Rightarrow> int \<Rightarrow> int option" where
  "NormalizedExponent significand e = do {
     ASSERT (significand \<noteq> 0);
     (f, e) \<leftarrow> while_opt (\<lambda>(f, e). f AND kHiddenBit = 0) (shift_up 1) (significand, e);
     Some e }"

section \<open>The start values\<close>

record scaled =
  numerator :: bignum
  denominator :: bignum
  delta_minus :: bignum
  delta_plus :: bignum

definition InitialScaledStartValuesPositiveExponent :: "u64 \<Rightarrow> int \<Rightarrow> int \<Rightarrow> bool \<Rightarrow> scaled \<Rightarrow> scaled option" where
  "InitialScaledStartValuesPositiveExponent significand e estimated_power need_boundary_deltas s = do {
     ASSERT (0 \<le> estimated_power);
     num \<leftarrow> AssignUInt64 (numerator s) significand;
     num \<leftarrow> ShiftLeft num (nat e);
     den \<leftarrow> AssignPowerUInt16 (denominator s) 10 (nat estimated_power);
     if need_boundary_deltas then do {
       den \<leftarrow> ShiftLeft den 1;
       num \<leftarrow> ShiftLeft num 1;
       dplus \<leftarrow> AssignUInt16 (delta_plus s) 1;
       dplus \<leftarrow> ShiftLeft dplus (nat e);
       dminus \<leftarrow> AssignUInt16 (delta_minus s) 1;
       dminus \<leftarrow> ShiftLeft dminus (nat e);
       Some \<lparr>numerator = num, denominator = den, delta_minus = dminus, delta_plus = dplus\<rparr> }
     else Some (s\<lparr>numerator := num, denominator := den\<rparr>) }"

definition InitialScaledStartValuesNegativeExponentPositivePower ::
    "u64 \<Rightarrow> int \<Rightarrow> int \<Rightarrow> bool \<Rightarrow> scaled \<Rightarrow> scaled option" where
  "InitialScaledStartValuesNegativeExponentPositivePower significand e estimated_power need_boundary_deltas s = do {
     num \<leftarrow> AssignUInt64 (numerator s) significand;
     den \<leftarrow> AssignPowerUInt16 (denominator s) 10 (nat estimated_power);
     den \<leftarrow> ShiftLeft den (nat (- e));
     if need_boundary_deltas then do {
       den \<leftarrow> ShiftLeft den 1;
       num \<leftarrow> ShiftLeft num 1;
       dplus \<leftarrow> AssignUInt16 (delta_plus s) 1;
       dminus \<leftarrow> AssignUInt16 (delta_minus s) 1;
       Some \<lparr>numerator = num, denominator = den, delta_minus = dminus, delta_plus = dplus\<rparr> }
     else Some (s\<lparr>numerator := num, denominator := den\<rparr>) }"

definition InitialScaledStartValuesNegativeExponentNegativePower ::
    "u64 \<Rightarrow> int \<Rightarrow> int \<Rightarrow> bool \<Rightarrow> scaled \<Rightarrow> scaled option" where
  "InitialScaledStartValuesNegativeExponentNegativePower significand e estimated_power need_boundary_deltas s = do {
     power_ten \<leftarrow> AssignPowerUInt16 (numerator s) 10 (nat (- estimated_power));
     (dplus, dminus) \<leftarrow>
       (if need_boundary_deltas then do {
          dplus \<leftarrow> AssignBignum (delta_plus s) power_ten;
          dminus \<leftarrow> AssignBignum (delta_minus s) power_ten;
          Some (dplus, dminus) }
        else Some (delta_plus s, delta_minus s));
     num \<leftarrow> MultiplyByUInt64 power_ten significand;
     den \<leftarrow> AssignUInt16 (denominator s) 1;
     den \<leftarrow> ShiftLeft den (nat (- e));
     (num, den) \<leftarrow>
       (if need_boundary_deltas then do {
          num \<leftarrow> ShiftLeft num 1;
          den \<leftarrow> ShiftLeft den 1;
          Some (num, den) }
        else Some (num, den));
     Some \<lparr>numerator = num, denominator = den, delta_minus = dminus, delta_plus = dplus\<rparr> }"

definition InitialScaledStartValues :: "u64 \<Rightarrow> int \<Rightarrow> bool \<Rightarrow> int \<Rightarrow> bool \<Rightarrow> scaled \<Rightarrow> scaled option" where
  "InitialScaledStartValues significand e lower_boundary_is_closer estimated_power need_boundary_deltas s = do {
     s \<leftarrow> (if 0 \<le> e then
            InitialScaledStartValuesPositiveExponent significand e estimated_power need_boundary_deltas s
          else if 0 \<le> estimated_power then
            InitialScaledStartValuesNegativeExponentPositivePower significand e estimated_power need_boundary_deltas s
          else
            InitialScaledStartValuesNegativeExponentNegativePower significand e estimated_power need_boundary_deltas s);
     if need_boundary_deltas \<and> lower_boundary_is_closer then do {
       den \<leftarrow> ShiftLeft (denominator s) 1;
       num \<leftarrow> ShiftLeft (numerator s) 1;
       dplus \<leftarrow> ShiftLeft (delta_plus s) 1;
       Some (s\<lparr>numerator := num, denominator := den, delta_plus := dplus\<rparr>) }
     else Some s }"

definition FixupMultiply10 :: "int \<Rightarrow> bool \<Rightarrow> scaled \<Rightarrow> (int \<times> scaled) option" where
  "FixupMultiply10 estimated_power is_even s = do {
     c \<leftarrow> PlusCompare (numerator s) (delta_plus s) (denominator s);
     let in_range = (if is_even then 0 \<le> c else 0 < c);
     if in_range then Some (estimated_power + 1, s)
     else do {
       num \<leftarrow> Times10 (numerator s);
       equal \<leftarrow> Equal (delta_minus s) (delta_plus s);
       if equal then do {
         dminus \<leftarrow> Times10 (delta_minus s);
         dplus \<leftarrow> AssignBignum (delta_plus s) dminus;
         Some (estimated_power, s\<lparr>numerator := num, delta_minus := dminus, delta_plus := dplus\<rparr>) }
       else do {
         dminus \<leftarrow> Times10 (delta_minus s);
         dplus \<leftarrow> Times10 (delta_plus s);
         Some (estimated_power, s\<lparr>numerator := num, delta_minus := dminus, delta_plus := dplus\<rparr>) } } }"

section \<open>The digit generators\<close>

text \<open>A vector index of type \<open>int\<close>.\<close>

definition wr_int :: "'a list \<Rightarrow> int \<Rightarrow> 'a \<Rightarrow> 'a list option" where
  "wr_int xs i x = do { ASSERT (0 \<le> i); wr xs (nat i) x }"

definition round_last_up :: "char list \<Rightarrow> nat \<Rightarrow> char list option" where
  "round_last_up buffer len = do {
     c \<leftarrow> rd buffer (len - 1);
     ASSERT (c \<noteq> CHR ''9'');
     incr buffer (len - 1) }"

record shortest_state =
  sh_done :: bool
  sh_numerator :: bignum
  sh_minus :: bignum
  sh_plus :: bignum
  sh_buffer :: "char list"
  sh_length :: nat

definition GenerateShortestDigits_step :: "bignum \<Rightarrow> bool \<Rightarrow> bool \<Rightarrow> shortest_state \<Rightarrow> shortest_state option" where
  "GenerateShortestDigits_step den is_even same s = do {
     (digit, num) \<leftarrow> DivideModuloIntBignum (sh_numerator s) den;
     ASSERT (digit \<le> 9);
     buffer \<leftarrow> wr (sh_buffer s) (sh_length s) (digit_char (unat digit));
     let len = sh_length s + 1;
     in_delta_room_minus \<leftarrow> (if is_even then LessEqual num (sh_minus s) else Less num (sh_minus s));
     c \<leftarrow> PlusCompare num (sh_plus s) den;
     let in_delta_room_plus = (if is_even then 0 \<le> c else 0 < c);
     let s = s\<lparr>sh_numerator := num, sh_buffer := buffer, sh_length := len\<rparr>;
     if \<not> in_delta_room_minus \<and> \<not> in_delta_room_plus then do {
       num \<leftarrow> Times10 num;
       dminus \<leftarrow> Times10 (sh_minus s);
       dplus \<leftarrow> (if same then Some dminus else Times10 (sh_plus s));
       Some (s\<lparr>sh_numerator := num, sh_minus := dminus, sh_plus := dplus\<rparr>) }
     else if in_delta_room_minus \<and> in_delta_room_plus then do {
       compare \<leftarrow> PlusCompare num num den;
       buffer \<leftarrow>
         (if compare < 0 then Some buffer
          else if 0 < compare then round_last_up buffer len
          else do {
            c \<leftarrow> rd buffer (len - 1);
            if (code_of c - code_of CHR ''0'') mod 2 = 0 then Some buffer else round_last_up buffer len });
       Some (s\<lparr>sh_done := True, sh_buffer := buffer\<rparr>) }
     else if in_delta_room_minus then Some (s\<lparr>sh_done := True\<rparr>)
     else do {
       buffer \<leftarrow> round_last_up buffer len;
       Some (s\<lparr>sh_done := True, sh_buffer := buffer\<rparr>) } }"

definition GenerateShortestDigits :: "scaled \<Rightarrow> bool \<Rightarrow> char list \<Rightarrow> (char list \<times> nat) option" where
  "GenerateShortestDigits s is_even buffer = do {
     same \<leftarrow> Equal (delta_minus s) (delta_plus s);
     let dplus = (if same then delta_minus s else delta_plus s);
     t \<leftarrow> while_opt (\<lambda>t. \<not> sh_done t) (GenerateShortestDigits_step (denominator s) is_even same)
       \<lparr>sh_done = False, sh_numerator = numerator s, sh_minus = delta_minus s, sh_plus = dplus,
        sh_buffer = buffer, sh_length = 0\<rparr>;
     Some (sh_buffer t, sh_length t) }"

definition GenerateCountedDigits_digit :: "bignum \<Rightarrow> bignum \<Rightarrow> (nat \<times> bignum) option" where
  "GenerateCountedDigits_digit den num = do {
     (digit, num) \<leftarrow> DivideModuloIntBignum num den;
     ASSERT (digit \<le> 9);
     num \<leftarrow> Times10 num;
     Some (unat digit, num) }"

definition GenerateCountedDigits :: "int \<Rightarrow> int \<Rightarrow> bignum \<Rightarrow> bignum \<Rightarrow> char list \<Rightarrow> (char list \<times> nat \<times> int) option" where
  "GenerateCountedDigits count decimal_point num den buffer = do {
     ASSERT (0 \<le> count);
     (num, buffer, _) \<leftarrow> emit_digits (GenerateCountedDigits_digit den) (\<lambda>_. False) (nat (count - 1)) (num, buffer, 0);
     (digit, num) \<leftarrow> DivideModuloIntBignum num den;
     c \<leftarrow> PlusCompare num num den;
     let digit = (if 0 \<le> c then digit + 1 else digit);
     ASSERT (digit \<le> 10);
     buffer \<leftarrow> wr_int buffer (count - 1) (digit_char (unat digit));
     buffer \<leftarrow> propagate_carry (nat (count - 1)) buffer;
     (buffer, decimal_point) \<leftarrow> carry_past_top buffer decimal_point;
     Some (buffer, nat count, decimal_point) }"

definition BignumToFixed :: "int \<Rightarrow> int \<Rightarrow> bignum \<Rightarrow> bignum \<Rightarrow> char list \<Rightarrow> (char list \<times> nat \<times> int) option" where
  "BignumToFixed requested_digits decimal_point num den buffer =
    (if requested_digits < - decimal_point then Some (buffer, 0, - requested_digits)
     else if - decimal_point = requested_digits then do {
       ASSERT (decimal_point = - requested_digits);
       den \<leftarrow> Times10 den;
       c \<leftarrow> PlusCompare num num den;
       if 0 \<le> c then do {
         buffer \<leftarrow> wr buffer 0 (CHR ''1'');
         Some (buffer, 1, decimal_point + 1) }
       else Some (buffer, 0, decimal_point) }
     else
       GenerateCountedDigits (decimal_point + requested_digits) decimal_point num den buffer)"

section \<open>BignumDtoa\<close>

definition scaled_new :: scaled where
  "scaled_new = \<lparr>numerator = Bignum_new, denominator = Bignum_new, delta_minus = Bignum_new, delta_plus = Bignum_new\<rparr>"

definition BignumDtoa :: "double_bits \<Rightarrow> BignumDtoaMode \<Rightarrow> int \<Rightarrow> char list \<Rightarrow> (char list \<times> nat \<times> int) option" where
  "BignumDtoa v mode requested_digits buffer = do {
     ASSERT (double_less 0 v);
     ASSERT (\<not> IsSpecial v);
     (significand, e, lower_boundary_is_closer) \<leftarrow>
       (if mode = BIGNUM_DTOA_SHORTEST_SINGLE then do {
          let f = single_of_double v;
          ASSERT (double_equal (double_of_single f) v);
          Some (ucast (Single_Significand f), Single_Exponent f, Single_LowerBoundaryIsCloser f) }
        else Some (Significand v, Exponent v, LowerBoundaryIsCloser v));
     let need_boundary_deltas = (mode = BIGNUM_DTOA_SHORTEST \<or> mode = BIGNUM_DTOA_SHORTEST_SINGLE);
     let is_even = (significand AND 1 = 0);
     normalized_exponent \<leftarrow> NormalizedExponent significand e;
     let estimated_power = EstimatePower normalized_exponent;
     if mode = BIGNUM_DTOA_FIXED \<and> requested_digits < - estimated_power - 1 then do {
       buffer \<leftarrow> wr buffer 0 (char_at 0);
       Some (buffer, 0, - requested_digits) }
     else do {
       ASSERT (324 * 4 \<le> kMaxSignificantBits);
       s \<leftarrow> InitialScaledStartValues significand e lower_boundary_is_closer estimated_power
            need_boundary_deltas scaled_new;
       (decimal_point, s) \<leftarrow> FixupMultiply10 estimated_power is_even s;
       (buffer, len, decimal_point) \<leftarrow>
         (case mode of
            BIGNUM_DTOA_FIXED \<Rightarrow> BignumToFixed requested_digits decimal_point (numerator s) (denominator s) buffer
          | BIGNUM_DTOA_PRECISION \<Rightarrow>
              GenerateCountedDigits requested_digits decimal_point (numerator s) (denominator s) buffer
          | _ \<Rightarrow> do {
              (buffer, len) \<leftarrow> GenerateShortestDigits s is_even buffer;
              Some (buffer, len, decimal_point) });
       buffer \<leftarrow> wr buffer len (char_at 0);
       Some (buffer, len, decimal_point) } }"

end
