(* ===== verification/Bignum_Dtoa_Scale.thy ===== *)
theory Bignum_Dtoa_Scale
  imports Bignum_Dtoa Five_Powers
begin

unbundle bit_operations_syntax

text \<open>
  The start values of \<open>bignum-dtoa.cc\<close>.  Every number of this file is far below the capacity of a
  bignum; \<open>fits\<close> is that bound, and under it the operations of the class are the operations on
  natural numbers.
\<close>

section \<open>Bignums far below the capacity\<close>

definition big_bound :: nat where "big_bound = B28 ^ 127"

definition fits :: "nat \<Rightarrow> bignum \<Rightarrow> bool" where
  "fits n b \<longleftrightarrow> bignum_ok b \<and> bvalue b = n \<and> n < big_bound"

lemma big_bound_eq: "big_bound = 2 ^ 3556"
proof -
  have "big_bound = (2 ^ 28) ^ 127"
    unfolding big_bound_def by (rule arg_cong [where f = "\<lambda>x. x ^ 127"]) simp
  also have "\<dots> = 2 ^ (28 * 127)"
    by (simp only: power_mult)
  also have "\<dots> = 2 ^ 3556"
    by (rule arg_cong [where f = "power 2"]) simp
  finally show ?thesis .
qed

lemma two_power_bound: "k \<le> 3556 \<Longrightarrow> 2 ^ k \<le> big_bound"
  unfolding big_bound_eq by (rule power_increasing) simp_all

lemma less_capacity: "m \<le> n \<Longrightarrow> n < big_bound \<Longrightarrow> m < B28 ^ 128"
  unfolding big_bound_def by (rule le_less_trans, assumption, rule order.strict_trans, assumption) (rule power_strict_increasing; simp)

lemma bsig_le: "bsig b \<le> bvalue b"
  by (simp add: bvalue_def)

lemma fitsD: "fits n b \<Longrightarrow> bignum_ok b" "fits n b \<Longrightarrow> bvalue b = n" "fits n b \<Longrightarrow> n < big_bound"
  "fits n b \<Longrightarrow> bignum_rep b"
  by (simp_all add: fits_def)

lemma fits_BigitLength: "fits n b \<Longrightarrow> BigitLength b \<le> 127"
  by (rule BigitLength_le) (simp_all only: fits_def big_bound_def)

lemma fits_used: "fits n b \<Longrightarrow> used_digits b \<le> 127"
  using fits_BigitLength [of n b] by (simp add: BigitLength_def)

lemma fits_bsig: "fits n b \<Longrightarrow> bsig b \<le> n"
  using bsig_le [of b] by (simp add: fits_def)

lemma Times10_fits:
  assumes "fits n b" and "10 * n < big_bound"
  shows "wp (Times10 b) (fits (10 * n))"
proof (rule wp_mono [OF Times10_wp])
  show "10 * bsig b < B28 ^ 128"
    using assms(2) by (rule less_capacity [rotated]) (use fits_bsig [OF assms(1)] in simp)
qed (use assms in \<open>auto simp: fits_def\<close>)

lemma ShiftLeft_fits: "fits n b \<Longrightarrow> n * 2 ^ k < big_bound \<Longrightarrow> wp (ShiftLeft b k) (fits (n * 2 ^ k))"
  using fits_used [of n b] by (intro wp_mono [OF ShiftLeft_wp]) (auto simp: fits_def)

lemma MultiplyByUInt64_fits:
  assumes "fits n b" and "unat f * n < big_bound"
  shows "wp (MultiplyByUInt64 b f) (fits (unat f * n))"
proof (rule wp_mono [OF MultiplyByUInt64_wp])
  show "unat f * bsig b < B28 ^ 128"
    using assms(2) by (rule less_capacity [rotated]) (use fits_bsig [OF assms(1)] in simp)
qed (use assms in \<open>auto simp: fits_def\<close>)

lemma small_bound:
  assumes "n < 0x10000000000000000"
  shows "n < big_bound"
proof -
  have "n < 2 ^ 64"
    using assms by simp
  also have "\<dots> \<le> big_bound"
    by (rule two_power_bound) simp
  finally show ?thesis .
qed

lemma AssignUInt16_fits: "bignum_rep b \<Longrightarrow> wp (AssignUInt16 b f) (fits (unat f))"
proof -
  have "unat f < big_bound"
    by (rule small_bound, rule order.strict_trans [OF unat_lt16]) simp
  moreover assume "bignum_rep b"
  ultimately show ?thesis
    by (intro wp_mono [OF AssignUInt16_wp]) (auto simp: fits_def)
qed

lemma AssignUInt64_fits: "bignum_rep b \<Longrightarrow> wp (AssignUInt64 b f) (fits (unat f))"
  using small_bound [OF unat_lt64 [of f]] by (intro wp_mono [OF AssignUInt64_wp]) (auto simp: fits_def)

lemma AssignBignum_fits: "bignum_rep b \<Longrightarrow> fits n x \<Longrightarrow> wp (AssignBignum b x) (fits n)"
  by (intro wp_mono [OF AssignBignum_wp]) (auto simp: fits_def)

lemma ten_power_bound: "(10 :: nat) ^ n \<le> 2 ^ (4 * n)"
  unfolding power_mult by (rule power_mono) simp_all

lemma AssignPowerUInt16_fits:
  assumes "bignum_rep b" and "n \<le> 400"
  shows "wp (AssignPowerUInt16 b 10 n) (fits (10 ^ n))"
proof -
  have "(2 :: nat) ^ (4 * n) < 2 ^ 3556"
    using assms(2) by (intro power_strict_increasing) simp_all
  then have "(10 :: nat) ^ n < big_bound"
    unfolding big_bound_eq by (rule le_less_trans [OF ten_power_bound])
  moreover have "wp (AssignPowerUInt16 b 10 n) (\<lambda>r. bignum_ok r \<and> bvalue r = unat (10 :: u16) ^ n)"
    by (rule AssignPowerUInt16_wp [where m = 5 and s = 1 and k = 3]) (use assms in simp_all)
  ultimately show ?thesis
    by (auto simp: fits_def elim!: wp_mono)
qed

lemma PlusCompare_fits: "fits a x \<Longrightarrow> fits b y \<Longrightarrow> fits c z \<Longrightarrow> PlusCompare x y z = Some (cmp (a + b) c)"
  by (simp add: fits_def PlusCompare_eq)

lemma Compare_fits: "fits a x \<Longrightarrow> fits b y \<Longrightarrow> Equal x y = Some (a = b) \<and> LessEqual x y = Some (a \<le> b) \<and> Less x y = Some (a < b)"
  by (simp add: fits_def Compare_preds)

lemma DivideModulo_fits:
  assumes "fits n b" and "fits m d" and "divisor_ok d" and "n < 16 * m"
  shows "wp (DivideModuloIntBignum b d) (\<lambda>(q, r). unat q = n div m \<and> fits (n mod m) r)"
proof (rule wp_mono [OF DivideModuloIntBignum_wp])
  fix x
  assume "case x of (q, r) \<Rightarrow> bignum_ok r \<and> unat q = bvalue b div bvalue d \<and> bvalue r = bvalue b mod bvalue d"
  moreover have "n mod m < big_bound"
    using mod_less_eq_dividend fitsD(3) [OF assms(1)] by (rule le_less_trans)
  ultimately show "case x of (q, r) \<Rightarrow> unat q = n div m \<and> fits (n mod m) r"
    using assms by (auto simp: fits_def)
qed (use assms fits_BigitLength [OF assms(1)] in \<open>auto simp: fits_def\<close>)

section \<open>The start values\<close>

lemma product_bound:
  assumes "x = f * (2 ^ a * 10 ^ b) * c" and "f < 2 ^ 54" and "a \<le> 1200" and "b \<le> 400" and "c \<le> 8"
  shows "x < big_bound"
proof -
  have "(2 :: nat) ^ a * 10 ^ b \<le> 2 ^ 1200 * 2 ^ 1600"
  proof (rule mult_le_mono)
    show "(2 :: nat) ^ a \<le> 2 ^ 1200"
      using assms(3) by (rule power_increasing) simp
    have "(10 :: nat) ^ b \<le> 2 ^ (4 * b)"
      by (rule ten_power_bound)
    also have "\<dots> \<le> 2 ^ 1600"
      using assms(4) by (intro power_increasing) simp_all
    finally show "(10 :: nat) ^ b \<le> 2 ^ 1600" .
  qed
  then have "x \<le> 2 ^ 54 * (2 ^ 1200 * 2 ^ 1600) * 2 ^ 3"
    unfolding assms(1) by (rule mult_le_mono [OF mult_le_mono [OF less_imp_le [OF assms(2)]]]) (use assms(5) in simp_all)
  also have "\<dots> = 2 ^ 2857"
    unfolding power_add [symmetric] by (rule arg_cong [where f = "power 2"]) simp
  also have "\<dots> < big_bound"
    unfolding big_bound_eq by (rule power_strict_increasing) simp_all
  finally show ?thesis .
qed

definition start_values :: "nat \<Rightarrow> int \<Rightarrow> int \<Rightarrow> bool \<Rightarrow> bool \<Rightarrow> scaled \<Rightarrow> bool" where
  "start_values f e ep need closer s \<longleftrightarrow>
    (let c = (if need then if closer then 4 else 2 else 1); d = 2 ^ nat e * 10 ^ nat (- ep)
     in fits (f * d * c) (numerator s) \<and> fits (10 ^ nat ep * 2 ^ nat (- e) * c) (denominator s) \<and>
       fits (if need then d else 0) (delta_minus s) \<and>
       fits (if need then if closer then 2 * d else d else 0) (delta_plus s))"

lemma fits_new: "fits 0 Bignum_new"
  using bignum_ok_new by (simp add: fits_def big_bound_eq bvalue_def Bignum_new_simps)

lemma scaled_new_fits:
  "fits 0 (numerator scaled_new)" "fits 0 (denominator scaled_new)" "fits 0 (delta_minus scaled_new)" "fits 0 (delta_plus scaled_new)"
  using fits_new by (simp_all add: scaled_new_def)

lemma InitialScaledStartValuesPositiveExponent_wp:
  assumes f: "unat significand < 2 ^ 53" and e: "0 \<le> e" "e \<le> 1126" and ep: "0 \<le> ep" "ep \<le> 330"
  shows "wp (InitialScaledStartValuesPositiveExponent significand e ep need scaled_new) (start_values (unat significand) e ep need False)"
proof -
  let ?f = "unat significand"
  obtain n1 where n1: "AssignUInt64 (numerator scaled_new) significand = Some n1" "fits ?f n1"
    using AssignUInt64_fits [OF fitsD(4) [OF scaled_new_fits(1)]] by (rule wpE)
  have "?f * 2 ^ nat e < big_bound"
    by (rule product_bound [where f = ?f and a = "nat e" and b = 0 and c = 1]) (use f e in simp_all)
  from ShiftLeft_fits [OF n1(2) this] obtain n2 where n2: "ShiftLeft n1 (nat e) = Some n2" "fits (?f * 2 ^ nat e) n2"
    by (rule wpE)
  have "nat ep \<le> 400"
    using ep by simp
  from AssignPowerUInt16_fits [OF fitsD(4) [OF scaled_new_fits(2)] this]
  obtain d1 where d1: "AssignPowerUInt16 (denominator scaled_new) 10 (nat ep) = Some d1" "fits (10 ^ nat ep) d1"
    by (rule wpE)
  show ?thesis
  proof (cases need)
    case True
    have "10 ^ nat ep * 2 ^ 1 < big_bound"
      by (rule product_bound [where f = 1 and a = 0 and b = "nat ep" and c = 2]) (use ep in simp_all)
    from ShiftLeft_fits [OF d1(2) this] obtain d2 where d2: "ShiftLeft d1 1 = Some d2" "fits (10 ^ nat ep * 2 ^ 1) d2"
      by (rule wpE)
    have "?f * 2 ^ nat e * 2 ^ 1 < big_bound"
      by (rule product_bound [where f = ?f and a = "nat e" and b = 0 and c = 2]) (use f e in simp_all)
    from ShiftLeft_fits [OF n2(2) this] obtain n3 where n3: "ShiftLeft n2 1 = Some n3" "fits (?f * 2 ^ nat e * 2 ^ 1) n3"
      by (rule wpE)
    have E: "unat (1 :: u16) * 2 ^ nat e < big_bound"
      by (rule product_bound [where f = 1 and a = "nat e" and b = 0 and c = 1]) (use e in simp_all)
    obtain p1 where p1: "AssignUInt16 (delta_plus scaled_new) 1 = Some p1" "fits (unat (1 :: u16)) p1"
      using AssignUInt16_fits [OF fitsD(4) [OF scaled_new_fits(4)]] by (rule wpE)
    from ShiftLeft_fits [OF p1(2) E] obtain p2 where p2: "ShiftLeft p1 (nat e) = Some p2" "fits (unat (1 :: u16) * 2 ^ nat e) p2"
      by (rule wpE)
    obtain m1 where m1: "AssignUInt16 (delta_minus scaled_new) 1 = Some m1" "fits (unat (1 :: u16)) m1"
      using AssignUInt16_fits [OF fitsD(4) [OF scaled_new_fits(3)]] by (rule wpE)
    from ShiftLeft_fits [OF m1(2) E] obtain m2 where m2: "ShiftLeft m1 (nat e) = Some m2" "fits (unat (1 :: u16) * 2 ^ nat e) m2"
      by (rule wpE)
    show ?thesis
      using n2 n3 d2 p2 m2 True e ep
      by (simp add: InitialScaledStartValuesPositiveExponent_def ASSERT_def n1(1) d1(1) p1(1) m1(1) start_values_def Let_def mult.assoc)
  next
    case False
    then show ?thesis
      using n2 d1 scaled_new_fits e ep
      by (simp add: InitialScaledStartValuesPositiveExponent_def ASSERT_def n1(1) start_values_def Let_def)
  qed
qed

lemma InitialScaledStartValuesNegativeExponentPositivePower_wp:
  assumes f: "unat significand < 2 ^ 53" and e: "e < 0" "- 1126 \<le> e" and ep: "0 \<le> ep" "ep \<le> 330"
  shows "wp (InitialScaledStartValuesNegativeExponentPositivePower significand e ep need scaled_new)
    (start_values (unat significand) e ep need False)"
proof -
  let ?f = "unat significand"
  obtain n1 where n1: "AssignUInt64 (numerator scaled_new) significand = Some n1" "fits ?f n1"
    using AssignUInt64_fits [OF fitsD(4) [OF scaled_new_fits(1)]] by (rule wpE)
  have "nat ep \<le> 400"
    using ep by simp
  from AssignPowerUInt16_fits [OF fitsD(4) [OF scaled_new_fits(2)] this]
  obtain d1 where d1: "AssignPowerUInt16 (denominator scaled_new) 10 (nat ep) = Some d1" "fits (10 ^ nat ep) d1"
    by (rule wpE)
  have "10 ^ nat ep * 2 ^ nat (- e) < big_bound"
    by (rule product_bound [where f = 1 and a = "nat (- e)" and b = "nat ep" and c = 1]) (use e ep in simp_all)
  from ShiftLeft_fits [OF d1(2) this] obtain d2 where d2: "ShiftLeft d1 (nat (- e)) = Some d2" "fits (10 ^ nat ep * 2 ^ nat (- e)) d2"
    by (rule wpE)
  show ?thesis
  proof (cases need)
    case True
    have "10 ^ nat ep * 2 ^ nat (- e) * 2 ^ 1 < big_bound"
      by (rule product_bound [where f = 1 and a = "nat (- e)" and b = "nat ep" and c = 2]) (use e ep in simp_all)
    from ShiftLeft_fits [OF d2(2) this] obtain d3 where d3: "ShiftLeft d2 1 = Some d3" "fits (10 ^ nat ep * 2 ^ nat (- e) * 2 ^ 1) d3"
      by (rule wpE)
    have "?f * 2 ^ 1 < big_bound"
      by (rule product_bound [where f = ?f and a = 0 and b = 0 and c = 2]) (use f in simp_all)
    from ShiftLeft_fits [OF n1(2) this] obtain n2 where n2: "ShiftLeft n1 1 = Some n2" "fits (?f * 2 ^ 1) n2"
      by (rule wpE)
    obtain p1 where p1: "AssignUInt16 (delta_plus scaled_new) 1 = Some p1" "fits (unat (1 :: u16)) p1"
      using AssignUInt16_fits [OF fitsD(4) [OF scaled_new_fits(4)]] by (rule wpE)
    obtain m1 where m1: "AssignUInt16 (delta_minus scaled_new) 1 = Some m1" "fits (unat (1 :: u16)) m1"
      using AssignUInt16_fits [OF fitsD(4) [OF scaled_new_fits(3)]] by (rule wpE)
    show ?thesis
      using n2 d3 p1 m1 True e ep
      by (simp add: InitialScaledStartValuesNegativeExponentPositivePower_def n1(1) d1(1) d2(1) start_values_def Let_def)
  next
    case False
    then show ?thesis
      using n1 d2 scaled_new_fits e ep
      by (simp add: InitialScaledStartValuesNegativeExponentPositivePower_def d1(1) start_values_def Let_def)
  qed
qed

lemma InitialScaledStartValuesNegativeExponentNegativePower_wp:
  assumes f: "unat significand < 2 ^ 53" and e: "e < 0" "- 1126 \<le> e" and ep: "ep < 0" "- 330 \<le> ep"
  shows "wp (InitialScaledStartValuesNegativeExponentNegativePower significand e ep need scaled_new)
    (start_values (unat significand) e ep need False)"
proof -
  let ?f = "unat significand"
  have "nat (- ep) \<le> 400"
    using ep by simp
  from AssignPowerUInt16_fits [OF fitsD(4) [OF scaled_new_fits(1)] this]
  obtain t where t: "AssignPowerUInt16 (numerator scaled_new) 10 (nat (- ep)) = Some t" "fits (10 ^ nat (- ep)) t"
    by (rule wpE)
  obtain p1 where p1: "AssignBignum (delta_plus scaled_new) t = Some p1" "fits (10 ^ nat (- ep)) p1"
    using AssignBignum_fits [OF fitsD(4) [OF scaled_new_fits(4)] t(2)] by (rule wpE)
  obtain m1 where m1: "AssignBignum (delta_minus scaled_new) t = Some m1" "fits (10 ^ nat (- ep)) m1"
    using AssignBignum_fits [OF fitsD(4) [OF scaled_new_fits(3)] t(2)] by (rule wpE)
  have "?f * 10 ^ nat (- ep) < big_bound"
    by (rule product_bound [where f = ?f and a = 0 and b = "nat (- ep)" and c = 1]) (use f ep in simp_all)
  from MultiplyByUInt64_fits [OF t(2) this] obtain n1 where n1: "MultiplyByUInt64 t significand = Some n1" "fits (?f * 10 ^ nat (- ep)) n1"
    by (rule wpE)
  obtain d1 where d1: "AssignUInt16 (denominator scaled_new) 1 = Some d1" "fits (unat (1 :: u16)) d1"
    using AssignUInt16_fits [OF fitsD(4) [OF scaled_new_fits(2)]] by (rule wpE)
  have "unat (1 :: u16) * 2 ^ nat (- e) < big_bound"
    by (rule product_bound [where f = 1 and a = "nat (- e)" and b = 0 and c = 1]) (use e in simp_all)
  from ShiftLeft_fits [OF d1(2) this] obtain d2 where d2: "ShiftLeft d1 (nat (- e)) = Some d2" "fits (unat (1 :: u16) * 2 ^ nat (- e)) d2"
    by (rule wpE)
  have "unat (1 :: u16) * 2 ^ nat (- e) * 2 ^ 1 < big_bound"
    by (rule product_bound [where f = 1 and a = "nat (- e)" and b = 0 and c = 2]) (use e in simp_all)
  from ShiftLeft_fits [OF d2(2) this] obtain d3 where d3: "ShiftLeft d2 1 = Some d3" "fits (unat (1 :: u16) * 2 ^ nat (- e) * 2 ^ 1) d3"
    by (rule wpE)
  have "?f * 10 ^ nat (- ep) * 2 ^ 1 < big_bound"
    by (rule product_bound [where f = ?f and a = 0 and b = "nat (- ep)" and c = 2]) (use f ep in simp_all)
  from ShiftLeft_fits [OF n1(2) this] obtain n2 where n2: "ShiftLeft n1 1 = Some n2" "fits (?f * 10 ^ nat (- ep) * 2 ^ 1) n2"
    by (rule wpE)
  show ?thesis
    using t p1 m1 n1 n2 d1 d2 d3 scaled_new_fits e ep
    by (cases need) (simp_all add: InitialScaledStartValuesNegativeExponentNegativePower_def start_values_def Let_def)
qed

lemma InitialScaledStartValues_wp:
  assumes f: "unat significand < 2 ^ 53" and e: "\<bar>e\<bar> \<le> 1126" and ep: "\<bar>ep\<bar> \<le> 330" "0 \<le> e \<Longrightarrow> 0 \<le> ep"
  shows "wp (InitialScaledStartValues significand e closer ep need scaled_new) (start_values (unat significand) e ep need closer)"
proof -
  let ?f = "unat significand"
  let ?m = "if 0 \<le> e then InitialScaledStartValuesPositiveExponent significand e ep need scaled_new
    else if 0 \<le> ep then InitialScaledStartValuesNegativeExponentPositivePower significand e ep need scaled_new
    else InitialScaledStartValuesNegativeExponentNegativePower significand e ep need scaled_new"
  have "wp ?m (start_values ?f e ep need False)"
    using InitialScaledStartValuesPositiveExponent_wp [OF f, of e ep need]
      InitialScaledStartValuesNegativeExponentPositivePower_wp [OF f, of e ep need]
      InitialScaledStartValuesNegativeExponentNegativePower_wp [OF f, of e ep need] e ep by auto
  then obtain s where s: "?m = Some s" "start_values ?f e ep need False s"
    by (rule wpE)
  show ?thesis
  proof (cases "need \<and> closer")
    case True
    have n: "fits (?f * (2 ^ nat e * 10 ^ nat (- ep)) * 2) (numerator s)" and d: "fits (10 ^ nat ep * 2 ^ nat (- e) * 2) (denominator s)"
      and m: "fits (2 ^ nat e * 10 ^ nat (- ep)) (delta_minus s)" and p: "fits (2 ^ nat e * 10 ^ nat (- ep)) (delta_plus s)"
      using s(2) True by (simp_all add: start_values_def Let_def)
    have "10 ^ nat ep * 2 ^ nat (- e) * 2 * 2 ^ 1 < big_bound"
      by (rule product_bound [where f = 1 and a = "nat (- e)" and b = "nat ep" and c = 4]) (use e ep in simp_all)
    from ShiftLeft_fits [OF d this] obtain d' where d': "ShiftLeft (denominator s) 1 = Some d'" "fits (10 ^ nat ep * 2 ^ nat (- e) * 2 * 2 ^ 1) d'"
      by (rule wpE)
    have "?f * (2 ^ nat e * 10 ^ nat (- ep)) * 2 * 2 ^ 1 < big_bound"
      by (rule product_bound [where f = ?f and a = "nat e" and b = "nat (- ep)" and c = 4]) (use f e ep in simp_all)
    from ShiftLeft_fits [OF n this] obtain n' where n': "ShiftLeft (numerator s) 1 = Some n'" "fits (?f * (2 ^ nat e * 10 ^ nat (- ep)) * 2 * 2 ^ 1) n'"
      by (rule wpE)
    have "2 ^ nat e * 10 ^ nat (- ep) * 2 ^ 1 < big_bound"
      by (rule product_bound [where f = 1 and a = "nat e" and b = "nat (- ep)" and c = 2]) (use e ep in simp_all)
    from ShiftLeft_fits [OF p this] obtain p' where p': "ShiftLeft (delta_plus s) 1 = Some p'" "fits (2 ^ nat e * 10 ^ nat (- ep) * 2 ^ 1) p'"
      by (rule wpE)
    have twice: "(x :: nat) * 2 ^ 1 = 2 * x" "2 * ((x :: nat) * 2) = x * 4" for x
      by simp_all
    have goal: "fits (?f * (2 ^ nat e * 10 ^ nat (- ep)) * 4) n'" "fits (10 ^ nat ep * 2 ^ nat (- e) * 4) d'"
      "fits (2 * (2 ^ nat e * 10 ^ nat (- ep))) p'"
      using n'(2) d'(2) p'(2) unfolding twice .
    show ?thesis
      unfolding InitialScaledStartValues_def s(1)
      using n'(1) d'(1) p'(1) goal m True by (simp add: start_values_def Let_def)
  next
    case False
    then have "start_values ?f e ep need closer s"
      using s(2) by (auto simp: start_values_def Let_def)
    then show ?thesis
      unfolding InitialScaledStartValues_def s(1) using False by (simp only: bind.simps if_False wp_Some)
  qed
qed

end
