(* ===== verification/Bignum_Dtoa_Counted.thy ===== *)
theory Bignum_Dtoa_Counted
  imports Bignum_Dtoa_Scale
begin

unbundle bit_operations_syntax

text \<open>
  The scaling into the range from 1 to 10 and the counted digit generators of \<open>bignum-dtoa.cc\<close>:
  \<open>FixupMultiply10\<close>, \<open>GenerateCountedDigits\<close> and \<open>BignumToFixed\<close> round the quotient
  \<open>numerator / denominator\<close> half up at the last digit asked for.
\<close>

lemma cmp_sign [simp]: "0 \<le> cmp a b \<longleftrightarrow> b \<le> a" "0 < cmp a b \<longleftrightarrow> b < a" "cmp a b < 0 \<longleftrightarrow> a < b"
  by (auto simp: cmp_def)

definition in_range :: "bool \<Rightarrow> nat \<Rightarrow> nat \<Rightarrow> bool" where
  "in_range is_even d x \<longleftrightarrow> (if is_even then d \<le> x else d < x)"

lemma FixupMultiply10_wp:
  assumes n: "fits n (numerator s)" "10 * n < big_bound" and d: "fits d (denominator s)"
    and m: "fits m (delta_minus s)" "10 * m < big_bound" and p: "fits p (delta_plus s)" "10 * p < big_bound"
  shows "wp (FixupMultiply10 ep is_even s) (\<lambda>(dp, r). denominator r = denominator s \<and>
    (if in_range is_even d (n + p)
     then dp = ep + 1 \<and> fits n (numerator r) \<and> fits m (delta_minus r) \<and> fits p (delta_plus r)
     else dp = ep \<and> fits (10 * n) (numerator r) \<and> fits (10 * m) (delta_minus r) \<and> fits (10 * p) (delta_plus r)))"
proof -
  have c: "PlusCompare (numerator s) (delta_plus s) (denominator s) = Some (cmp (n + p) d)"
    by (rule PlusCompare_fits [OF n(1) p(1) d])
  have eq: "Equal (delta_minus s) (delta_plus s) = Some (m = p)"
    using Compare_fits [OF m(1) p(1)] by simp
  obtain n' where n': "Times10 (numerator s) = Some n'" "fits (10 * n) n'"
    using Times10_fits [OF n] by (rule wpE)
  obtain m' where m': "Times10 (delta_minus s) = Some m'" "fits (10 * m) m'"
    using Times10_fits [OF m] by (rule wpE)
  obtain p' where p': "Times10 (delta_plus s) = Some p'" "fits (10 * p) p'"
    using Times10_fits [OF p] by (rule wpE)
  obtain p'' where p'': "AssignBignum (delta_plus s) m' = Some p''" "fits (10 * m) p''"
    using AssignBignum_fits [OF fitsD(4) [OF p(1)] m'(2)] by (rule wpE)
  show ?thesis
    using n m p n' m' p' p'' by (cases "m = p") (simp_all add: FixupMultiply10_def c eq in_range_def)
qed

section \<open>Counted digits\<close>

definition counted_inv :: "bignum \<Rightarrow> bignum \<Rightarrow> bool" where
  "counted_inv den b \<longleftrightarrow> divisor_ok den \<and> 10 * bvalue den < big_bound \<and> bignum_ok b \<and> bvalue b < 10 * bvalue den"

lemma divisor_ok_pos: "divisor_ok d \<Longrightarrow> 0 < bvalue d"
  using bvalue_zero_iff [of d] by (simp add: divisor_ok_def)

lemma floor_ratio: "\<lfloor>real n / real m\<rfloor> = int (n div m)"
  by (simp add: floor_divide_of_nat_eq)

lemma counted_digit_wp:
  assumes "counted_inv den b"
  shows "wp (GenerateCountedDigits_digit den b) (\<lambda>(q, r). counted_inv den r \<and> q = bvalue b div bvalue den \<and>
    bvalue r = 10 * (bvalue b mod bvalue den))"
proof -
  let ?n = "bvalue b" and ?m = "bvalue den"
  have m: "divisor_ok den" "0 < ?m" "10 * ?m < big_bound" "?n < 10 * ?m"
    using assms divisor_ok_pos by (auto simp: counted_inv_def)
  have fits: "fits ?n b" "fits ?m den"
    using assms by (auto simp: counted_inv_def fits_def divisor_ok_def)
  obtain q r where qr: "DivideModuloIntBignum b den = Some (q, r)" "unat q = ?n div ?m" "fits (?n mod ?m) r"
    using DivideModulo_fits [OF fits m(1)] m(4) by (auto elim: wp_pairE)
  have "?n div ?m < 10"
    using m(2,4) by (simp add: div_less_iff_less_mult)
  then have q9: "q \<le> 9"
    using qr(2) by (simp add: word_le_nat_alt)
  have lt: "10 * (?n mod ?m) < 10 * ?m"
    using m(2) by simp
  obtain r' where r': "Times10 r = Some r'" "fits (10 * (?n mod ?m)) r'"
    using Times10_fits [OF qr(3) order.strict_trans [OF lt m(3)]] by (rule wpE)
  show ?thesis
    using q9 qr r' m lt by (simp add: GenerateCountedDigits_digit_def ASSERT_def counted_inv_def fits_def)
qed

interpretation counted: digit_source "GenerateCountedDigits_digit den" "\<lambda>_. False" "counted_inv den"
  "\<lambda>b. real (bvalue b) / real (bvalue den)" for den
proof unfold_locales
  fix b
  assume inv: "counted_inv den b"
  then have m: "0 < bvalue den" "bvalue b < 10 * bvalue den"
    using divisor_ok_pos by (auto simp: counted_inv_def)
  then have "real (bvalue b) < 10 * real (bvalue den)"
    by (metis of_nat_less_iff of_nat_mult of_nat_numeral)
  then show "0 \<le> real (bvalue b) / real (bvalue den) \<and> real (bvalue b) / real (bvalue den) < 10"
    using m(1) by (simp add: divide_less_eq)
  have "real (bvalue b) = real (bvalue b div bvalue den) * real (bvalue den) + real (bvalue b mod bvalue den)"
    by (metis div_mult_mod_eq of_nat_add of_nat_mult)
  then have eq: "10 * real (bvalue b mod bvalue den) / real (bvalue den) =
      10 * (real (bvalue b) / real (bvalue den) - real (bvalue b div bvalue den))"
    using m(1) by (simp add: field_simps)
  show "wp (GenerateCountedDigits_digit den b) (\<lambda>(d, r). counted_inv den r \<and>
      int d = \<lfloor>real (bvalue b) / real (bvalue den)\<rfloor> \<and>
      real (bvalue r) / real (bvalue den) = 10 * (real (bvalue b) / real (bvalue den) - real d))"
    by (rule wp_mono [OF counted_digit_wp [OF inv]]) (auto simp: floor_ratio eq)
qed simp

text \<open>The quotient \<open>n * 10 ^ k / d\<close> rounded half up.\<close>

definition rounded_quotient :: "nat \<Rightarrow> nat \<Rightarrow> nat" where
  "rounded_quotient n d = (2 * n + d) div (2 * d)"

lemma rounded_quotient_split:
  assumes "n = q * d + r" and "r < d"
  shows "rounded_quotient n d = (if d \<le> 2 * r then q + 1 else q)"
proof -
  have "2 * n + d = 2 * r + d + 2 * d * q"
    by (simp add: assms(1) algebra_simps)
  then have "rounded_quotient n d = (2 * r + d) div (2 * d) + q"
    unfolding rounded_quotient_def using assms(2) by (simp only: div_mult_self2)
  moreover have "(2 * r + d) div (2 * d) = (if d \<le> 2 * r then 1 else 0)"
    using assms(2) by (auto intro!: div_nat_eqI)
  ultimately show ?thesis
    by simp
qed

lemma digit_char_10: "digit_char 10 = digit_ten"
  by (simp add: digit_char_def digit_ten_def)

lemma digit_char_may_be_ten: "n \<le> 10 \<Longrightarrow> (is_digit (digit_char n) \<or> digit_char n = digit_ten) \<and> digit_of (digit_char n) = n"
  by (cases "n = 10") (simp_all add: digit_char_10 code_of_digit_ten)

lemma GenerateCountedDigits_wp:
  assumes inv: "counted_inv den num" and count: "1 \<le> count" "nat count \<le> length buffer"
  shows "wp (GenerateCountedDigits count dp num den buffer) (\<lambda>(b, len, dp'). len = nat count \<and> length b = length buffer \<and>
    digits_in b 0 len \<and>
    (dp' = dp \<and> dec_value (part b 0 len) = rounded_quotient (bvalue num * 10 ^ nat (count - 1)) (bvalue den) \<or>
     dp' = dp + 1 \<and> dec_value (part b 0 len) * 10 = rounded_quotient (bvalue num * 10 ^ nat (count - 1)) (bvalue den) \<and>
     dec_value (part b 0 len) = 10 ^ nat (count - 1)))"
proof -
  define m where "m = nat (count - 1)"
  define d where "d = bvalue den"
  have mc: "nat count = Suc m" "Suc m \<le> length buffer"
    using count by (auto simp: m_def)
  have d: "0 < d"
    using inv divisor_ok_pos by (simp add: counted_inv_def d_def)
  obtain num' b where emit: "emit_digits (GenerateCountedDigits_digit den) (\<lambda>_. False) m (num, buffer, 0) = Some (num', b, m)"
    and inv': "counted_inv den num'" and b: "digits_in b 0 m" "length b = length buffer"
    and val: "real (bvalue num) / real d * 10 ^ m = 10 * real (dec_value (part b 0 m)) + real (bvalue num') / real d"
    by (rule wpE [OF counted.emit_digits_wp [OF inv, of 0 m buffer]]) (use mc in \<open>auto simp: d_def\<close>)
  have "real (bvalue num * 10 ^ m) = real (10 * dec_value (part b 0 m) * d + bvalue num')"
    using val d by (simp add: field_simps)
  then have n: "bvalue num * 10 ^ m = 10 * dec_value (part b 0 m) * d + bvalue num'"
    by (simp only: of_nat_eq_iff)
  have fits_num: "fits (bvalue num') num'" and fits_d: "fits d den" and less: "bvalue num' < 10 * d"
    using inv' by (auto simp: counted_inv_def fits_def divisor_ok_def d_def)
  have div: "divisor_ok den"
    using inv by (simp add: counted_inv_def)
  obtain q r where qr: "DivideModuloIntBignum num' den = Some (q, r)" "unat q = bvalue num' div d" "fits (bvalue num' mod d) r"
    using DivideModulo_fits [OF fits_num fits_d div] less by (auto elim: wp_pairE)
  have q10: "unat q < 10"
    using less d by (simp add: qr(2) div_less_iff_less_mult)
  define q' where "q' = (if d \<le> 2 * (bvalue num' mod d) then q + 1 else q)"
  have q': "unat q' = (if d \<le> 2 * (bvalue num' mod d) then unat q + 1 else unat q)"
    using q10 by (simp add: q'_def unat_plus)
  have N: "10 * dec_value (part b 0 m) + unat q' = rounded_quotient (bvalue num * 10 ^ m) d"
    using rounded_quotient_split [of "bvalue num * 10 ^ m" "10 * dec_value (part b 0 m) + unat q" d "bvalue num' mod d"]
      d by (simp add: q' n qr(2) algebra_simps)
  have q'10: "unat q' \<le> 10" "q' \<le> 10"
    using q10 by (simp_all add: q' word_le_nat_alt)
  define b' where "b' = b[m := digit_char (unat q')]"
  have len_b': "length b' = length buffer"
    using b by (simp add: b'_def)
  have "last_may_be_ten b' m" and dval: "dec_value (part b' 0 (Suc m)) = rounded_quotient (bvalue num * 10 ^ m) d"
    using b mc digit_char_may_be_ten [OF q'10(1)] by (simp_all add: last_may_be_ten_def b'_def dec_value_part_Suc flip: N)
  note carry = round_carry_wp [OF this(1), of dp]
  have cmp: "PlusCompare r r den = Some (cmp (2 * (bvalue num' mod d)) d)"
    using PlusCompare_fits [OF qr(3) qr(3) fits_d] by (simp add: mult_2)
  have "GenerateCountedDigits count dp num den buffer =
      Option.bind (Option.bind (propagate_carry m b') (\<lambda>b. carry_past_top b dp)) (\<lambda>(b, dp). Some (b, nat count, dp))"
    using emit qr(1) cmp q'10 count b mc
    by (simp add: GenerateCountedDigits_def ASSERT_def wr_int_def wr_def b'_def Let_def q'_def [symmetric] m_def [symmetric])
  moreover have "wp \<dots> (\<lambda>(b, len, dp'). len = nat count \<and> length b = length buffer \<and> digits_in b 0 len \<and>
    (dp' = dp \<and> dec_value (part b 0 len) = rounded_quotient (bvalue num * 10 ^ m) d \<or>
     dp' = dp + 1 \<and> dec_value (part b 0 len) * 10 = rounded_quotient (bvalue num * 10 ^ m) d \<and>
     dec_value (part b 0 len) = 10 ^ m))"
    unfolding wp_bind [of "Option.bind _ _"]
    by (rule wp_mono [OF carry]) (use mc b len_b' in \<open>auto simp: dval\<close>)
  ultimately show ?thesis
    by (simp only: m_def [symmetric] d_def [symmetric])
qed

end
