(* ===== verification/Bignum_Dtoa_Ready.thy ===== *)
theory Bignum_Dtoa_Ready
  imports Bignum_Dtoa_Counted Five_Powers
begin

unbundle bit_operations_syntax

text \<open>
  The state of \<open>BignumDtoa\<close> before its digits are generated: the numerator, the denominator and the
  two deltas stand for the value \<open>v\<close> and its distances to the boundaries, scaled by a power of ten
  such that the upper boundary is in the range from 1 to 10.
\<close>

declare of_nat_unat [simp del]

definition ready :: "real \<Rightarrow> real \<Rightarrow> real \<Rightarrow> bool \<Rightarrow> int \<Rightarrow> scaled \<Rightarrow> bool" where
  "ready v dm dp is_even pt s \<longleftrightarrow> (\<exists>n d m p. fits n (numerator s) \<and> fits d (denominator s) \<and> fits m (delta_minus s) \<and>
    fits p (delta_plus s) \<and> divisor_ok (denominator s) \<and> 10 * d < big_bound \<and>
    real n / real d * 10 powi (pt - 1) = v \<and> real m / real d * 10 powi (pt - 1) = dm \<and>
    real p / real d * 10 powi (pt - 1) = dp \<and> in_range is_even d (n + p) \<and> \<not> in_range is_even (10 * d) (n + p))"

lemma ten_cancel: "x * (10 :: real) powi i < y * 10 powi i \<longleftrightarrow> x < y" "x * (10 :: real) powi i \<le> y * 10 powi i \<longleftrightarrow> x \<le> y"
  "x * (10 :: real) powi i = y * 10 powi i \<longleftrightarrow> x = y"
  by (simp_all add: mult_less_cancel_right_pos mult_le_cancel_right_pos)

lemma ratio_less: "0 < d \<Longrightarrow> real n / real d < real c \<longleftrightarrow> n < c * d"
  unfolding pos_divide_less_eq [OF of_nat_0_less_iff [THEN iffD2]] of_nat_mult [symmetric] of_nat_less_iff ..

lemma ratio_le: "0 < d \<Longrightarrow> real c \<le> real n / real d \<longleftrightarrow> c * d \<le> n"
  using ratio_less [of d n c] by (simp add: not_less [symmetric])

section \<open>The exponent\<close>

lemma NormalizedExponent_wp:
  assumes "0 < unat f" and "unat f < 2 ^ 53"
  shows "wp (NormalizedExponent f e) (\<lambda>e'. \<exists>k. 2 ^ 52 \<le> unat f * 2 ^ k \<and> unat f * 2 ^ k < 2 ^ 53 \<and> e' = e - int k)"
proof -
  have "f \<noteq> 0"
    using assms(1) by auto
  moreover have "wp (while_opt (\<lambda>(f, e). f AND kHiddenBit = 0) (shift_up 1) (f, e))
      (\<lambda>(f', e'). \<exists>k. unat f' = unat f * 2 ^ k \<and> e' = e - int k \<and> unat f' < 2 ^ 53 \<and>
        (\<forall>j<k. True) \<and> (True \<longrightarrow> 2 ^ 52 \<le> unat f'))"
    by (rule hidden_loop_wp [OF assms]) simp
  ultimately show ?thesis
    unfolding NormalizedExponent_def by (auto simp: wp_simps elim!: wp_mono)
qed

text \<open>The estimate for \<open>v = f * 2 ^ e\<close>, and for a number up to half a unit above it.\<close>

lemma estimate_range:
  assumes f: "2 ^ 52 \<le> f * 2 ^ k" "f * 2 ^ k < 2 ^ 53" and e: "- 1074 \<le> e" "e \<le> 971"
    and ep: "ep = EstimatePower (e - int k)"
  shows "\<bar>ep\<bar> \<le> 330" and "0 \<le> e \<Longrightarrow> 0 \<le> ep"
    and "10 powi (ep - 1) \<le> real f * 2 powi e" and "(real f + 1) * 2 powi e < 10 powi (ep + 1)"
proof -
  have f0: "0 < f"
    using f(1) by (cases f) auto
  have "(2 :: nat) ^ k < 2 ^ 53"
    using f(2) f0 by (metis dual_order.strict_trans2 mult_le_mono1 nat_mult_1 Suc_leI One_nat_def)
  then have k: "k < 53"
    by (rule power_less_imp_less_exp [rotated]) simp
  have x: "\<bar>e - int k + 52\<bar> \<le> 1300"
    using k e by simp
  note b = EstimatePower_bounds [OF x ep]
  show "\<bar>ep\<bar> \<le> 330"
    using b k e by simp
  show "0 \<le> ep" if "0 \<le> e"
    using b(2) k that by simp
  note s = EstimatePower_spec [OF x ep]
  have f_real: "2 ^ 52 \<le> real (f * 2 ^ k)"
    using f(1) by (metis of_nat_le_iff of_nat_numeral of_nat_power)
  have two: "(2 :: real) powi (e - int k) * 2 ^ k = 2 powi e"
    by (simp add: power_int_diff)
  have "(2 :: real) powi (e - int k + 52) = 2 ^ 52 * 2 powi (e - int k)"
    by (simp only: two_powi_add power_int_numeral) simp
  also have "\<dots> \<le> real (f * 2 ^ k) * 2 powi (e - int k)"
    by (rule mult_right_mono [OF f_real]) simp
  also have "\<dots> = real f * 2 powi e"
    by (simp flip: two)
  finally show "10 powi (ep - 1) \<le> real f * 2 powi e"
    using s(1) by simp
  have "(f + 1) * 2 ^ k \<le> 2 ^ 53"
  proof -
    have "f * 2 ^ k < 2 ^ (53 - k) * 2 ^ k"
      using f(2) k by (simp flip: power_add)
    then have "f + 1 \<le> 2 ^ (53 - k)"
      by simp
    then have "(f + 1) * 2 ^ k \<le> 2 ^ (53 - k) * 2 ^ k"
      by (rule mult_le_mono1)
    then show ?thesis
      using k by (simp flip: power_add)
  qed
  then have le: "real ((f + 1) * 2 ^ k) \<le> 2 ^ 53"
    by (metis of_nat_le_iff of_nat_numeral of_nat_power)
  have "(real f + 1) * 2 powi e = real ((f + 1) * 2 ^ k) * 2 powi (e - int k)"
    by (simp add: algebra_simps flip: two)
  also have "\<dots> \<le> 2 ^ 53 * 2 powi (e - int k)"
    using le by (rule mult_right_mono) simp
  also have "\<dots> = 8 * 2 powi (e - int k + 50)"
    by (simp only: two_powi_add power_int_numeral) simp
  also have "\<dots> \<le> 8 * 10 powi ep"
    using s(2) by simp
  also have "\<dots> < 10 powi (ep + 1)"
    by (simp add: power_int_add)
  finally show "(real f + 1) * 2 powi e < 10 powi (ep + 1)" .
qed

section \<open>The scaled values\<close>

lemma powi_nat_parts: "(b :: real) \<noteq> 0 \<Longrightarrow> b ^ nat i / b ^ nat (- i) = b powi i"
  by (cases "0 \<le> i") (simp_all add: power_int_def field_simps)

lemma start_ratio:
  assumes "0 < c"
  shows "real (x * (2 ^ nat e * 10 ^ nat (- ep)) * y) / real (10 ^ nat ep * 2 ^ nat (- e) * c) * 10 powi ep =
    real x * 2 powi e * (real y / real c)"
proof -
  have "real (x * (2 ^ nat e * 10 ^ nat (- ep)) * y) / real (10 ^ nat ep * 2 ^ nat (- e) * c) =
      real x * (2 ^ nat e / 2 ^ nat (- e)) * (10 ^ nat (- ep) / 10 ^ nat (- (- ep))) * (real y / real c)"
    by (simp add: field_simps)
  also have "\<dots> = real x * 2 powi e * 10 powi (- ep) * (real y / real c)"
    by (simp only: powi_nat_parts [of 2 e] powi_nat_parts [of 10 "- ep"] zero_neq_numeral not_False_eq_True)
  finally show ?thesis
    by (simp add: power_int_minus field_simps)
qed

lemma InitialScaledStartValues_ready:
  assumes f: "2 ^ 52 \<le> unat f * 2 ^ k" "unat f * 2 ^ k < 2 ^ 53" and e: "- 1074 \<le> e" "e \<le> 971"
    and ep: "ep = EstimatePower (e - int k)"
  defines "v \<equiv> real (unat f) * 2 powi e"
  shows "wp (InitialScaledStartValues f e closer ep need scaled_new) (\<lambda>s. \<exists>n d m p. fits n (numerator s) \<and> fits d (denominator s) \<and>
    fits m (delta_minus s) \<and> fits p (delta_plus s) \<and> divisor_ok (denominator s) \<and> 0 < d \<and> 100 * d < big_bound \<and>
    10 * n < big_bound \<and> 10 * m < big_bound \<and> 10 * p < big_bound \<and>
    real n / real d * 10 powi ep = v \<and> real m / real d * 10 powi ep = (if need then if closer then 2 powi e / 4 else 2 powi e / 2 else 0) \<and>
    real p / real d * 10 powi ep = (if need then 2 powi e / 2 else 0))"
proof -
  note r = estimate_range [OF f e ep]
  have f53: "unat f < 2 ^ 53"
    using f(2) by (rule le_less_trans [rotated]) simp
  define c :: nat where "c = (if need then if closer then 4 else 2 else 1)"
  define x :: nat where "x = 2 ^ nat e * 10 ^ nat (- ep)"
  define d :: nat where "d = 10 ^ nat ep * 2 ^ nat (- e) * c"
  define y :: nat where "y = (if need then if closer then 2 else 1 else 0)"
  have c: "0 < c" "c \<le> 4" "y \<le> c" "c \<in> {1, 2, 4}"
    by (simp_all add: c_def y_def)
  have d0: "0 < d"
    using c by (simp add: d_def)
  obtain j where j: "c = 2 ^ j"
    using c(4) by (auto intro: that [of 0] that [of 1] that [of 2])
  have d_eq: "d = 5 ^ nat ep * 2 ^ (nat ep + nat (- e) + j)"
    using power_mult_distrib [of "2 :: nat" 5 "nat ep"] by (simp add: d_def j power_add ac_simps)
  have bounds: "10 * (unat f * x * c) < big_bound" "100 * d < big_bound" "10 * (x * 2) < big_bound" "10 * x < big_bound"
  proof -
    have "10 * (unat f * x * c) = unat f * (2 ^ nat e * 10 ^ (nat (- ep) + 1)) * c" "100 * d = 1 * (2 ^ nat (- e) * 10 ^ (nat ep + 2)) * c"
      "10 * (x * 2) = 1 * (2 ^ nat e * 10 ^ (nat (- ep) + 1)) * 2" "10 * x = 1 * (2 ^ nat e * 10 ^ (nat (- ep) + 1)) * 1"
      by (simp_all add: x_def d_def power_add)
    note eqs = this
    have less: "unat f < 2 ^ 54" "nat (- ep) + 1 \<le> 400" "nat ep + 2 \<le> 400" "nat e \<le> 1200" "nat (- e) \<le> 1200" "c \<le> 8"
      using f53 r(1) e c by simp_all
    show "10 * (unat f * x * c) < big_bound"
      by (rule product_bound [OF eqs(1) less(1,4,2,6)])
    show "100 * d < big_bound"
      by (rule product_bound [OF eqs(2) _ less(5,3,6)]) simp
    show "10 * (x * 2) < big_bound"
      by (rule product_bound [OF eqs(3) _ less(4,2)]) simp_all
    show "10 * x < big_bound"
      by (rule product_bound [OF eqs(4) _ less(4,2)]) simp_all
  qed
  have "wp (InitialScaledStartValues f e closer ep need scaled_new) (start_values (unat f) e ep need closer)"
    by (rule InitialScaledStartValues_wp [OF f53]) (use e r in simp_all)
  then show ?thesis
  proof (rule wp_mono)
    fix s
    assume "start_values (unat f) e ep need closer s"
    then have s: "fits (unat f * x * c) (numerator s)" "fits d (denominator s)"
      "fits (x * (if need then 1 else 0)) (delta_minus s)" "fits (x * y) (delta_plus s)"
      unfolding start_values_def Let_def c_def x_def d_def y_def by (auto simp: mult.commute)
    have "divisor_ok (denominator s)"
      by (rule divisor_five_two [of _ "nat ep" "nat ep + nat (- e) + j"]) (use s(2) r(1) in \<open>auto simp: fits_def d_eq\<close>)
    moreover have "10 * (x * (if need then 1 else 0)) < big_bound" "10 * (x * y) < big_bound"
      using bounds by (auto simp: y_def dest: le_less_trans [rotated])
    moreover have "real (unat f * x * c) / real d * 10 powi ep = v"
      using start_ratio [of c "unat f" e ep c] c(1) by (simp add: x_def d_def v_def)
    moreover have "real (x * (if need then 1 else 0)) / real d * 10 powi ep =
        (if need then if closer then 2 powi e / 4 else 2 powi e / 2 else 0)"
      using start_ratio [of c 1 e ep "if need then 1 else 0"] c(1) by (simp add: x_def d_def) (simp add: c_def)
    moreover have "real (x * y) / real d * 10 powi ep = (if need then 2 powi e / 2 else 0)"
      using start_ratio [of c 1 e ep y] c(1) by (simp add: x_def d_def) (simp add: c_def y_def)
    ultimately show "\<exists>n d m p. fits n (numerator s) \<and> fits d (denominator s) \<and>
      fits m (delta_minus s) \<and> fits p (delta_plus s) \<and> divisor_ok (denominator s) \<and> 0 < d \<and> 100 * d < big_bound \<and>
      10 * n < big_bound \<and> 10 * m < big_bound \<and> 10 * p < big_bound \<and>
      real n / real d * 10 powi ep = v \<and> real m / real d * 10 powi ep = (if need then if closer then 2 powi e / 4 else 2 powi e / 2 else 0) \<and>
      real p / real d * 10 powi ep = (if need then 2 powi e / 2 else 0)"
      using s bounds(1,2) d0 by blast
  qed
qed

section \<open>Powers of ten among the doubles\<close>

lemma odd_times_two_power:
  assumes "odd (f :: nat)" and "odd g" and "f * 2 ^ a = g * 2 ^ b"
  shows "f = g \<and> a = b"
proof -
  have "f = g \<and> a = b" if "odd f" "odd g" "f * 2 ^ a = g * 2 ^ b" "a \<le> b" for f g a b :: nat
  proof -
    have "f * 2 ^ a = g * 2 ^ (b - a) * 2 ^ a"
      using that(3,4) by (simp flip: power_add)
    then have "f = g * 2 ^ (b - a)"
      by simp
    with \<open>odd f\<close> have "b - a = 0"
      by (metis even_mult_iff even_numeral even_power neq0_conv)
    then show ?thesis
      using \<open>f = g * 2 ^ (b - a)\<close> that(4) by simp
  qed
  from this [of f g a b] this [of g f b a] show ?thesis
    using assms by (cases "a \<le> b") auto
qed

lemma five_power_gap: "\<not> (2 ^ 52 \<le> (5 :: nat) ^ j \<and> (5 :: nat) ^ j < 2 ^ 53)"
proof (cases "j \<le> 22")
  case True
  then have "(5 :: nat) ^ j \<le> 5 ^ 22"
    by (rule power_increasing) simp
  then show ?thesis
    by simp
next
  case False
  then have "(5 :: nat) ^ 23 \<le> 5 ^ j"
    by (intro power_increasing) simp_all
  then show ?thesis
    by simp
qed

text \<open>A double that is a power of ten has an even significand.\<close>

lemma exact_power_even:
  assumes eq: "real f * 2 powi e = 10 powi j" and f: "2 ^ 52 \<le> f * 2 ^ k" "f * 2 ^ k < 2 ^ 53" and k: "0 \<le> e \<Longrightarrow> k = 0"
  shows "even f"
proof (rule ccontr)
  assume odd: "odd f"
  have "real f * 2 ^ nat e / 2 ^ nat (- e) = 10 ^ nat j / 10 ^ nat (- j)"
    using powi_nat_parts [of 2 e] powi_nat_parts [of 10 j] by (simp only: zero_neq_numeral not_False_eq_True eq flip: times_divide_eq_right)
  then have "real (f * 2 ^ nat e * 10 ^ nat (- j)) = real (10 ^ nat j * 2 ^ nat (- e))"
    by (simp add: field_simps)
  then have n: "f * 2 ^ nat e * 10 ^ nat (- j) = 10 ^ nat j * 2 ^ nat (- e)"
    by (simp only: of_nat_eq_iff)
  have ten: "(10 :: nat) ^ i = 5 ^ i * 2 ^ i" for i
    using power_mult_distrib [of "5 :: nat" 2 i] by simp
  have "(f * 5 ^ nat (- j)) * 2 ^ (nat e + nat (- j)) = 5 ^ nat j * 2 ^ (nat j + nat (- e))"
    using n by (simp add: ten power_add ac_simps)
  from odd_times_two_power [OF _ _ this] odd have p: "f * 5 ^ nat (- j) = 5 ^ nat j" "nat e + nat (- j) = nat j + nat (- e)"
    by simp_all
  show False
  proof (cases "0 \<le> j")
    case True
    then have "f = 5 ^ nat j" "0 \<le> e"
      using p by auto
    then show False
      using f k five_power_gap [of "nat j"] by simp
  next
    case False
    then have "f * 5 ^ nat (- j) = 1"
      using p by simp
    then show False
      using False by simp
  qed
qed

section \<open>The start of the counted modes\<close>

definition counted_ready :: "real \<Rightarrow> int \<Rightarrow> scaled \<Rightarrow> bool" where
  "counted_ready v pt s \<longleftrightarrow> counted_inv (denominator s) (numerator s) \<and> bvalue (denominator s) \<le> bvalue (numerator s) \<and>
    real (bvalue (numerator s)) / real (bvalue (denominator s)) * 10 powi (pt - 1) = v"

lemma counted_readyD:
  assumes "counted_ready v pt s"
  shows "10 powi (pt - 1) \<le> v" and "v < 10 powi pt"
proof -
  let ?n = "bvalue (numerator s)" and ?d = "bvalue (denominator s)"
  have d: "0 < ?d" "?d \<le> ?n" "?n < 10 * ?d" and v: "real ?n / real ?d * 10 powi (pt - 1) = v"
    using assms divisor_ok_pos by (auto simp: counted_ready_def counted_inv_def)
  have "1 \<le> real ?n / real ?d"
    using d by simp
  then have "1 * 10 powi (pt - 1) \<le> real ?n / real ?d * (10 :: real) powi (pt - 1)"
    by (rule mult_right_mono) simp
  then show "10 powi (pt - 1) \<le> v"
    by (simp only: v mult_1)
  have "real ?n < 10 * real ?d"
    using d(3) by (metis of_nat_less_iff of_nat_mult of_nat_numeral)
  then have "real ?n / real ?d < 10"
    using d(1) by (simp add: divide_less_eq)
  then have "real ?n / real ?d * 10 powi (pt - 1) < 10 * (10 :: real) powi (pt - 1)"
    by (rule mult_strict_right_mono) simp
  also have "\<dots> = 10 powi pt"
    by (simp add: power_int_diff)
  finally show "v < 10 powi pt"
    by (simp only: v)
qed

lemma counted_start_wp:
  assumes f: "2 ^ 52 \<le> unat f * 2 ^ k" "unat f * 2 ^ k < 2 ^ 53" and e: "- 1074 \<le> e" "e \<le> 971" and k: "0 \<le> e \<Longrightarrow> k = 0"
    and ep: "ep = EstimatePower (e - int k)" and is_even: "is_even \<longleftrightarrow> even (unat f)"
  defines "v \<equiv> real (unat f) * 2 powi e"
  shows "wp (do { s \<leftarrow> InitialScaledStartValues f e closer ep False scaled_new; FixupMultiply10 ep is_even s })
    (\<lambda>(pt, s). counted_ready v pt s)"
  unfolding wp_bind
proof (rule wp_mono [OF InitialScaledStartValues_ready [OF f e ep, of closer False]])
  note r = estimate_range [OF f e ep]
  fix s :: scaled
  assume "\<exists>n d m p. fits n (numerator s) \<and> fits d (denominator s) \<and>
    fits m (delta_minus s) \<and> fits p (delta_plus s) \<and> divisor_ok (denominator s) \<and> 0 < d \<and> 100 * d < big_bound \<and>
    10 * n < big_bound \<and> 10 * m < big_bound \<and> 10 * p < big_bound \<and>
    real n / real d * 10 powi ep = real (unat f) * 2 powi e \<and>
    real m / real d * 10 powi ep = (if False then if closer then 2 powi e / 4 else 2 powi e / 2 else 0) \<and>
    real p / real d * 10 powi ep = (if False then 2 powi e / 2 else 0)"
  then obtain n d m p where s: "fits n (numerator s)" "fits d (denominator s)" "fits m (delta_minus s)" "fits p (delta_plus s)"
    and div: "divisor_ok (denominator s)" and b: "0 < d" "100 * d < big_bound" "10 * n < big_bound" "10 * m < big_bound" "10 * p < big_bound"
    and v: "real n / real d * 10 powi ep = v" and p0: "real p / real d * 10 powi ep = 0"
    unfolding v_def by auto
  have [simp]: "p = 0"
    using p0 b(1) by simp
  have "v < 10 powi (ep + 1)"
    unfolding v_def by (rule le_less_trans [OF mult_right_mono r(4)]) simp_all
  then have "real n / real d * 10 powi ep < 10 * 10 powi ep"
    unfolding v by (simp add: power_int_add)
  then have "real n / real d < 10"
    unfolding ten_cancel .
  then have n10: "n < 10 * d"
    using ratio_less [of d n 10] b(1) by simp
  have ne: "n \<noteq> d" if "\<not> is_even"
  proof
    assume "n = d"
    then have "real (unat f) * 2 powi e = 10 powi ep"
      using v b(1) by (simp add: v_def)
    then show False
      using exact_power_even [OF _ f k] is_even that by simp
  qed
  have "10 powi (ep - 1) \<le> v"
    using r(3) by (simp add: v_def)
  then have "10 powi (ep - 1) \<le> 10 * (real n / real d) * 10 powi (ep - 1)"
    by (simp add: v [symmetric] power_int_diff)
  then have "1 * 10 powi (ep - 1) \<le> real (10 * n) / real d * 10 powi (ep - 1)"
    by simp
  then have d10: "d \<le> 10 * n"
    unfolding ten_cancel using ratio_le [of d 1 "10 * n"] b(1) by simp
  have step: "wp (FixupMultiply10 ep is_even s) (\<lambda>(dp, r). denominator r = denominator s \<and>
    (if in_range is_even d (n + p)
     then dp = ep + 1 \<and> fits n (numerator r) \<and> fits m (delta_minus r) \<and> fits p (delta_plus r)
     else dp = ep \<and> fits (10 * n) (numerator r) \<and> fits (10 * m) (delta_minus r) \<and> fits (10 * p) (delta_plus r)))"
    by (rule FixupMultiply10_wp) (use s b in simp_all)
  show "wp (FixupMultiply10 ep is_even s) (\<lambda>(pt, s). counted_ready v pt s)"
  proof (rule wp_mono [OF step], clarify)
    fix pt and r :: scaled
    assume den: "denominator r = denominator s" and r: "if in_range is_even d (n + p)
       then pt = ep + 1 \<and> fits n (numerator r) \<and> fits m (delta_minus r) \<and> fits p (delta_plus r)
       else pt = ep \<and> fits (10 * n) (numerator r) \<and> fits (10 * m) (delta_minus r) \<and> fits (10 * p) (delta_plus r)"
    show "counted_ready v pt r"
    proof (cases "in_range is_even d (n + p)")
      case True
      then have "d \<le> n"
        by (auto simp: in_range_def split: if_splits)
      then show ?thesis
        using True r den div b n10 s(2) v by (auto simp: counted_ready_def counted_inv_def fits_def)
    next
      case False
      then have "n < d"
        using ne by (auto simp: in_range_def split: if_splits)
      moreover have "real (10 * n) / real d * 10 powi (ep - 1) = v"
        by (simp add: v [symmetric] power_int_diff)
      ultimately show ?thesis
        using False r den div b d10 s(2) by (auto simp: counted_ready_def counted_inv_def fits_def)
    qed
  qed
qed

end
