(* ===== verification/Bignum_Dtoa_Rounded.thy ===== *)
theory Bignum_Dtoa_Rounded
  imports Bignum_Dtoa_Ready
begin

unbundle bit_operations_syntax

declare of_nat_unat [simp del]

text \<open>
  \<open>BignumDtoa\<close> with a counted number of digits: the buffer holds the multiple of the last digit's
  power of ten that is nearest to the double, ties rounded up.
\<close>

section \<open>What the digits stand for\<close>

text \<open>The comments of the code: the result is \<open>buffer * 10 ^ (point - length)\<close>.\<close>

definition decimal_value :: "char list \<Rightarrow> int \<Rightarrow> real" where
  "decimal_value cs pt = real (dec_value cs) * 10 powi (pt - int (length cs))"

lemma ten_Suc: "(10 :: real) powi (i + 1) = 10 * 10 powi i"
  by (simp add: power_int_add)

text \<open>\<open>v\<close> rounded half up to a multiple of \<open>10 ^ i\<close>.\<close>

definition rounded_at :: "real \<Rightarrow> int \<Rightarrow> real" where
  "rounded_at v i = of_int \<lfloor>v / 10 powi i + 1 / 2\<rfloor> * 10 powi i"

lemma decimal_value_Nil [simp]: "decimal_value [] pt = 0"
  by (simp add: decimal_value_def)

lemma rounded_quotient_floor:
  assumes "0 < d"
  shows "int (rounded_quotient n d) = \<lfloor>real n / real d + 1 / 2\<rfloor>"
proof -
  have "real n / real d + 1 / 2 = real (2 * n + d) / real (2 * d)"
    using assms by (simp add: field_simps)
  then show ?thesis
    by (simp only: rounded_quotient_def floor_ratio)
qed

lemma rounded_at_small:
  assumes "0 \<le> v" and "v / 10 powi i < 1 / 2"
  shows "rounded_at v i = 0"
proof -
  have "v / 10 powi i + 1 / 2 < 1"
    using assms(2) by linarith
  then have "\<lfloor>v / 10 powi i + 1 / 2\<rfloor> = 0"
    using assms(1) by (intro floor_unique) simp_all
  then show ?thesis
    by (simp add: rounded_at_def)
qed

lemma digits_start_nonzero:
  assumes "digits_in b 0 (Suc m)" and "10 ^ m \<le> dec_value (part b 0 (Suc m))"
  shows "b ! 0 \<noteq> CHR ''0''"
proof
  assume z: "b ! 0 = CHR ''0''"
  have len: "Suc m \<le> length b"
    using assms(1) by (simp add: digits_in_def)
  have "dec_value (part b 0 (Suc m)) = dec_value (part b 1 (Suc m))"
    using len z by (simp add: part_first dec_value_Cons digit_of_def)
  also have "\<dots> < 10 ^ (Suc m - 1)"
    by (rule dec_value_part_less) (use assms(1) in \<open>auto simp: digits_in_def\<close>)
  finally show False
    using assms(2) by simp
qed

section \<open>Counted digits of a value\<close>

definition counted_result :: "nat \<Rightarrow> char list \<Rightarrow> nat \<Rightarrow> real \<Rightarrow> int \<Rightarrow> bool" where
  "counted_result n b len x pt \<longleftrightarrow> len \<le> n \<and> length b = n \<and> digits_in b 0 len \<and> decimal_value (part b 0 len) pt = x \<and>
    (0 < len \<longrightarrow> b ! 0 \<noteq> CHR ''0'')"

lemma GenerateCountedDigits_ready:
  assumes ready: "counted_ready v pt s" and count: "1 \<le> count" "nat count \<le> length buffer"
  shows "wp (GenerateCountedDigits count pt (numerator s) (denominator s) buffer) (\<lambda>(b, len, pt').
    len = nat count \<and> counted_result (length buffer) b len (rounded_at v (pt - count)) pt')"
proof -
  let ?n = "bvalue (numerator s)" and ?d = "bvalue (denominator s)"
  define m where "m = nat (count - 1)"
  have m: "count = int m + 1" "nat count = Suc m"
    using count by (auto simp: m_def)
  have inv: "counted_inv (denominator s) (numerator s)" and d: "0 < ?d" "?d \<le> ?n"
    and v: "real ?n / real ?d * 10 powi (pt - 1) = v"
    using ready divisor_ok_pos by (auto simp: counted_ready_def counted_inv_def)
  define N where "N = rounded_quotient (?n * 10 ^ m) ?d"
  have "v / 10 powi (pt - count) = real (?n * 10 ^ m) / real ?d"
    by (simp add: v [symmetric] m power_int_diff power_int_add field_simps)
  then have N: "rounded_at v (pt - count) = real N * 10 powi (pt - count)"
    using rounded_quotient_floor [OF d(1), of "?n * 10 ^ m"] by (simp add: rounded_at_def N_def)
  have "1 * 10 ^ m \<le> ?n * 10 ^ m div ?d"
    using d by (simp add: less_eq_div_iff_mult_less_eq mult.commute)
  also have "\<dots> \<le> N"
  proof -
    have "?n * 10 ^ m div ?d = 2 * (?n * 10 ^ m) div (2 * ?d)"
      by simp
    also have "\<dots> \<le> N"
      unfolding N_def rounded_quotient_def by (rule div_le_mono) simp
    finally show ?thesis .
  qed
  finally have ge: "10 ^ m \<le> N"
    by simp
  show ?thesis
  proof (rule wp_mono [OF GenerateCountedDigits_wp [OF inv count, of pt]], clarify)
    fix b len pt'
    assume b: "digits_in b 0 (nat count)" "length b = length buffer"
      and r: "pt' = pt \<and> dec_value (part b 0 (nat count)) = rounded_quotient (?n * 10 ^ nat (count - 1)) ?d \<or>
        pt' = pt + 1 \<and> dec_value (part b 0 (nat count)) * 10 = rounded_quotient (?n * 10 ^ nat (count - 1)) ?d \<and>
        dec_value (part b 0 (nat count)) = 10 ^ nat (count - 1)"
    let ?D = "dec_value (part b 0 (Suc m))"
    have r: "pt' = pt \<and> ?D = N \<or> pt' = pt + 1 \<and> ?D * 10 = N \<and> ?D = 10 ^ m"
      using r unfolding m(2) m_def [symmetric] N_def [symmetric] .
    have len: "Suc m \<le> length b"
      using b count by (simp add: m)
    have "decimal_value (part b 0 (Suc m)) pt' = real N * 10 powi (pt - count)"
      using r
    proof
      assume "pt' = pt \<and> ?D = N"
      then show ?thesis
        using len by (simp add: decimal_value_def m algebra_simps)
    next
      assume "pt' = pt + 1 \<and> ?D * 10 = N \<and> ?D = 10 ^ m"
      then have pe: "pt' - int (Suc m) = pt - count + 1" and NE: "real N = real ?D * 10"
        by (auto simp: m)
      have "decimal_value (part b 0 (Suc m)) pt' = real ?D * 10 powi (pt' - int (Suc m))"
        using len by (simp add: decimal_value_def)
      then show ?thesis
        by (simp only: pe ten_Suc NE mult.assoc)
    qed
    moreover have "10 ^ m \<le> ?D"
      using r ge by auto
    ultimately show "nat count = nat count \<and> counted_result (length buffer) b (nat count) (rounded_at v (pt - count)) pt'"
      using b count digits_start_nonzero [of b m] N unfolding counted_result_def m(2) by simp
  qed
qed

text \<open>Fixed notation: up to \<open>r\<close> digits after the point.\<close>

lemma BignumToFixed_ready:
  assumes ready: "counted_ready v pt s" and room: "max 1 (pt + r) \<le> int (length buffer)"
  shows "wp (BignumToFixed r pt (numerator s) (denominator s) buffer) (\<lambda>(b, len, pt').
    int len \<le> max 1 (pt + r) \<and> counted_result (length buffer) b len (rounded_at v (- r)) pt')"
proof -
  let ?n = "bvalue (numerator s)" and ?d = "bvalue (denominator s)"
  note v = counted_readyD [OF ready]
  have v0: "0 \<le> v"
    by (rule order_trans [OF _ v(1)]) simp
  consider "r < - pt" | "- pt = r" | "1 \<le> pt + r"
    by linarith
  then show ?thesis
  proof cases
    case 1
    have "v * 10 powi r < 10 powi pt * 10 powi r"
      using v(2) by (rule mult_strict_right_mono) simp
    also have "\<dots> = 10 powi (pt + r)"
      by (simp add: power_int_add)
    also have "\<dots> \<le> 10 powi (- 1)"
      using 1 by (intro power_int_increasing) simp_all
    finally have "rounded_at v (- r) = 0"
      using v0 by (intro rounded_at_small) (simp_all add: power_int_minus field_simps)
    then show ?thesis
      using 1 by (simp add: BignumToFixed_def counted_result_def digits_in_def)
  next
    case 2
    have inv: "counted_inv (denominator s) (numerator s)" and d: "0 < ?d" "?d \<le> ?n" "?n < 10 * ?d"
      and v_eq: "real ?n / real ?d * 10 powi (pt - 1) = v"
      using ready divisor_ok_pos by (auto simp: counted_ready_def counted_inv_def)
    have rr: "r = - pt"
      using 2 by simp
    have f: "fits ?n (numerator s)" "fits ?d (denominator s)" "10 * ?d < big_bound"
      using inv by (auto simp: counted_inv_def fits_def divisor_ok_def)
    obtain d' where d': "Times10 (denominator s) = Some d'" "fits (10 * ?d) d'"
      using Times10_fits [OF f(2,3)] by (rule wpE)
    have cmp: "PlusCompare (numerator s) (numerator s) d' = Some (cmp (?n + ?n) (10 * ?d))"
      by (rule PlusCompare_fits [OF f(1) f(1) d'(2)])
    have "v / 10 powi (- r) = real ?n / real (10 * ?d)"
      by (simp add: v_eq [symmetric] rr power_int_diff field_simps)
    then have N: "rounded_at v (- r) = real (rounded_quotient ?n (10 * ?d)) * 10 powi (- r)"
      using rounded_quotient_floor [of "10 * ?d" ?n] d(1) by (simp add: rounded_at_def)
    have Q: "rounded_quotient ?n (10 * ?d) = (if 10 * ?d \<le> 2 * ?n then 1 else 0)"
      using rounded_quotient_split [of ?n 0 "10 * ?d" ?n] d by simp
    show ?thesis
    proof (cases "10 * ?d \<le> 2 * ?n")
      case True
      have "0 < length buffer"
        using room by auto
      then have "Suc 0 \<le> length buffer"
        by (simp add: Suc_le_eq)
      then have "counted_result (length buffer) (buffer[0 := CHR ''1'']) 1 (rounded_at v (- r)) (pt + 1)"
        using True N Q 2 by (cases buffer)
          (auto simp: counted_result_def digits_in_def decimal_value_def is_digit_def digit_of_def code_of_def dec_value_def part_def)
      then show ?thesis
        using True 2 d'(1) cmp \<open>0 < length buffer\<close> by (simp add: BignumToFixed_def ASSERT_def wr_def mult_2)
    next
      case False
      then have "counted_result (length buffer) buffer 0 (rounded_at v (- r)) pt"
        using N Q by (simp add: counted_result_def digits_in_def)
      then show ?thesis
        using False 2 d'(1) cmp by (simp add: BignumToFixed_def ASSERT_def mult_2)
    qed
  next
    case 3
    have "nat (pt + r) \<le> length buffer"
      using room by (simp add: nat_le_iff)
    from GenerateCountedDigits_ready [OF ready 3 this]
    have "wp (GenerateCountedDigits (pt + r) pt (numerator s) (denominator s) buffer) (\<lambda>(b, len, pt').
        int len \<le> max 1 (pt + r) \<and> counted_result (length buffer) b len (rounded_at v (- r)) pt')"
      by (rule wp_mono) (use 3 in auto)
    then show ?thesis
      using 3 by (simp add: BignumToFixed_def)
  qed
qed

section \<open>Positive doubles\<close>

lemma positive_double_iff: "double_less 0 v \<and> \<not> IsSpecial v \<longleftrightarrow> 0 < unat v \<and> unat v < kInfinityBits"
proof -
  have zero: "\<not> IsNan 0" "double_scaled 0 = 0"
    using finite_constant [of 0] by (simp_all add: double_finite_def kInfinityBits_def)
  have special: "IsNan v \<Longrightarrow> IsSpecial v"
    by (simp add: IsNan_def IsSpecial_def)
  have pos: "0 < Sign v \<longleftrightarrow> \<not> double_neg v"
    by (simp add: Sign_def double_neg_def)
  have finite: "0 < Sign v \<and> \<not> IsSpecial v \<longleftrightarrow> unat v < kInfinityBits"
    using double_finite_pos_iff [of v] by (simp add: double_finite_pos_def kInfinityBits_def)
  show ?thesis
  proof (cases "unat v < kInfinityBits")
    case True
    then show ?thesis
      using finite zero special finite_constant(2) [OF True] enc_val_less_iff [of 52 0 "unat v"]
      by (auto simp: double_less_def)
  next
    case False
    then have "double_neg v \<or> IsSpecial v"
      using finite pos by simp
    then show ?thesis
      using False double_scaled_sign [of v] zero by (auto simp: double_less_def)
  qed
qed

lemma positive_double_parts:
  assumes "0 < unat v" and "unat v < kInfinityBits"
  obtains k where "2 ^ 52 \<le> unat (Significand v) * 2 ^ k" and "unat (Significand v) * 2 ^ k < 2 ^ 53"
    and "- 1074 \<le> Exponent v" and "Exponent v \<le> 971" and "0 \<le> Exponent v \<Longrightarrow> k = 0" and "0 < unat (Significand v)"
    and "double_value v = real (unat (Significand v)) * 2 powi Exponent v"
proof -
  have fin: "double_finite_pos v"
    using assms by (simp add: double_finite_pos_iff kInfinityBits_def)
  note a = double_accessors [OF fin]
  define f where "f = enc_sig 52 (unat v)"
  have f: "unat (Significand v) = f" "f < 2 ^ 53"
    using a(1) enc_sig_less [of 52 "unat v"] by (simp_all add: f_def)
  have e: "Exponent v = - 1074 + int (enc_exp 52 (unat v))"
    using a(2) by (simp add: kDenormalExponent_eq)
  have "unat v div 2 ^ 52 < 2047"
    using assms(2) by (simp add: kInfinityBits_def less_mult_imp_div_less)
  then have e_le: "Exponent v \<le> 971"
    by (simp add: e enc_exp_def)
  have norm: "2 ^ 52 \<le> f" if "unat v div 2 ^ 52 \<noteq> 0"
    using that by (simp add: f_def enc_sig_def)
  have f0: "0 < f"
  proof (cases "unat v div 2 ^ 52 = 0")
    case True
    then have "f = unat v"
      using assms(1) by (simp add: f_def enc_sig_def div_eq_0_iff)
    then show ?thesis
      using assms(1) by simp
  qed (use norm in force)
  have dv: "double_value v = real f * 2 powi Exponent v"
    using fin dbl.value_eq [OF fin] by (simp add: double_value_def double_finite_pos_def f(1))
  show ?thesis
  proof (cases "2 ^ 52 \<le> f")
    case True
    show ?thesis
      by (rule that [of 0]) (use True f e_le f0 dv e in auto)
  next
    case False
    have "NormalizedExponent (Significand v) 0 \<noteq> None"
      using NormalizedExponent_wp [of "Significand v" 0] f f0 by (auto elim: wpE)
    obtain k where k: "2 ^ 52 \<le> f * 2 ^ k" "f * 2 ^ k < 2 ^ 53"
      using NormalizedExponent_wp [of "Significand v" 0] f f0 by (auto elim: wpE)
    have "unat v div 2 ^ 52 = 0"
      using False norm by auto
    then have "Exponent v = - 1074"
      by (simp add: e enc_exp_def)
    then show ?thesis
      using that [of k] k f f0 dv by simp
  qed
qed

section \<open>BignumDtoa in the counted modes\<close>

text \<open>The call up to the digit generation, in a mode without deltas.\<close>

definition counted_tail :: "BignumDtoaMode \<Rightarrow> int \<Rightarrow> char list \<Rightarrow> int \<Rightarrow> scaled \<Rightarrow> (char list \<times> nat \<times> int) option" where
  "counted_tail mode requested_digits buffer pt s = do {
     (buffer, len, pt) \<leftarrow>
       (if mode = BIGNUM_DTOA_FIXED then BignumToFixed requested_digits pt (numerator s) (denominator s) buffer
        else GenerateCountedDigits requested_digits pt (numerator s) (denominator s) buffer);
     buffer \<leftarrow> wr buffer len (char_at 0);
     Some (buffer, len, pt) }"

lemma doubled_too_large: "2 ^ 52 \<le> x \<Longrightarrow> 2 * x \<le> y \<Longrightarrow> y < 2 ^ 53 \<Longrightarrow> False" for x :: nat
  by simp

lemma BignumDtoa_counted_mode:
  assumes v: "0 < unat v" "unat v < kInfinityBits" and mode: "mode = BIGNUM_DTOA_FIXED \<or> mode = BIGNUM_DTOA_PRECISION"
    and short: "\<And>ep. mode = BIGNUM_DTOA_FIXED \<Longrightarrow> requested_digits < - ep - 1 \<Longrightarrow> double_value v < 10 powi (ep + 1) \<Longrightarrow>
      wp (wr buffer 0 (char_at 0)) (\<lambda>b. Q (b, 0, - requested_digits))"
    and tail: "\<And>pt s. counted_ready (double_value v) pt s \<Longrightarrow> wp (counted_tail mode requested_digits buffer pt s) Q"
  shows "wp (BignumDtoa v mode requested_digits buffer) Q"
proof -
  from positive_double_parts [OF v] obtain k where f: "2 ^ 52 \<le> unat (Significand v) * 2 ^ k" "unat (Significand v) * 2 ^ k < 2 ^ 53"
    and e: "- 1074 \<le> Exponent v" "Exponent v \<le> 971" and k: "0 \<le> Exponent v \<Longrightarrow> k = 0" and f0: "0 < unat (Significand v)"
    and dv: "double_value v = real (unat (Significand v)) * 2 powi Exponent v"
    by metis
  have f53: "unat (Significand v) < 2 ^ 53"
    using f(2) by (rule le_less_trans [rotated]) simp
  obtain e' k' where norm: "NormalizedExponent (Significand v) (Exponent v) = Some e'" "e' = Exponent v - int k'"
    and f': "2 ^ 52 \<le> unat (Significand v) * 2 ^ k'" "unat (Significand v) * 2 ^ k' < 2 ^ 53"
    using NormalizedExponent_wp [OF f0 f53] by (rule wpE) blast
  have kk: "k' = k"
  proof (rule ccontr)
    assume "k' \<noteq> k"
    moreover have False if "a < b" "2 ^ 52 \<le> unat (Significand v) * 2 ^ a" "unat (Significand v) * 2 ^ b < 2 ^ 53" for a b
    proof -
      have "(2 :: nat) ^ Suc a \<le> 2 ^ b"
        using that(1) by (intro power_increasing) simp_all
      then have "unat (Significand v) * 2 ^ Suc a \<le> unat (Significand v) * 2 ^ b"
        by (rule mult_le_mono2)
      then have "2 * (unat (Significand v) * 2 ^ a) \<le> unat (Significand v) * 2 ^ b"
        by (simp only: power_Suc mult.left_commute)
      with that(2) show False
        using that(3) by (rule doubled_too_large)
    qed
    ultimately show False
      using f f' by (metis linorder_neqE_nat)
  qed
  define ep where "ep = EstimatePower e'"
  have ep: "ep = EstimatePower (Exponent v - int k)"
    by (simp add: ep_def norm(2) kk)
  define is_even where "is_even \<longleftrightarrow> Significand v AND 1 = 0"
  have even: "is_even \<longleftrightarrow> even (unat (Significand v))"
    by (simp add: is_even_def word_unat_eq_iff unat_and1 even_iff_mod_2_eq_zero)
  have checks: "double_less 0 v" "\<not> IsSpecial v"
    using positive_double_iff [of v] v by blast+
  have room: "324 * 4 \<le> kMaxSignificantBits"
    by (simp add: kMaxSignificantBits_def)
  let ?start = "do { s \<leftarrow> InitialScaledStartValues (Significand v) (Exponent v) (LowerBoundaryIsCloser v) ep False scaled_new;
    FixupMultiply10 ep is_even s }"
  have start: "wp ?start (\<lambda>(pt, s). counted_ready (double_value v) pt s)"
    unfolding dv by (rule counted_start_wp [OF f e k ep even])
  have "BignumDtoa v mode requested_digits buffer =
    (if mode = BIGNUM_DTOA_FIXED \<and> requested_digits < - ep - 1 then do {
       buffer \<leftarrow> wr buffer 0 (char_at 0);
       Some (buffer, 0, - requested_digits) }
     else Option.bind ?start (\<lambda>(pt, s). counted_tail mode requested_digits buffer pt s))"
    using mode checks room norm(1) unfolding counted_tail_def BignumDtoa_def
    by (elim disjE) (simp_all add: ASSERT_def Let_def bind_assoc ep_def is_even_def)
  moreover have "wp (Option.bind ?start (\<lambda>(pt, s). counted_tail mode requested_digits buffer pt s)) Q"
    unfolding wp_bind [of ?start] by (rule wp_mono [OF start]) (use tail in auto)
  moreover have "double_value v < 10 powi (ep + 1)"
    using estimate_range(4) [OF f e ep] unfolding dv by (rule le_less_trans [OF mult_right_mono, rotated 2]) simp_all
  ultimately show ?thesis
    using short [of ep] by (simp add: wp_bind)
qed

theorem BignumDtoa_fixed_wp:
  assumes v: "0 < unat v" "unat v < kInfinityBits" and p: "double_value v < 10 powi p"
    and room: "max 1 (p + r) < int (length buffer)"
  shows "wp (BignumDtoa v BIGNUM_DTOA_FIXED r buffer) (\<lambda>(b, len, pt). int len \<le> max 1 (p + r) \<and>
    counted_result (length buffer) b len (rounded_at (double_value v) (- r)) pt \<and> b ! len = char_at 0)"
proof (rule BignumDtoa_counted_mode [OF v])
  have pos: "0 \<le> double_value v"
    using positive_double_parts [OF v] by (metis mult_nonneg_nonneg of_nat_0_le_iff zero_le_power_int zero_le_numeral)
  show "wp (wr buffer 0 (char_at 0)) (\<lambda>b. case (b, 0, - r) of (b, len, pt) \<Rightarrow> int len \<le> max 1 (p + r) \<and>
      counted_result (length buffer) b len (rounded_at (double_value v) (- r)) pt \<and> b ! len = char_at 0)"
    if ep: "r < - ep - 1" "double_value v < 10 powi (ep + 1)" for ep
  proof -
    have "double_value v * 10 powi r < 10 powi (ep + 1) * 10 powi r"
      using ep(2) by (rule mult_strict_right_mono) simp
    also have "\<dots> = 10 powi (ep + 1 + r)"
      by (simp add: power_int_add)
    also have "\<dots> \<le> 10 powi (- 1)"
      using ep(1) by (intro power_int_increasing) simp_all
    finally have "rounded_at (double_value v) (- r) = 0"
      using pos by (intro rounded_at_small) (simp_all add: power_int_minus field_simps)
    then show ?thesis
      using room by (cases buffer) (auto simp: wp_simps counted_result_def digits_in_def)
  qed
  fix pt s
  assume ready: "counted_ready (double_value v) pt s"
  have "10 powi (pt - 1) < (10 :: real) powi p"
    using counted_readyD(1) [OF ready] p by (rule order.strict_trans1)
  then have pt: "pt \<le> p"
    using power_int_increasing [of p "pt - 1" "10 :: real"] by (intro leI notI) simp
  have "max 1 (pt + r) \<le> int (length buffer)"
    using room pt by simp
  note fixed = BignumToFixed_ready [OF ready this]
  show "wp (counted_tail BIGNUM_DTOA_FIXED r buffer pt s) (\<lambda>(b, len, pt). int len \<le> max 1 (p + r) \<and>
      counted_result (length buffer) b len (rounded_at (double_value v) (- r)) pt \<and> b ! len = char_at 0)"
    unfolding counted_tail_def wp_bind [of "if _ then _ else _"]
    using room pt by (auto simp: wp_simps counted_result_def intro!: wp_mono [OF fixed])
qed simp

theorem BignumDtoa_precision_wp:
  assumes v: "0 < unat v" "unat v < kInfinityBits" and count: "1 \<le> count" "count < int (length buffer)"
  shows "wp (BignumDtoa v BIGNUM_DTOA_PRECISION count buffer) (\<lambda>(b, len, pt). len = nat count \<and> b ! len = char_at 0 \<and>
    (\<exists>p. 10 powi (p - 1) \<le> double_value v \<and> double_value v < 10 powi p \<and>
      counted_result (length buffer) b len (rounded_at (double_value v) (p - count)) pt))"
proof (rule BignumDtoa_counted_mode [OF v])
  fix pt s
  assume ready: "counted_ready (double_value v) pt s"
  have room: "nat count \<le> length buffer"
    using count by simp
  note p = counted_readyD [OF ready]
  have "wp (GenerateCountedDigits count pt (numerator s) (denominator s) buffer) (\<lambda>(b, len, pt').
      len = nat count \<and> (\<exists>p. 10 powi (p - 1) \<le> double_value v \<and> double_value v < 10 powi p \<and>
      counted_result (length buffer) b len (rounded_at (double_value v) (p - count)) pt'))"
    by (rule wp_mono [OF GenerateCountedDigits_ready [OF ready count(1) room]]) (use p in auto)
  note counted = this
  show "wp (counted_tail BIGNUM_DTOA_PRECISION count buffer pt s) (\<lambda>(b, len, pt). len = nat count \<and> b ! len = char_at 0 \<and>
      (\<exists>p. 10 powi (p - 1) \<le> double_value v \<and> double_value v < 10 powi p \<and>
        counted_result (length buffer) b len (rounded_at (double_value v) (p - count)) pt))"
    unfolding counted_tail_def wp_bind [of "if _ then _ else _"]
    using count by (auto simp: wp_simps counted_result_def intro!: wp_mono [OF counted])
qed simp_all

end
