(* ===== verification/Bignum_Dtoa_Shortest.thy ===== *)
theory Bignum_Dtoa_Shortest
  imports Bignum_Dtoa_Rounded
begin

unbundle bit_operations_syntax

declare of_nat_unat [simp del]

text \<open>
  \<open>GenerateShortestDigits\<close>: the digits come from the left, and the loop stops at the first place
  where a multiple of the place's power of ten lies between the boundaries.  The result is therefore
  between the boundaries, no shorter decimal is, and it is the nearest one of its length.
\<close>

section \<open>Between the boundaries\<close>

text \<open>For an even significand the boundaries themselves round to the number.\<close>

definition in_bounds :: "bool \<Rightarrow> real \<Rightarrow> real \<Rightarrow> real \<Rightarrow> bool" where
  "in_bounds is_even lo hi x \<longleftrightarrow> (if is_even then lo \<le> x \<and> x \<le> hi else lo < x \<and> x < hi)"

lemma in_bounds_convex: "in_bounds e lo hi x \<Longrightarrow> in_bounds e lo hi z \<Longrightarrow> x \<le> y \<Longrightarrow> y \<le> z \<Longrightarrow> in_bounds e lo hi y"
  by (auto simp: in_bounds_def)

text \<open>
  The grid of the multiples of \<open>u = d * s\<close> around \<open>v = (D * d + r) * s\<close>; \<open>m * s\<close> and \<open>p * s\<close> are the
  distances of the boundaries.
\<close>

definition on_grid :: "nat \<Rightarrow> nat \<Rightarrow> nat \<Rightarrow> real \<Rightarrow> real \<Rightarrow> real \<Rightarrow> bool" where
  "on_grid D d r s u v \<longleftrightarrow> 0 < s \<and> r < d \<and> u = real d * s \<and> v = (real D * real d + real r) * s"

definition room_minus :: "bool \<Rightarrow> nat \<Rightarrow> nat \<Rightarrow> bool" where
  "room_minus is_even r m \<longleftrightarrow> (if is_even then r \<le> m else r < m)"

lemma grid_below: "on_grid D d r s u v \<Longrightarrow> v - real D * u = real r * s"
  by (simp add: on_grid_def algebra_simps)

lemma grid_above: "on_grid D d r s u v \<Longrightarrow> real (D + 1) * u - v = (real d - real r) * s"
  by (simp add: on_grid_def algebra_simps)

lemma grid_mono: "on_grid D d r s u v \<Longrightarrow> M \<le> N \<Longrightarrow> real M * u \<le> real N * u"
  by (simp add: on_grid_def mult_right_mono)

lemma grid_minus:
  assumes g: "on_grid D d r s u v" and p: "0 < p"
  shows "in_bounds e (v - real m * s) (v + real p * s) (real D * u) \<longleftrightarrow> room_minus e r m"
proof -
  have s: "0 < s"
    using g by (simp add: on_grid_def)
  have "0 \<le> real r * s" "0 < real p * s"
    using s p by simp_all
  then have "real D * u < v + real p * s"
    using grid_below [OF g] by linarith
  moreover have "v - real m * s \<le> real D * u \<longleftrightarrow> r \<le> m" "v - real m * s < real D * u \<longleftrightarrow> r < m"
    using grid_below [OF g] s mult_le_cancel_right_pos [of s "real r" "real m"] mult_less_cancel_right_pos [of s "real r" "real m"]
    by (simp_all add: algebra_simps)
  ultimately show ?thesis
    by (auto simp: in_bounds_def room_minus_def)
qed

lemma grid_plus:
  assumes g: "on_grid D d r s u v" and m: "0 < m"
  shows "in_bounds e (v - real m * s) (v + real p * s) (real (D + 1) * u) \<longleftrightarrow> in_range e d (r + p)"
proof -
  have s: "0 < s" "r < d"
    using g by (simp_all add: on_grid_def)
  have "0 < (real d - real r) * s" "0 < real m * s"
    using s m by simp_all
  then have "v - real m * s < real (D + 1) * u"
    using grid_above [OF g] by linarith
  moreover have "real (D + 1) * u \<le> v + real p * s \<longleftrightarrow> d \<le> r + p" "real (D + 1) * u < v + real p * s \<longleftrightarrow> d < r + p"
    using grid_above [OF g] s mult_le_cancel_right_pos [of s "real d - real r" "real p"]
      mult_less_cancel_right_pos [of s "real d - real r" "real p"] by (auto simp: algebra_simps)
  ultimately show ?thesis
    by (auto simp: in_bounds_def in_range_def)
qed

lemma grid_outside_below:
  assumes g: "on_grid D d r s u v" and "0 < p" and "\<not> room_minus e r m" and "M \<le> D"
  shows "\<not> in_bounds e (v - real m * s) (v + real p * s) (real M * u)"
proof -
  have pos: "0 \<le> real r * s" "0 < real p * s"
    using g \<open>0 < p\<close> by (simp_all add: on_grid_def)
  then have "real D * u < v + real p * s"
    using grid_below [OF g] by linarith
  then show ?thesis
    using grid_minus [OF g \<open>0 < p\<close>, of e m] grid_mono [OF g \<open>M \<le> D\<close>] assms(3)
    by (cases e) (simp_all add: in_bounds_def)
qed

lemma grid_outside_above:
  assumes g: "on_grid D d r s u v" and "0 < m" and "\<not> in_range e d (r + p)" and "D < M"
  shows "\<not> in_bounds e (v - real m * s) (v + real p * s) (real M * u)"
proof -
  have le: "real (D + 1) * u \<le> real M * u"
    using \<open>D < M\<close> by (intro grid_mono [OF g]) simp
  have "0 < (real d - real r) * s" "0 < real m * s"
    using g \<open>0 < m\<close> by (simp_all add: on_grid_def)
  then have "v - real m * s < real (D + 1) * u"
    using grid_above [OF g] by linarith
  then show ?thesis
    using grid_plus [OF g \<open>0 < m\<close>, of e p] assms(3) le
    by (cases e) (simp_all add: in_bounds_def)
qed

lemma grid_gap:
  assumes "on_grid D d r s u v" and "0 < m" and "0 < p" and "\<not> room_minus e r m" and "\<not> in_range e d (r + p)"
  shows "\<not> in_bounds e (v - real m * s) (v + real p * s) (real M * u)"
  using grid_outside_below [OF assms(1,3,4)] grid_outside_above [OF assms(1,2,5)] by (cases "M \<le> D") auto

lemma grid_distance:
  assumes g: "on_grid D d r s u v"
  shows "M \<le> D \<Longrightarrow> real r * s \<le> \<bar>real M * u - v\<bar>" and "D < M \<Longrightarrow> (real d - real r) * s \<le> \<bar>real M * u - v\<bar>"
    and "\<bar>real D * u - v\<bar> = real r * s" and "\<bar>real (D + 1) * u - v\<bar> = (real d - real r) * s"
proof -
  have pos: "0 \<le> real r * s" "0 \<le> (real d - real r) * s"
    using g by (simp_all add: on_grid_def)
  show "\<bar>real D * u - v\<bar> = real r * s" "\<bar>real (D + 1) * u - v\<bar> = (real d - real r) * s"
    using grid_below [OF g] grid_above [OF g] pos by linarith+
  show "real r * s \<le> \<bar>real M * u - v\<bar>" if "M \<le> D"
    using grid_mono [OF g that] grid_below [OF g] pos by linarith
  show "(real d - real r) * s \<le> \<bar>real M * u - v\<bar>" if "D < M"
    using grid_mono [OF g, of "D + 1" M] that grid_above [OF g] pos by simp
qed

lemma grid_closest:
  assumes g: "on_grid D d r s u v" and "0 < m" and "0 < p"
    and M: "in_bounds e (v - real m * s) (v + real p * s) (real M * u)"
  shows "2 * r \<le> d \<or> \<not> in_range e d (r + p) \<Longrightarrow> \<bar>real D * u - v\<bar> \<le> \<bar>real M * u - v\<bar>"
    and "d \<le> 2 * r \<or> \<not> room_minus e r m \<Longrightarrow> \<bar>real (D + 1) * u - v\<bar> \<le> \<bar>real M * u - v\<bar>"
proof -
  have s: "0 < s"
    using g by (simp add: on_grid_def)
  have le: "2 * r \<le> d \<Longrightarrow> real r * s \<le> (real d - real r) * s" "d \<le> 2 * r \<Longrightarrow> (real d - real r) * s \<le> real r * s"
    using s by (simp_all add: mult_le_cancel_right_pos)
  show "\<bar>real D * u - v\<bar> \<le> \<bar>real M * u - v\<bar>" if "2 * r \<le> d \<or> \<not> in_range e d (r + p)"
    using that grid_outside_above [OF g \<open>0 < m\<close>, of e p] M grid_distance(1,2) [OF g, of M] grid_distance(3,4) [OF g] le(1) by (cases "M \<le> D") auto
  show "\<bar>real (D + 1) * u - v\<bar> \<le> \<bar>real M * u - v\<bar>" if "d \<le> 2 * r \<or> \<not> room_minus e r m"
    using that grid_outside_below [OF g \<open>0 < p\<close>, of e m] M grid_distance(1,2) [OF g, of M] grid_distance(3,4) [OF g] le(2) by (cases "M \<le> D") auto
qed

section \<open>The digit loop\<close>

text \<open>
  The state before a digit: \<open>k\<close> digits have been written, what they leave of \<open>v\<close> is \<open>n\<close>, and the
  distances to the boundaries are \<open>m\<close> and \<open>p\<close>, all in the same unit.  No multiple of the last digit's
  power of ten is between the boundaries.
\<close>

definition shortest_loop :: "bool \<Rightarrow> real \<Rightarrow> real \<Rightarrow> real \<Rightarrow> int \<Rightarrow> bignum \<Rightarrow> nat \<Rightarrow> bool \<Rightarrow> shortest_state \<Rightarrow> bool" where
  "shortest_loop e lo v hi pt den N same t \<longleftrightarrow> (\<exists>n m p.
    let k = sh_length t; d = bvalue den; u = 10 powi (pt - int k - 1) / real d; D = dec_value (part (sh_buffer t) 0 k) in
    fits n (sh_numerator t) \<and> fits m (sh_minus t) \<and> fits p (sh_plus t) \<and> 0 < m \<and> m \<le> n \<and> 0 < p \<and> (same \<longrightarrow> m = p) \<and>
    \<not> in_range e (10 * d) (n + p) \<and> v = real (10 * D * d + n) * u \<and> lo = v - real m * u \<and> hi = v + real p * u \<and>
    length (sh_buffer t) = N \<and> digits_in (sh_buffer t) 0 k \<and>
    (if k = 0 then m < n \<and> in_range e d (n + p)
     else sh_buffer t ! 0 \<noteq> CHR ''0'' \<and> (\<forall>M. \<not> in_bounds e lo hi (real M * 10 powi (pt - int k)))))"

lemma shortest_loopI:
  assumes "fits n (sh_numerator t)" "fits m (sh_minus t)" "fits p (sh_plus t)" "0 < m" "m \<le> n" "0 < p" "same \<Longrightarrow> m = p"
    and "\<not> in_range e (10 * bvalue den) (n + p)" and "dec_value (part (sh_buffer t) 0 (sh_length t)) = D"
    and "10 powi (pt - int (sh_length t) - 1) / real (bvalue den) = u" and "real (10 * D * bvalue den + n) * u = v"
    and "v - real m * u = lo" "v + real p * u = hi" and "length (sh_buffer t) = N" and "digits_in (sh_buffer t) 0 (sh_length t)"
    and "sh_length t = 0 \<Longrightarrow> m < n \<and> in_range e (bvalue den) (n + p)"
    and "sh_length t \<noteq> 0 \<Longrightarrow> sh_buffer t ! 0 \<noteq> CHR ''0'' \<and> (\<forall>M. \<not> in_bounds e lo hi (real M * 10 powi (pt - int (sh_length t))))"
  shows "shortest_loop e lo v hi pt den N same t"
  unfolding shortest_loop_def Let_def assms(9,10)
  by (rule exI [of _ n], rule exI [of _ m], rule exI [of _ p]) (use assms in simp)

text \<open>What the loop has found: see the comment at its definition in \<open>bignum-dtoa.cc\<close>.\<close>

definition shortest_result :: "bool \<Rightarrow> real \<Rightarrow> real \<Rightarrow> real \<Rightarrow> int \<Rightarrow> nat \<Rightarrow> char list \<Rightarrow> nat \<Rightarrow> bool" where
  "shortest_result e lo v hi pt N b len \<longleftrightarrow> (let x = decimal_value (part b 0 len) pt in
    0 < len \<and> len \<le> N \<and> length b = N \<and> digits_in b 0 len \<and> b ! 0 \<noteq> CHR ''0'' \<and> in_bounds e lo hi x \<and>
    (len = 1 \<or> (\<forall>M. \<not> in_bounds e lo hi (real M * 10 powi (pt - int len + 1)))) \<and>
    (\<forall>M. in_bounds e lo hi (real M * 10 powi (pt - int len)) \<longrightarrow> \<bar>x - v\<bar> \<le> \<bar>real M * 10 powi (pt - int len) - v\<bar>))"

lemma written_digit:
  assumes "digits_in b 0 k" and "k < length b" and "x \<le> 9" and "if k = 0 then x \<noteq> 0 else b ! 0 \<noteq> CHR ''0''"
  shows "digits_in (b[k := digit_char x]) 0 (Suc k)" and "b[k := digit_char x] ! 0 \<noteq> CHR ''0''"
    and "dec_value (part (b[k := digit_char x]) 0 (Suc k)) = 10 * dec_value (part b 0 k) + x"
    and "decimal_value (part (b[k := digit_char x]) 0 (Suc k)) pt = real (10 * dec_value (part b 0 k) + x) * 10 powi (pt - int k - 1)"
proof -
  have "digit_char x \<noteq> CHR ''0''" if "x \<noteq> 0"
    using that digit_of_digit_char [OF assms(3)] by (auto simp: digit_of_def)
  then show "b[k := digit_char x] ! 0 \<noteq> CHR ''0''"
    using assms(2,4) by (cases "k = 0") (auto simp: nth_list_update)
  show "digits_in (b[k := digit_char x]) 0 (Suc k)"
    using assms by (simp add: digits_in_Suc)
  show dec: "dec_value (part (b[k := digit_char x]) 0 (Suc k)) = 10 * dec_value (part b 0 k) + x"
    using assms by (simp add: dec_value_part_Suc)
  show "decimal_value (part (b[k := digit_char x]) 0 (Suc k)) pt = real (10 * dec_value (part b 0 k) + x) * 10 powi (pt - int k - 1)"
    using assms(2) by (simp add: decimal_value_def dec algebra_simps)
qed

lemma round_last_up_digit:
  assumes "k < length b" and "q < 9"
  shows "round_last_up (b[k := digit_char q]) (Suc k) = Some (b[k := digit_char (q + 1)])"
proof -
  have "code_of (digit_char q) = int q + 48" "code_of CHR ''9'' = 57"
    using assms(2) by (simp add: code_of_digit_char) (simp add: code_of_def)
  moreover from this have "digit_char q \<noteq> CHR ''9''"
    using assms(2) by auto
  ultimately show ?thesis
    using assms by (simp add: round_last_up_def incr_def rd_def wr_def ASSERT_def digit_char_def code_of_def)
qed

lemma shortest_finish:
  assumes g: "on_grid E d r s (10 powi (pt - int k - 1)) v" and pos: "0 < m" "0 < p"
    and bounds: "lo = v - real m * s" "hi = v + real p * s"
    and b: "length b = N" "digits_in b 0 k" "k < N" and E: "E = 10 * dec_value (part b 0 k) + q" and q: "q \<le> 9"
    and first: "if k = 0 then x \<noteq> 0 else b ! 0 \<noteq> CHR ''0'' \<and> (\<forall>M. \<not> in_bounds e lo hi (real M * 10 powi (pt - int k)))"
    and x: "x = q \<and> room_minus e r m \<and> (2 * r \<le> d \<or> \<not> in_range e d (r + p)) \<or>
      x = q + 1 \<and> q < 9 \<and> in_range e d (r + p) \<and> (d \<le> 2 * r \<or> \<not> room_minus e r m)"
  shows "shortest_result e lo v hi pt N (b[k := digit_char x]) (Suc k)"
proof -
  have x9: "x \<le> 9"
    using x q by auto
  let ?u = "10 powi (pt - int k - 1)"
  let ?X = "10 * dec_value (part b 0 k) + x"
  have "in_bounds e lo hi (real ?X * ?u) \<and> (\<forall>M. in_bounds e lo hi (real M * ?u) \<longrightarrow> \<bar>real ?X * ?u - v\<bar> \<le> \<bar>real M * ?u - v\<bar>)"
    using x
  proof (rule disjE)
    assume "x = q \<and> room_minus e r m \<and> (2 * r \<le> d \<or> \<not> in_range e d (r + p))"
    then have a: "x = q" "room_minus e r m" and closest: "2 * r \<le> d \<or> \<not> in_range e d (r + p)"
      by blast+
    from a show ?thesis
      unfolding bounds using grid_minus [OF g pos(2), of e m] grid_closest(1) [OF g pos _ closest] E by blast
  next
    assume "x = q + 1 \<and> q < 9 \<and> in_range e d (r + p) \<and> (d \<le> 2 * r \<or> \<not> room_minus e r m)"
    then have a: "x = q + 1" "in_range e d (r + p)" and closest: "d \<le> 2 * r \<or> \<not> room_minus e r m"
      by blast+
    from a have "?X = E + 1"
      by (simp add: E)
    then show ?thesis
      unfolding bounds using a grid_plus [OF g pos(1), of e p] grid_closest(2) [OF g pos _ closest] by metis
  qed
  moreover have "if k = 0 then x \<noteq> 0 else b ! 0 \<noteq> CHR ''0''"
    using first by (auto split: if_splits)
  note w = written_digit [OF b(2) _ x9 this, unfolded b(1), OF b(3)]
  ultimately show ?thesis
    using w b first by (auto simp: shortest_result_def algebra_simps split: if_splits)
qed

lemma shortest_step_wp:
  assumes loop: "shortest_loop e lo v hi pt den N same t" and "\<not> sh_done t" and den: "divisor_ok den" "10 * bvalue den < big_bound"
    and room: "sh_length t < N"
  shows "wp (GenerateShortestDigits_step den e same t) (\<lambda>t'. sh_length t' = Suc (sh_length t) \<and>
    (if sh_done t' then shortest_result e lo v hi pt N (sh_buffer t') (sh_length t')
     else shortest_loop e lo v hi pt den N same t'))"
proof -
  define d where "d = bvalue den"
  define k where "k = sh_length t"
  define b where "b = sh_buffer t"
  define D where "D = dec_value (part b 0 k)"
  define s where "s = 10 powi (pt - int k - 1) / real d"
  obtain n m p where fits: "fits n (sh_numerator t)" "fits m (sh_minus t)" "fits p (sh_plus t)"
    and pos: "0 < m" "m \<le> n" "0 < p" and same: "same \<Longrightarrow> m = p" and range: "\<not> in_range e (10 * d) (n + p)"
    and v: "v = real (10 * D * d + n) * s" and bounds: "lo = v - real m * s" "hi = v + real p * s"
    and b: "length b = N" "digits_in b 0 k"
    and first: "if k = 0 then m < n \<and> in_range e d (n + p)
      else b ! 0 \<noteq> CHR ''0'' \<and> (\<forall>M. \<not> in_bounds e lo hi (real M * 10 powi (pt - int k)))"
    using loop unfolding shortest_loop_def Let_def d_def k_def b_def D_def s_def by blast
  have d: "0 < d" "fits d den" "10 * d < big_bound"
    using den divisor_ok_pos [of den] by (auto simp: d_def fits_def divisor_ok_def)
  have less: "n < 10 * d" "p \<le> 10 * d"
    using range pos(3) by (auto simp: in_range_def split: if_splits)
  define q where "q = n div d"
  define r where "r = n mod d"
  have n: "n = q * d + r" and r: "r < d"
    using d(1) by (simp_all add: q_def r_def)
  have q: "q \<le> 9"
    using less(1) d(1) by (simp add: q_def div_less_iff_less_mult less_Suc_eq_le [symmetric] del: less_Suc_eq_le)
  obtain dg num where dg: "DivideModuloIntBignum (sh_numerator t) den = Some (dg, num)" "unat dg = q" "fits r num"
    using DivideModulo_fits [OF fits(1) d(2) den(1)] less(1) by (auto simp: q_def r_def elim: wp_pairE)
  have dg9: "dg \<le> 9"
    using q by (simp add: word_le_nat_alt dg(2))
  have minus: "(if e then LessEqual num (sh_minus t) else Less num (sh_minus t)) = Some (room_minus e r m)"
    using Compare_fits [OF dg(3) fits(2)] by (simp add: room_minus_def)
  have plus: "PlusCompare num (sh_plus t) den = Some (cmp (r + p) d)" "PlusCompare num num den = Some (cmp (r + r) d)"
    using PlusCompare_fits [OF dg(3) fits(3) d(2)] PlusCompare_fits [OF dg(3) dg(3) d(2)] by simp_all
  have plus_range: "(if e then 0 \<le> cmp (r + p) d else 0 < cmp (r + p) d) = in_range e d (r + p)"
    by (simp add: in_range_def)
  have g: "on_grid (10 * D + q) d r s (10 powi (pt - int k - 1)) v"
    using d(1) r by (simp add: on_grid_def v n s_def algebra_simps)
  have q_less: "in_range e d (r + p) \<Longrightarrow> q < 9"
    using range q by (cases "q = 9") (auto simp: in_range_def n split: if_splits)
  have q_pos: "q \<noteq> 0" if "k = 0" "room_minus e r m \<or> \<not> in_range e d (r + p)"
    using that first by (cases "q = 0") (auto simp: n room_minus_def split: if_splits)
  have down: "shortest_result e lo v hi pt N (b[k := digit_char q]) (Suc k)"
    if "room_minus e r m" "2 * r \<le> d \<or> \<not> in_range e d (r + p)"
    by (rule shortest_finish [OF g pos(1,3) bounds b _ _ q]) (use that room first q_pos in \<open>auto simp: D_def k_def split: if_splits\<close>)
  have up: "shortest_result e lo v hi pt N (b[k := digit_char (q + 1)]) (Suc k)"
    if "in_range e d (r + p)" "d \<le> 2 * r \<or> \<not> room_minus e r m"
    by (rule shortest_finish [OF g pos(1,3) bounds b _ _ q]) (use that room first q_less in \<open>auto simp: D_def k_def split: if_splits\<close>)
  have incr: "round_last_up (b[k := digit_char q]) (Suc k) = Some (b[k := digit_char (q + 1)])" if "in_range e d (r + p)"
    using that q_less room b by (intro round_last_up_digit) (simp_all add: k_def)
  have rd: "rd (b[k := digit_char q]) k = Some (digit_char q)" "wr b k (digit_char q) = Some (b[k := digit_char q])"
    using room b by (simp_all add: rd_def wr_def k_def)
  show ?thesis
  proof (cases "room_minus e r m \<or> in_range e d (r + p)")
    case True
    define c where "c = (code_of (digit_char q) - code_of CHR ''0'') mod 2"
    define up where "up \<longleftrightarrow> (if room_minus e r m \<and> in_range e d (r + p) then d < r + r \<or> r + r = d \<and> c \<noteq> 0 else in_range e d (r + p))"
    have "GenerateShortestDigits_step den e same t = Some (t\<lparr>sh_numerator := num, sh_length := Suc k, sh_done := True,
        sh_buffer := b[k := digit_char (if up then q + 1 else q)]\<rparr>)"
      unfolding GenerateShortestDigits_step_def dg(1) bind.simps prod.case minus plus plus_range Let_def
      using dg9 True rd incr
      by (cases "room_minus e r m"; cases "in_range e d (r + p)"; cases "r + r" d rule: linorder_cases)
        (simp_all add: ASSERT_def dg(2) k_def [symmetric] b_def [symmetric] c_def up_def cmp_def)
    moreover have "shortest_result e lo v hi pt N (b[k := digit_char (if up then q + 1 else q)]) (Suc k)"
    proof (cases up)
      case True
      then have "in_range e d (r + p)" "d \<le> 2 * r \<or> \<not> room_minus e r m"
        by (auto simp: up_def split: if_splits)
      from up [OF this] True show ?thesis
        by simp
    next
      case False
      then have "room_minus e r m" "2 * r \<le> d \<or> \<not> in_range e d (r + p)"
        using \<open>room_minus e r m \<or> in_range e d (r + p)\<close> by (auto simp: up_def split: if_splits)
      from down [OF this] False show ?thesis
        by simp
    qed
    ultimately show ?thesis
      by (simp add: k_def)
  next
    case False
    then have le: "m \<le> r" "10 * r < big_bound" "10 * m < big_bound" "10 * p < big_bound"
      using r d pos less by (auto simp: room_minus_def in_range_def split: if_splits)
    obtain n' where n': "Times10 num = Some n'" "fits (10 * r) n'"
      using Times10_fits [OF dg(3) le(2)] by (rule wpE)
    obtain m' where m': "Times10 (sh_minus t) = Some m'" "fits (10 * m) m'"
      using Times10_fits [OF fits(2) le(3)] by (rule wpE)
    obtain p' where p': "Times10 (sh_plus t) = Some p'" "fits (10 * p) p'"
      using Times10_fits [OF fits(3) le(4)] by (rule wpE)
    define t' where "t' = t\<lparr>sh_numerator := n', sh_buffer := b[k := digit_char q],
        sh_length := Suc k, sh_minus := m', sh_plus := if same then m' else p'\<rparr>"
    have step: "GenerateShortestDigits_step den e same t = Some t'"
      unfolding GenerateShortestDigits_step_def dg(1) bind.simps prod.case minus plus plus_range Let_def t'_def
      using dg9 rd False n'(1) m'(1) p'(1) by (simp add: ASSERT_def dg(2) k_def [symmetric] b_def [symmetric])
    have t': "sh_numerator t' = n'" "sh_minus t' = m'" "sh_plus t' = (if same then m' else p')" "sh_buffer t' = b[k := digit_char q]"
      "sh_length t' = Suc k" "sh_done t' = sh_done t"
      by (simp_all add: t'_def)
    have u: "10 powi (pt - int (Suc k) - 1) / real d = s / 10" "pt - int (Suc k) = pt - int k - 1"
      by (simp_all add: s_def power_int_diff)
    have dec: "dec_value (part (b[k := digit_char q]) 0 (Suc k)) = 10 * D + q" "digits_in (b[k := digit_char q]) 0 (Suc k)"
      "b[k := digit_char q] ! 0 \<noteq> CHR ''0''"
      using written_digit [OF b(2) _ q] first q_pos False room b by (auto simp: D_def k_def split: if_splits)
    have gap: "\<not> in_bounds e lo hi (real M * 10 powi (pt - int k - 1))" for M
      using grid_gap [OF g pos(1,3), of e M] False unfolding bounds by blast
    have eqs: "real (10 * (10 * D + q) * d + 10 * r) * (s / 10) = v" "v - real (10 * m) * (s / 10) = lo" "v + real (10 * p) * (s / 10) = hi"
      by (simp_all add: bounds) (simp add: v n algebra_simps)
    have range': "\<not> in_range e (10 * d) (10 * r + 10 * p)"
      using False by (auto simp: in_range_def split: if_splits)
    have p'': "fits (10 * p) (sh_plus t')"
      unfolding t'(3) using p'(2) m'(2) same by (cases same) simp_all
    have "shortest_loop e lo v hi pt den N same t'"
    proof (rule shortest_loopI [where u = "s / 10" and n = "10 * r" and m = "10 * m" and p = "10 * p" and D = "10 * D + q"])
      show "fits (10 * r) (sh_numerator t')" "fits (10 * m) (sh_minus t')" "fits (10 * p) (sh_plus t')"
        using n'(2) m'(2) p'' by (simp_all only: t')
      show "0 < 10 * m" "10 * m \<le> 10 * r" "0 < 10 * p" "same \<Longrightarrow> 10 * m = 10 * p"
        using pos le(1) same by auto
      show "\<not> in_range e (10 * bvalue den) (10 * r + 10 * p)"
        using range' by (simp add: d_def)
      show "dec_value (part (sh_buffer t') 0 (sh_length t')) = 10 * D + q" "digits_in (sh_buffer t') 0 (sh_length t')"
        using dec by (simp_all only: t')
      show "10 powi (pt - int (sh_length t') - 1) / real (bvalue den) = s / 10"
        using u(1) by (simp only: t' d_def)
      show "real (10 * (10 * D + q) * bvalue den + 10 * r) * (s / 10) = v" "v - real (10 * m) * (s / 10) = lo"
        "v + real (10 * p) * (s / 10) = hi"
        using eqs by (simp_all only: d_def)
      show "length (sh_buffer t') = N"
        using b(1) by (simp add: t')
      show "sh_length t' = 0 \<Longrightarrow> 10 * m < 10 * r \<and> in_range e (bvalue den) (10 * r + 10 * p)"
        by (simp add: t')
      show "sh_buffer t' ! 0 \<noteq> CHR ''0'' \<and> (\<forall>M. \<not> in_bounds e lo hi (real M * 10 powi (pt - int (sh_length t'))))"
        using dec(3) gap by (simp only: t' u(2)) blast
    qed
    then show ?thesis
      using \<open>\<not> sh_done t\<close> by (simp add: step t' k_def)
  qed
qed

lemma shortest_room:
  assumes loop: "shortest_loop e lo v hi pt den N same t" and start: "10 powi (pt - 1) \<le> hi" and width: "hi < 10 ^ K * (hi - lo)"
  shows "sh_length t \<le> K"
proof (cases "sh_length t = 0")
  case True
  then show ?thesis
    by simp
next
  case False
  define k where "k = sh_length t"
  have gap: "\<not> in_bounds e lo hi (real M * 10 powi (pt - int k))" for M
    using loop False unfolding shortest_loop_def Let_def k_def by auto
  define u where "u = (10 :: real) powi (pt - int k)"
  have u: "0 < u"
    by (simp add: u_def)
  have lo: "0 \<le> lo"
  proof -
    define d where "d = bvalue den"
    define D where "D = dec_value (part (sh_buffer t) 0 k)"
    define w where "w = 10 powi (pt - int k - 1) / real d"
    obtain n m where n: "m \<le> n" "v = real (10 * D * d + n) * w" "lo = v - real m * w"
      using loop unfolding shortest_loop_def Let_def k_def d_def D_def w_def by blast
    have "lo = real (10 * D * d + (n - m)) * w"
      using n(1) by (simp add: n(2,3) of_nat_diff algebra_simps)
    then show ?thesis
      by (simp add: w_def)
  qed
  define M where "M = nat (\<lfloor>lo / u\<rfloor> + 1)"
  have "real M = of_int \<lfloor>lo / u\<rfloor> + 1"
    using lo u by (simp add: M_def)
  then have "lo / u < real M" "real M \<le> lo / u + 1"
    by linarith+
  then have "lo < real M * u" "real M * u \<le> lo + u"
    using u by (simp_all add: field_simps)
  then have "hi - lo \<le> u"
    using gap [of M] by (auto simp: in_bounds_def u_def [symmetric] split: if_splits)
  then have "10 ^ K * (hi - lo) \<le> 10 ^ K * u"
    by (intro mult_left_mono) simp_all
  then have "(10 :: real) powi (pt - 1) < 10 ^ K * u"
    using start width by linarith
  then have "(10 :: real) powi (pt - 1) < 10 powi (pt - int k + int K)"
    by (simp add: power_int_add mult.commute u_def)
  then have "pt - 1 < pt - int k + int K"
    using power_int_increasing [of "pt - int k + int K" "pt - 1" "10 :: real"] by (intro not_le_imp_less notI) simp
  then show ?thesis
    by (simp add: k_def)
qed

theorem GenerateShortestDigits_wp:
  assumes "fits n (numerator s)" "fits m (delta_minus s)" "fits p (delta_plus s)" "0 < m" "m < n" "0 < p"
    and den: "divisor_ok (denominator s)" "10 * bvalue (denominator s) < big_bound"
    and range: "in_range e (bvalue (denominator s)) (n + p)" "\<not> in_range e (10 * bvalue (denominator s)) (n + p)"
    and u: "10 powi (pt - 1) / real (bvalue (denominator s)) = u"
    and eqs: "real n * u = v" "v - real m * u = lo" "v + real p * u = hi"
    and width: "hi < 10 ^ K * (hi - lo)" and room: "K < length buffer"
  shows "wp (GenerateShortestDigits s e buffer) (\<lambda>(b, len). shortest_result e lo v hi pt (length buffer) b len \<and> len \<le> Suc K)"
proof -
  let ?d = "bvalue (denominator s)" and ?N = "length buffer"
  have d: "0 < ?d"
    using den divisor_ok_pos by blast
  define same where "same \<longleftrightarrow> m = p"
  have eq: "Equal (delta_minus s) (delta_plus s) = Some same"
    using Compare_fits [OF assms(2,3)] by (simp add: same_def)
  define t where "t = \<lparr>sh_done = False, sh_numerator = numerator s, sh_minus = delta_minus s,
    sh_plus = if same then delta_minus s else delta_plus s, sh_buffer = buffer, sh_length = 0\<rparr>"
  have "shortest_loop e lo v hi pt (denominator s) ?N same t"
    by (rule shortest_loopI [of n _ m p same e _ 0 _ u]) (use assms in \<open>auto simp: t_def same_def digits_in_def\<close>)
  moreover have start: "10 powi (pt - 1) \<le> hi"
  proof -
    have "real ?d \<le> real (n + p)"
      using range(1) by (auto simp: in_range_def split: if_splits)
    moreover have "0 < u"
      using d by (simp flip: u)
    ultimately have "real ?d * u \<le> real (n + p) * u"
      by (intro mult_right_mono) simp_all
    moreover have "real ?d * u = 10 powi (pt - 1)"
      using d by (simp flip: u)
    ultimately show ?thesis
      by (simp add: eqs [symmetric] algebra_simps)
  qed
  let ?I = "\<lambda>t. if sh_done t then shortest_result e lo v hi pt ?N (sh_buffer t) (sh_length t) \<and> sh_length t \<le> Suc K
    else shortest_loop e lo v hi pt (denominator s) ?N same t"
  have "wp (while_opt (\<lambda>t. \<not> sh_done t) (GenerateShortestDigits_step (denominator s) e same) t)
      (\<lambda>t. shortest_result e lo v hi pt ?N (sh_buffer t) (sh_length t) \<and> sh_length t \<le> Suc K)"
  proof (rule while_opt_rule [where I = ?I and m = "\<lambda>t. if sh_done t then 0 else Suc (?N - sh_length t)"])
    show "?I t"
      using calculation by (simp add: t_def)
    fix t
    assume t: "?I t" "\<not> sh_done t"
    then have loop: "shortest_loop e lo v hi pt (denominator s) ?N same t"
      by simp
    have le: "sh_length t \<le> K"
      by (rule shortest_room [OF loop start width])
    then have less: "sh_length t < ?N"
      using room by simp
    show "wp (GenerateShortestDigits_step (denominator s) e same t) (\<lambda>t'. ?I t' \<and>
        (if sh_done t' then 0 else Suc (?N - sh_length t')) < (if sh_done t then 0 else Suc (?N - sh_length t)))"
      by (rule wp_mono [OF shortest_step_wp [OF loop t(2) den less]]) (use t le less in auto)
  qed simp
  then show ?thesis
    unfolding GenerateShortestDigits_def eq bind.simps Let_def t_def [symmetric] by (simp add: wp_simps)
qed

section \<open>The call in the shortest modes\<close>

text \<open>\<open>BignumDtoa\<close> with the significand and the exponent of a double or of a float.\<close>

definition shortest_tail :: "u64 \<Rightarrow> int \<Rightarrow> bool \<Rightarrow> char list \<Rightarrow> (char list \<times> nat \<times> int) option" where
  "shortest_tail significand e closer buffer = do {
     normalized_exponent \<leftarrow> NormalizedExponent significand e;
     let estimated_power = EstimatePower normalized_exponent;
     let is_even = (significand AND 1 = 0);
     s \<leftarrow> InitialScaledStartValues significand e closer estimated_power True scaled_new;
     (pt, s) \<leftarrow> FixupMultiply10 estimated_power is_even s;
     (buffer, len) \<leftarrow> GenerateShortestDigits s is_even buffer;
     buffer \<leftarrow> wr buffer len (char_at 0);
     Some (buffer, len, pt) }"

lemma BignumDtoa_shortest_mode:
  "BignumDtoa v BIGNUM_DTOA_SHORTEST r buffer = do {
     ASSERT (double_less 0 v); ASSERT (\<not> IsSpecial v);
     shortest_tail (Significand v) (Exponent v) (LowerBoundaryIsCloser v) buffer }"
  "BignumDtoa v BIGNUM_DTOA_SHORTEST_SINGLE r buffer = (let f = single_of_double v in do {
     ASSERT (double_less 0 v); ASSERT (\<not> IsSpecial v); ASSERT (double_equal (double_of_single f) v);
     shortest_tail (ucast (Single_Significand f)) (Single_Exponent f) (Single_LowerBoundaryIsCloser f) buffer })"
  by (simp_all add: BignumDtoa_def shortest_tail_def Let_def bind_assoc ASSERT_def kMaxSignificantBits_def case_prod_unfold)

text \<open>The point stands for the order of magnitude of the upper boundary.\<close>

definition upper_at :: "bool \<Rightarrow> int \<Rightarrow> real \<Rightarrow> bool" where
  "upper_at e pt hi \<longleftrightarrow> (if e then 10 powi (pt - 1) \<le> hi else 10 powi (pt - 1) < hi)"

lemma in_range_ratio:
  assumes "0 < d" and "real n / real d * 10 powi i = x"
  shows "in_range e (c * d) n \<longleftrightarrow> (if e then real c * 10 powi i \<le> x else real c * 10 powi i < x)"
proof -
  have "c * d \<le> n \<longleftrightarrow> real c * 10 powi i \<le> x" "c * d < n \<longleftrightarrow> real c * 10 powi i < x"
    unfolding assms(2) [symmetric] ten_cancel ratio_le [OF assms(1), symmetric]
    using ratio_le [OF assms(1), of c n] assms(1) by (simp_all add: less_divide_eq) (metis of_nat_less_iff of_nat_mult)
  then show ?thesis
    by (simp add: in_range_def)
qed

lemma shortest_generate_wp:
  assumes "fits n (numerator s)" "fits m (delta_minus s)" "fits p (delta_plus s)" "0 < m" "m < n" "0 < p"
    and den: "fits d (denominator s)" "divisor_ok (denominator s)" "10 * d < big_bound" "0 < d"
    and eqs: "real n / real d * 10 powi (pt - 1) = v" "real m / real d * 10 powi (pt - 1) = v - lo" "real p / real d * 10 powi (pt - 1) = hi - v"
    and range: "in_range e d (n + p)" "\<not> in_range e (10 * d) (n + p)"
    and width: "hi < 10 ^ K * (hi - lo)" and room: "K < length buffer"
  shows "wp (do { (b, len) \<leftarrow> GenerateShortestDigits s e buffer; Some (b, len, pt) })
    (\<lambda>(b, len, pt). shortest_result e lo v hi pt (length buffer) b len \<and> len \<le> Suc K \<and>
      upper_at e pt hi)"
proof -
  have d: "bvalue (denominator s) = d"
    using den(1) by (simp add: fits_def)
  have hi: "real (n + p) / real d * 10 powi (pt - 1) = hi"
    using eqs by (simp add: add_divide_distrib distrib_right)
  define u where "u = 10 powi (pt - 1) / real d"
  have u: "10 powi (pt - 1) / real (bvalue (denominator s)) = u"
    by (simp add: u_def d)
  have "real n * u = v" "real m * u = v - lo" "real p * u = hi - v"
    using eqs by (simp_all add: u_def)
  then have bounds: "real n * u = v" "v - real m * u = lo" "v + real p * u = hi"
    by simp_all
  have "wp (GenerateShortestDigits s e buffer) (\<lambda>(b, len). shortest_result e lo v hi pt (length buffer) b len \<and> len \<le> Suc K)"
    by (intro GenerateShortestDigits_wp [OF assms(1-6) den(2) _ _ _ u bounds width room]) (use den(3) range d in simp_all)
  moreover have "upper_at e pt hi"
    using in_range_ratio [OF den(4) hi, of e 1] range(1) by (cases e) (simp_all add: upper_at_def)
  ultimately show ?thesis
    unfolding wp_bind [of "GenerateShortestDigits _ _ _"] by (auto elim: wp_mono)
qed

lemma shortest_scaled_wp:
  assumes n: "fits n (numerator s)" "10 * n < big_bound" and d: "fits d (denominator s)" "divisor_ok (denominator s)" "10 * d < big_bound" "0 < d"
    and m: "fits m (delta_minus s)" "10 * m < big_bound" and p: "fits p (delta_plus s)" "10 * p < big_bound" and pos: "0 < m" "m < n" "0 < p"
    and eqs: "real n / real d * 10 powi ep = v" "real m / real d * 10 powi ep = v - lo" "real p / real d * 10 powi ep = hi - v"
    and ep: "10 powi (ep - 1) \<le> v" "hi < 10 powi (ep + 1)"
    and width: "hi < 10 ^ K * (hi - lo)" and room: "K < length buffer"
  shows "wp (do { (pt, s) \<leftarrow> FixupMultiply10 ep e s; (b, len) \<leftarrow> GenerateShortestDigits s e buffer; Some (b, len, pt) })
    (\<lambda>(b, len, pt). shortest_result e lo v hi pt (length buffer) b len \<and> len \<le> Suc K \<and>
      upper_at e pt hi)"
  unfolding wp_bind [of "FixupMultiply10 _ _ _"]
proof (rule wp_mono [OF FixupMultiply10_wp [OF n d(1) m p, of ep e]])
  fix x :: "int \<times> scaled"
  assume "case x of (pt, r) \<Rightarrow> denominator r = denominator s \<and> (if in_range e d (n + p)
     then pt = ep + 1 \<and> fits n (numerator r) \<and> fits m (delta_minus r) \<and> fits p (delta_plus r)
     else pt = ep \<and> fits (10 * n) (numerator r) \<and> fits (10 * m) (delta_minus r) \<and> fits (10 * p) (delta_plus r))"
  then obtain pt r where x: "x = (pt, r)" and den: "denominator r = denominator s" and r: "if in_range e d (n + p)
     then pt = ep + 1 \<and> fits n (numerator r) \<and> fits m (delta_minus r) \<and> fits p (delta_plus r)
     else pt = ep \<and> fits (10 * n) (numerator r) \<and> fits (10 * m) (delta_minus r) \<and> fits (10 * p) (delta_plus r)"
    by (cases x) simp
  have hi: "real (n + p) / real d * 10 powi ep = hi"
    using eqs by (simp add: add_divide_distrib distrib_right)
  show "wp (case x of (pt, s) \<Rightarrow> do { (b, len) \<leftarrow> GenerateShortestDigits s e buffer; Some (b, len, pt) })
    (\<lambda>(b, len, pt). shortest_result e lo v hi pt (length buffer) b len \<and> len \<le> Suc K \<and>
      upper_at e pt hi)"
  proof (cases "in_range e d (n + p)")
    case True
    have "\<not> in_range e (10 * d) (n + p)"
      using in_range_ratio [OF d(4) hi, of e 10] ep(2) by (cases e) (simp_all add: ten_Suc)
    from shortest_generate_wp [OF _ _ _ pos _ _ d(3,4) _ _ _ True this width room, of r "ep + 1" v]
    show ?thesis
      using True r den d eqs by (simp only: x prod.case if_True den add_diff_cancel_right')
  next
    case False
    have ten: "real (10 * x) / real d * 10 powi (ep - 1) = real x / real d * 10 powi ep" for x
      by (simp add: power_int_diff)
    have "real 1 * 10 powi (ep - 1) \<le> v"
      using ep(1) by simp
    then have "d \<le> 10 * n"
      unfolding eqs(1) [symmetric] ten [symmetric] ten_cancel using ratio_le [OF d(4), of 1 "10 * n"] by simp
    then have "in_range e d (10 * n + 10 * p)" "\<not> in_range e (10 * d) (10 * n + 10 * p)"
      using pos False by (auto simp: in_range_def)
    moreover have "0 < 10 * m" "10 * m < 10 * n" "0 < 10 * p"
      using pos by simp_all
    ultimately show ?thesis
      using shortest_generate_wp [OF _ _ _ _ _ _ _ _ d(3,4) _ _ _ _ _ width room, of "10 * n" r "10 * m" "10 * p" ep v e]
        False r d(1,2) eqs by (simp only: x prod.case if_False den ten simp_thms)
  qed
qed

lemma shortest_result_terminated:
  assumes "shortest_result e lo v hi pt N b len"
  shows "shortest_result e lo v hi pt N (b[len := c]) len"
  using assms by (simp add: shortest_result_def Let_def)

lemma shortest_tail_wp:
  assumes f: "0 < unat f" "unat f < 2 ^ 53" and e: "- 1074 \<le> e" "e \<le> 971"
    and v: "v = real (unat f) * 2 powi e" and lo: "lo = v - (if closer then 2 powi e / 4 else 2 powi e / 2)" and hi: "hi = v + 2 powi e / 2"
    and width: "2 * real (unat f) + 1 < 10 ^ K * (if closer then 3 / 2 else 2)" and room: "Suc K < length buffer"
  shows "wp (shortest_tail f e closer buffer) (\<lambda>(b, len, pt). shortest_result (even (unat f)) lo v hi pt (length buffer) b len \<and>
    len \<le> Suc K \<and> upper_at (even (unat f)) pt hi \<and> b ! len = char_at 0)"
proof -
  define is_even where "is_even = even (unat f)"
  have even: "(f AND 1 = 0) = is_even"
    by (simp add: is_even_def word_unat_eq_iff unat_and1 even_iff_mod_2_eq_zero)
  obtain e' k where norm: "NormalizedExponent f e = Some e'" and k: "2 ^ 52 \<le> unat f * 2 ^ k" "unat f * 2 ^ k < 2 ^ 53" "e' = e - int k"
    using NormalizedExponent_wp [OF f] by (rule wpE) blast
  define ep where "ep = EstimatePower e'"
  have ep: "ep = EstimatePower (e - int k)"
    by (simp add: ep_def k)
  note range = estimate_range [OF k(1,2) e ep]
  have two: "0 < (2 :: real) powi e"
    by simp
  have one: "1 * 2 powi e \<le> real (unat f) * 2 powi e"
    using f by (intro mult_right_mono) simp_all
  have hi_eq: "hi = (2 * real (unat f) + 1) * (2 powi e / 2)"
    by (simp add: hi v field_simps)
  have hi_less: "hi < 10 powi (ep + 1)"
    by (rule le_less_trans [OF _ range(4)]) (use two in \<open>simp add: hi v algebra_simps\<close>)
  have "hi < 10 ^ K * (if closer then 3 / 2 else 2) * (2 powi e / 2)"
    unfolding hi_eq using width by (rule mult_strict_right_mono) simp
  also have "\<dots> = 10 ^ K * (hi - lo)"
    by (simp add: hi lo)
  finally have hi_width: "hi < 10 ^ K * (hi - lo)" .
  let ?P = "\<lambda>(b, len, pt). shortest_result is_even lo v hi pt (length buffer) b len \<and> len \<le> Suc K \<and> upper_at is_even pt hi"
  have "wp (do { s \<leftarrow> InitialScaledStartValues f e closer ep True scaled_new;
      do { (pt, s) \<leftarrow> FixupMultiply10 ep is_even s; (b, len) \<leftarrow> GenerateShortestDigits s is_even buffer; Some (b, len, pt) } }) ?P"
    unfolding wp_bind [of "InitialScaledStartValues _ _ _ _ _ _"]
  proof (rule wp_mono [OF InitialScaledStartValues_ready [OF k(1,2) e ep, of closer True]], elim exE conjE)
    fix s :: scaled and n d m p
    assume n: "fits n (numerator s)" "10 * n < big_bound" and d: "fits d (denominator s)" "divisor_ok (denominator s)" "0 < d" "100 * d < big_bound"
      and m: "fits m (delta_minus s)" "10 * m < big_bound" and p: "fits p (delta_plus s)" "10 * p < big_bound"
      and eqs: "real n / real d * 10 powi ep = real (unat f) * 2 powi e"
        "real m / real d * 10 powi ep = (if True then if closer then 2 powi e / 4 else 2 powi e / 2 else 0)"
        "real p / real d * 10 powi ep = (if True then 2 powi e / 2 else 0)"
    show "wp (do { (pt, s) \<leftarrow> FixupMultiply10 ep is_even s; (b, len) \<leftarrow> GenerateShortestDigits s is_even buffer; Some (b, len, pt) }) ?P"
    proof (rule shortest_scaled_wp [OF n d(1,2) _ d(3) m p])
      show "10 * d < big_bound"
        using d(4) by simp
      have "0 < real m / real d * 10 powi ep" "0 < real p / real d * 10 powi ep"
        unfolding eqs using two by simp_all
      then show "0 < m" "0 < p"
        by (auto intro: gr0I)
      have "real m / real d * 10 powi ep < real n / real d * 10 powi ep"
        unfolding eqs using two one by simp
      then have "real m / real d < real n / real d"
        unfolding ten_cancel .
      then show "m < n"
        using d(3) by (simp add: divide_less_cancel)
    qed (use eqs v lo hi range(3) hi_less hi_width room in simp_all)
  qed
  then obtain b len pt where run: "do { s \<leftarrow> InitialScaledStartValues f e closer ep True scaled_new;
      do { (pt, s) \<leftarrow> FixupMultiply10 ep is_even s; (b, len) \<leftarrow> GenerateShortestDigits s is_even buffer; Some (b, len, pt) } } =
      Some (b, len, pt)" and res: "shortest_result is_even lo v hi pt (length buffer) b len" "len \<le> Suc K" "upper_at is_even pt hi"
    by (rule wpE) (auto split: prod.splits)
  have "shortest_tail f e closer buffer = Option.bind (do { s \<leftarrow> InitialScaledStartValues f e closer ep True scaled_new;
      do { (pt, s) \<leftarrow> FixupMultiply10 ep is_even s; (b, len) \<leftarrow> GenerateShortestDigits s is_even buffer; Some (b, len, pt) } })
      (\<lambda>(b, len, pt). do { b \<leftarrow> wr b len (char_at 0); Some (b, len, pt) })"
    by (simp add: shortest_tail_def norm even ep_def [symmetric] bind_assoc case_prod_unfold Let_def)
  moreover have "length b = length buffer"
    using res(1) by (simp add: shortest_result_def Let_def)
  ultimately show ?thesis
    using shortest_result_terminated [OF res(1)] res room unfolding run by (simp add: wp_simps is_even_def)
qed

end
