(* ===== verification/Shortest_Decimal.thy ===== *)
theory Shortest_Decimal
  imports Bignum_Dtoa_Shortest
begin

unbundle bit_operations_syntax

declare of_nat_unat [simp del]

text \<open>
  What \<open>BignumDtoa\<close> promises in its two shortest modes, in terms of reading the digits back: they
  read as the double (the float), no decimal with fewer digits does, and no decimal of the same
  length is closer.
\<close>

section \<open>The specification\<close>

definition shortest_decimal :: "(real \<Rightarrow> bool) \<Rightarrow> real \<Rightarrow> char list \<Rightarrow> int \<Rightarrow> bool" where
  "shortest_decimal reads v cs pt \<longleftrightarrow> reads (decimal_value cs pt) \<and>
    (\<forall>M i. reads (real M * 10 powi i) \<longrightarrow> 10 ^ (length cs - 1) \<le> M) \<and>
    (\<forall>M. reads (real M * 10 powi (pt - int (length cs))) \<longrightarrow>
      \<bar>decimal_value cs pt - v\<bar> \<le> \<bar>real M * 10 powi (pt - int (length cs)) - v\<bar>)"

lemma ten_split: "(10 :: real) powi (int a + i) = 10 ^ a * 10 powi i"
  by (simp add: power_int_add)

text \<open>A decimal with fewer digits is a multiple of a higher power of ten, or it is below the range.\<close>

lemma no_shorter_decimal:
  assumes top: "upper_at e pt hi" and lo: "0 < lo" and "0 < len"
    and gap: "len = 1 \<or> (\<forall>M. \<not> in_bounds e lo hi (real M * 10 powi (pt - int len + 1)))"
    and M: "in_bounds e lo hi (real M * 10 powi i)"
  shows "10 ^ (len - 1) \<le> M"
proof (rule ccontr)
  assume "\<not> 10 ^ (len - 1) \<le> M"
  then have less: "M < 10 ^ (len - 1)"
    by simp
  have "M \<noteq> 0"
    using M lo by (intro notI) (auto simp: in_bounds_def split: if_splits)
  then have len: "2 \<le> len" and no: "\<And>M. \<not> in_bounds e lo hi (real M * 10 powi (pt - int len + 1))"
    using less gap \<open>0 < len\<close> by (auto simp: Suc_le_eq intro: ccontr)
  show False
  proof (cases "pt - int len + 1 \<le> i")
    case True
    then have "10 powi i = (10 :: real) powi (int (nat (i - (pt - int len + 1))) + (pt - int len + 1))"
      by simp
    also have "\<dots> = real (10 ^ nat (i - (pt - int len + 1))) * 10 powi (pt - int len + 1)"
      by (simp only: ten_split of_nat_power of_nat_numeral)
    finally show False
      using no [of "M * 10 ^ nat (i - (pt - int len + 1))"] M by (simp add: mult.assoc)
  next
    case False
    have "real M < 10 ^ (len - 1)"
      using less by (metis of_nat_less_iff of_nat_numeral of_nat_power)
    then have "real M * 10 powi i < 10 ^ (len - 1) * 10 powi i"
      by simp
    also have "\<dots> \<le> 10 ^ (len - 1) * 10 powi (pt - int len)"
      using False by (intro mult_left_mono power_int_increasing) simp_all
    also have "\<dots> = 10 powi (int (len - 1) + (pt - int len))"
      by (simp only: ten_split of_nat_power of_nat_numeral)
    also have "\<dots> = 10 powi (pt - 1)"
      using \<open>0 < len\<close> by (simp add: of_nat_diff)
    finally have "in_bounds e lo hi (10 powi (pt - 1))"
      using M top by (auto simp: in_bounds_def upper_at_def split: if_splits)
    moreover have "10 powi (pt - 1) = (10 :: real) powi (int (len - 2) + (pt - int len + 1))"
      using len by (simp add: of_nat_diff)
    moreover have "\<dots> = real (10 ^ (len - 2)) * 10 powi (pt - int len + 1)"
      by (simp only: ten_split of_nat_power of_nat_numeral)
    ultimately show False
      using no [of "10 ^ (len - 2)"] by simp
  qed
qed

lemma shortest_result_decimal:
  assumes res: "shortest_result e lo v hi pt N b len" and top: "upper_at e pt hi" and lo: "0 < lo"
    and reads: "\<And>x. reads x \<longleftrightarrow> in_bounds e lo hi x"
  shows "shortest_decimal reads v (take len b) pt"
proof -
  have b: "0 < len" "len \<le> length b" "part b 0 len = take len b"
    using res by (auto simp: shortest_result_def Let_def part_def)
  have "10 ^ (len - 1) \<le> M" if "in_bounds e lo hi (real M * 10 powi i)" for M i
    by (rule no_shorter_decimal [OF top lo b(1) _ that]) (use res in \<open>auto simp: shortest_result_def Let_def\<close>)
  then show ?thesis
    using res b by (simp add: shortest_decimal_def reads shortest_result_def Let_def)
qed

section \<open>The boundaries of a double and of a float\<close>

lemma nearest_in_bounds: "0 < k \<Longrightarrow> nearest p den x k \<longleftrightarrow> in_bounds (even k) (mid_real p den (k - 1)) (mid_real p den k) x"
  by (auto simp: nearest_def lower_ok_def upper_ok_def in_bounds_def)

lemma even_enc_sig: "0 < p \<Longrightarrow> even (enc_sig p k) \<longleftrightarrow> even k"
  by (simp add: enc_sig_def dvd_mod_iff)

context ieee_encoding begin

lemma nearest_boundaries:
  assumes "finite_pos w" and "0 < bits w" and "0 < p"
  shows "nearest p den x (bits w) \<longleftrightarrow> in_bounds (even (significand w))
    (real (significand w) * 2 powi expo w - (if closer w then 2 powi expo w / 4 else 2 powi expo w / 2))
    (real (significand w) * 2 powi expo w + 2 powi expo w / 2) x"
proof -
  let ?f = "real (significand w)" and ?e = "expo w"
  have two: "(2 :: real) powi (?e - 1) = 2 powi ?e / 2" "(2 :: real) powi (?e - 2) = 2 powi ?e / 4"
    by (simp_all add: power_int_diff)
  have "?f * 2 powi ?e + 2 powi ?e / 2 = mid_real p den (bits w)"
    using upper_midpoint [OF assms(1)] by (simp add: mid_real_def two field_simps)
  moreover have "?f * 2 powi ?e - (if closer w then 2 powi ?e / 4 else 2 powi ?e / 2) = mid_real p den (bits w - 1)"
    using lower_midpoint [OF assms(1,2)] assms(2) by (simp add: mid_real_def two field_simps split: if_splits)
  moreover have "even (significand w) \<longleftrightarrow> even (bits w)"
    by (simp add: significand [OF assms(1)] even_enc_sig [OF assms(3)])
  ultimately show ?thesis
    by (simp add: nearest_in_bounds [OF assms(2)])
qed

end

lemma double_nearest_iff: "unat v < kInfinityBits \<Longrightarrow> double_nearest x v \<longleftrightarrow> nearest 52 kDenormalExponent x (unat v)"
  by (auto simp: double_nearest_def nearest_def)

definition single_nearest :: "real \<Rightarrow> single_bits \<Rightarrow> bool" where
  "single_nearest x w \<longleftrightarrow> nearest 23 Single_kDenormalExponent x (unat w)"

section \<open>The mode for doubles\<close>

theorem BignumDtoa_shortest_wp:
  assumes v: "0 < unat v" "unat v < kInfinityBits" and room: "17 < length buffer"
  shows "wp (BignumDtoa v BIGNUM_DTOA_SHORTEST r buffer) (\<lambda>(b, len, pt). 1 \<le> len \<and> len \<le> 17 \<and> length b = length buffer \<and>
    digits_in b 0 len \<and> b ! 0 \<noteq> CHR ''0'' \<and> b ! len = char_at 0 \<and>
    shortest_decimal (\<lambda>x. double_nearest x v) (double_value v) (take len b) pt)"
proof -
  have fin: "double_finite_pos v"
    using v by (simp add: double_finite_pos_iff kInfinityBits_def)
  from positive_double_parts [OF v] obtain k where f: "unat (Significand v) * 2 ^ k < 2 ^ 53"
    and e: "- 1074 \<le> Exponent v" "Exponent v \<le> 971" and f0: "0 < unat (Significand v)"
    and dv: "double_value v = real (unat (Significand v)) * 2 powi Exponent v"
    by metis
  let ?f = "unat (Significand v)" and ?c = "LowerBoundaryIsCloser v"
  have f53: "?f < 2 ^ 53"
    using f by (rule le_less_trans [rotated]) simp
  have closer: "?f = 2 ^ 52" if ?c
    using that dbl.closer [OF fin] dbl.significand [OF fin] by (simp add: enc_sig_def enc_exp_def split: if_splits)
  define lo where "lo = double_value v - (if ?c then 2 powi Exponent v / 4 else 2 powi Exponent v / 2)"
  define hi where "hi = double_value v + 2 powi Exponent v / 2"
  have width: "2 * real ?f + 1 < 10 ^ 16 * (if ?c then 3 / 2 else 2)"
  proof -
    have "real ?f < 2 ^ 53"
      using f53 by (metis of_nat_less_iff of_nat_numeral of_nat_power)
    moreover have "real ?f = 2 ^ 52" if ?c
      using closer [OF that] by simp
    ultimately show ?thesis
      by auto
  qed
  have "1 * 2 powi Exponent v \<le> real ?f * 2 powi Exponent v"
    using f0 by (intro mult_right_mono) simp_all
  moreover have "0 < (2 :: real) powi Exponent v"
    by simp
  ultimately have lo0: "0 < lo"
    by (auto simp: lo_def dv)
  have reads: "double_nearest x v \<longleftrightarrow> in_bounds (even ?f) lo hi x" for x
    unfolding double_nearest_iff [OF v(2)] lo_def hi_def dv by (rule dbl.nearest_boundaries [OF fin v(1)]) simp
  have checks: "double_less 0 v" "\<not> IsSpecial v"
    using positive_double_iff [of v] v by blast+
  have "wp (shortest_tail (Significand v) (Exponent v) ?c buffer) (\<lambda>(b, len, pt).
      shortest_result (even ?f) lo (double_value v) hi pt (length buffer) b len \<and> len \<le> Suc 16 \<and>
      upper_at (even ?f) pt hi \<and> b ! len = char_at 0)"
    by (rule shortest_tail_wp [OF f0 f53 e dv lo_def hi_def width]) (use room in simp)
  then show ?thesis
    unfolding BignumDtoa_shortest_mode wp_simps
    using checks shortest_result_decimal [OF _ _ lo0 reads]
    by (auto simp: shortest_result_def Let_def Suc_le_eq elim!: wp_mono)
qed

section \<open>The mode for floats\<close>

lemma single_of_double_finite:
  assumes "unat d < kInfinityBits" and "enc_val 52 (unat d) = enc_val 23 (unat w) * 2 ^ 925" and "unat w < 255 * 2 ^ 23"
  shows "single_of_double d = w"
proof -
  have d: "double_finite_pos d"
    using assms(1) by (simp add: double_finite_pos_iff kInfinityBits_def)
  then have "\<not> IsNan d" "\<not> double_neg d"
    by (auto simp: double_finite_pos_def IsSpecial_def IsNan_def double_neg_def)
  moreover have "double_magnitude d = enc_val 23 (unat w) * 2 ^ 925"
    using assms(1,2) by (simp add: double_magnitude_def kInfinityBits_def)
  moreover have "round_enc 23 (enc_val 23 (unat w) * 2 ^ 925) (2 ^ 925) = unat w"
    by (rule round_enc_exact) simp_all
  moreover have "min (unat w) (255 * 2 ^ 23) = unat w"
    using assms(3) by simp
  moreover have "(word_of_nat (unat w) :: single_bits) = w"
    by (simp add: of_nat_unat)
  ultimately show ?thesis
    unfolding single_of_double_def Let_def by (simp only: if_False)
qed

lemma double_of_single_finite:
  assumes "single_finite_pos w" and "enc_val 52 k = enc_val 23 (unat w) * 2 ^ 925" and "k < kInfinityBits"
  shows "unat (double_of_single w) = k"
proof -
  have w: "unat w < 2 ^ 31" "\<not> Single_IsNan w" "\<not> Single_IsInfinite w" "\<not> Single_Sign w < 0"
    using assms(1) single_fields(3) [of w]
    by (auto simp: single_finite_pos_def Single_IsSpecial_def Single_IsNan_def Single_IsInfinite_def)
  have "round_enc 52 (enc_val 52 k * 1) 1 = k"
    by (rule round_enc_exact) simp_all
  moreover have "enc_val 23 (unat w mod 2 ^ 31) * 2 ^ 925 = enc_val 52 k * 1"
    unfolding assms(2) using w(1) by simp
  moreover have "min k kInfinityBits = k"
    using assms(3) by simp
  ultimately have "double_of_single w = word_of_nat k"
    unfolding double_of_single_def double_of_ratio_def Let_def by (simp only: w(2-4) if_False)
  then show ?thesis
    using capped_word [OF less_imp_le [OF assms(3)]] by simp
qed

lemma single_as_double:
  assumes "0 < unat w" and "single_finite_pos w"
  shows "single_of_double (double_of_single w) = w" and "0 < unat (double_of_single w)"
    and "unat (double_of_single w) < kInfinityBits" and "double_value (double_of_single w) = single_value w"
proof -
  have w: "unat w < 255 * 2 ^ 23"
    using assms(2) by (simp add: single_finite_pos_iff)
  define n where "n = enc_val 23 (unat w) * 2 ^ 925"
  have sig: "enc_sig 23 (unat w) < 2 ^ 24"
    using enc_sig_less [of 23 "unat w"] by simp
  have w_exp: "enc_exp 23 (unat w) \<le> 253"
  proof -
    have "unat w div 2 ^ 23 < 255"
      using w by (simp add: less_mult_imp_div_less)
    then show ?thesis
      by (simp add: enc_exp_def)
  qed
  obtain k where k: "enc_val 52 k = n"
    using enc_val_representable [of "enc_sig 23 (unat w)" 52 "enc_exp 23 (unat w) + 925"] sig
    by (auto simp: n_def enc_val_def power_add mult.assoc)
  have "n = enc_sig 23 (unat w) * 2 ^ (enc_exp 23 (unat w) + 925)"
    by (simp add: n_def enc_val_def power_add)
  also have "\<dots> \<le> 2 ^ 24 * 2 ^ (253 + 925)"
    using sig w_exp by (intro mult_mono power_increasing) simp_all
  also have "\<dots> < enc_val 52 kInfinityBits"
    unfolding enc_val_infinity power_add [symmetric] by (rule power_strict_increasing) simp_all
  finally have k_less: "k < kInfinityBits"
    by (simp only: enc_val_less_iff flip: k)
  have u: "unat (double_of_single w) = k"
    by (rule double_of_single_finite [OF assms(2)]) (use k k_less in \<open>simp_all add: n_def\<close>)
  show "single_of_double (double_of_single w) = w"
    by (rule single_of_double_finite) (use u k k_less w in \<open>simp_all add: n_def\<close>)
  have "0 < n"
    using assms(1) enc_val_less_iff [of 23 0 "unat w"] by (simp add: n_def)
  then show "0 < unat (double_of_single w)" "unat (double_of_single w) < kInfinityBits"
    using k k_less u by (auto intro: gr0I)
  have "double_value (double_of_single w) = real n * 2 powi (- 1074)"
    using k_less by (simp add: double_value_def u double_fields k enc_real_def kDenormalExponent_eq kInfinityBits_def)
  also have "\<dots> = single_value w"
    using assms(2) by (simp add: single_value_def single_finite_pos_def enc_real_def n_def single_consts power_int_minus)
  finally show "double_value (double_of_single w) = single_value w" .
qed

theorem BignumDtoa_shortest_single_wp:
  assumes w: "0 < unat w" "single_finite_pos w" and room: "9 < length buffer"
  shows "wp (BignumDtoa (double_of_single w) BIGNUM_DTOA_SHORTEST_SINGLE r buffer) (\<lambda>(b, len, pt). 1 \<le> len \<and> len \<le> 9 \<and>
    length b = length buffer \<and> digits_in b 0 len \<and> b ! 0 \<noteq> CHR ''0'' \<and> b ! len = char_at 0 \<and>
    shortest_decimal (\<lambda>x. single_nearest x w) (single_value w) (take len b) pt)"
proof -
  let ?f = "unat (Single_Significand w)" and ?e = "Single_Exponent w" and ?c = "Single_LowerBoundaryIsCloser w"
  note same = single_as_double [OF w]
  have bits: "unat w < 255 * 2 ^ 23"
    using w(2) by (simp add: single_finite_pos_iff)
  have uf: "unat (ucast (Single_Significand w) :: u64) = ?f"
    by (simp add: nat_words)
  have sig: "?f = enc_sig 23 (unat w)" "?f < 2 ^ 24"
    using sgl.significand [OF w(2)] enc_sig_less [of 23 "unat w"] by simp_all
  have f0: "0 < ?f"
    using sig(1) sig_positive [OF w(1), of 23] by simp
  have "unat w div 2 ^ 23 < 255"
    using bits by (simp add: less_mult_imp_div_less)
  then have e: "- 1074 \<le> ?e" "?e \<le> 971"
    using sgl.expo [OF w(2)] by (simp_all add: single_consts enc_exp_def)
  have v: "single_value w = real (unat (ucast (Single_Significand w) :: u64)) * 2 powi ?e"
    using w(2) sgl.value_eq [OF w(2)] by (simp add: uf single_value_def single_finite_pos_def)
  have closer: "?f = 2 ^ 23" if ?c
    using that sgl.closer [OF w(2)] sig(1) by (simp add: enc_sig_def enc_exp_def split: if_splits)
  define lo where "lo = single_value w - (if ?c then 2 powi ?e / 4 else 2 powi ?e / 2)"
  define hi where "hi = single_value w + 2 powi ?e / 2"
  have width: "2 * real (unat (ucast (Single_Significand w) :: u64)) + 1 < 10 ^ 8 * (if ?c then 3 / 2 else 2)"
  proof -
    have "real ?f < 2 ^ 24"
      using sig(2) by (metis of_nat_less_iff of_nat_numeral of_nat_power)
    then show ?thesis
      unfolding uf by auto
  qed
  have "1 * 2 powi ?e \<le> real ?f * 2 powi ?e"
    using f0 by (intro mult_right_mono) simp_all
  moreover have "0 < (2 :: real) powi ?e"
    by simp
  ultimately have lo0: "0 < lo"
    by (auto simp: lo_def v uf)
  have reads: "single_nearest x w \<longleftrightarrow> in_bounds (even ?f) lo hi x" for x
    unfolding single_nearest_def lo_def hi_def v uf by (rule sgl.nearest_boundaries [OF w(2,1)]) simp
  have checks: "double_less 0 (double_of_single w)" "\<not> IsSpecial (double_of_single w)"
    using positive_double_iff [of "double_of_single w"] same(2,3) by blast+
  then have eq: "double_equal (double_of_single w) (double_of_single w)"
    by (auto simp: double_equal_def IsNan_def IsSpecial_def)
  have "wp (shortest_tail (ucast (Single_Significand w)) ?e ?c buffer) (\<lambda>(b, len, pt).
      shortest_result (even (unat (ucast (Single_Significand w) :: u64))) lo (single_value w) hi pt (length buffer) b len \<and> len \<le> Suc 8 \<and>
      upper_at (even (unat (ucast (Single_Significand w) :: u64))) pt hi \<and> b ! len = char_at 0)"
    by (rule shortest_tail_wp [OF _ _ e v lo_def hi_def width]) (use f0 sig(2) uf room in simp_all)
  then show ?thesis
    unfolding BignumDtoa_shortest_mode wp_simps same(1) uf Let_def
    using checks eq shortest_result_decimal [OF _ _ lo0 reads]
    by (auto simp: shortest_result_def Let_def Suc_le_eq elim!: wp_mono)
qed

end
