(* ===== verification/Cached_Powers.thy ===== *)
theory Cached_Powers
  imports Diy_Fp Power_Estimate "HOL-Library.Signed_Division"
begin

unbundle bit_operations_syntax

text \<open>
  \<open>cached-powers.cc\<close>: the table of 64 bit approximations of every eighth power of ten from
  \<open>10 ^ -348\<close> to \<open>10 ^ 340\<close>, and the two searches in it.  Every entry is the power of ten rounded
  to the nearest 64 bit significand; the search by binary exponent uses the double operations of
  \<open>Double_Arith\<close>.
\<close>

record cached_power =
  cp_significand :: u64
  cp_binary_exponent :: int
  cp_decimal_exponent :: int

definition cached :: "u64 \<Rightarrow> int \<Rightarrow> int \<Rightarrow> cached_power" where
  "cached s b d = \<lparr>cp_significand = s, cp_binary_exponent = b, cp_decimal_exponent = d\<rparr>"

definition kCachedPowers :: "cached_power list" where
  "kCachedPowers =
    [cached 0xFA8FD5A0081C0288 (- 1220) (- 348),
     cached 0xBAAEE17FA23EBF76 (- 1193) (- 340),
     cached 0x8B16FB203055AC76 (- 1166) (- 332),
     cached 0xCF42894A5DCE35EA (- 1140) (- 324),
     cached 0x9A6BB0AA55653B2D (- 1113) (- 316),
     cached 0xE61ACF033D1A45DF (- 1087) (- 308),
     cached 0xAB70FE17C79AC6CA (- 1060) (- 300),
     cached 0xFF77B1FCBEBCDC4F (- 1034) (- 292),
     cached 0xBE5691EF416BD60C (- 1007) (- 284),
     cached 0x8DD01FAD907FFC3C (- 980) (- 276),
     cached 0xD3515C2831559A83 (- 954) (- 268),
     cached 0x9D71AC8FADA6C9B5 (- 927) (- 260),
     cached 0xEA9C227723EE8BCB (- 901) (- 252),
     cached 0xAECC49914078536D (- 874) (- 244),
     cached 0x823C12795DB6CE57 (- 847) (- 236),
     cached 0xC21094364DFB5637 (- 821) (- 228),
     cached 0x9096EA6F3848984F (- 794) (- 220),
     cached 0xD77485CB25823AC7 (- 768) (- 212),
     cached 0xA086CFCD97BF97F4 (- 741) (- 204),
     cached 0xEF340A98172AACE5 (- 715) (- 196),
     cached 0xB23867FB2A35B28E (- 688) (- 188),
     cached 0x84C8D4DFD2C63F3B (- 661) (- 180),
     cached 0xC5DD44271AD3CDBA (- 635) (- 172),
     cached 0x936B9FCEBB25C996 (- 608) (- 164),
     cached 0xDBAC6C247D62A584 (- 582) (- 156),
     cached 0xA3AB66580D5FDAF6 (- 555) (- 148),
     cached 0xF3E2F893DEC3F126 (- 529) (- 140),
     cached 0xB5B5ADA8AAFF80B8 (- 502) (- 132),
     cached 0x87625F056C7C4A8B (- 475) (- 124),
     cached 0xC9BCFF6034C13053 (- 449) (- 116),
     cached 0x964E858C91BA2655 (- 422) (- 108),
     cached 0xDFF9772470297EBD (- 396) (- 100),
     cached 0xA6DFBD9FB8E5B88F (- 369) (- 92),
     cached 0xF8A95FCF88747D94 (- 343) (- 84),
     cached 0xB94470938FA89BCF (- 316) (- 76),
     cached 0x8A08F0F8BF0F156B (- 289) (- 68),
     cached 0xCDB02555653131B6 (- 263) (- 60),
     cached 0x993FE2C6D07B7FAC (- 236) (- 52),
     cached 0xE45C10C42A2B3B06 (- 210) (- 44),
     cached 0xAA242499697392D3 (- 183) (- 36),
     cached 0xFD87B5F28300CA0E (- 157) (- 28),
     cached 0xBCE5086492111AEB (- 130) (- 20),
     cached 0x8CBCCC096F5088CC (- 103) (- 12),
     cached 0xD1B71758E219652C (- 77) (- 4),
     cached 0x9C40000000000000 (- 50) 4,
     cached 0xE8D4A51000000000 (- 24) 12,
     cached 0xAD78EBC5AC620000 3 20,
     cached 0x813F3978F8940984 30 28,
     cached 0xC097CE7BC90715B3 56 36,
     cached 0x8F7E32CE7BEA5C70 83 44,
     cached 0xD5D238A4ABE98068 109 52,
     cached 0x9F4F2726179A2245 136 60,
     cached 0xED63A231D4C4FB27 162 68,
     cached 0xB0DE65388CC8ADA8 189 76,
     cached 0x83C7088E1AAB65DB 216 84,
     cached 0xC45D1DF942711D9A 242 92,
     cached 0x924D692CA61BE758 269 100,
     cached 0xDA01EE641A708DEA 295 108,
     cached 0xA26DA3999AEF774A 322 116,
     cached 0xF209787BB47D6B85 348 124,
     cached 0xB454E4A179DD1877 375 132,
     cached 0x865B86925B9BC5C2 402 140,
     cached 0xC83553C5C8965D3D 428 148,
     cached 0x952AB45CFA97A0B3 455 156,
     cached 0xDE469FBD99A05FE3 481 164,
     cached 0xA59BC234DB398C25 508 172,
     cached 0xF6C69A72A3989F5C 534 180,
     cached 0xB7DCBF5354E9BECE 561 188,
     cached 0x88FCF317F22241E2 588 196,
     cached 0xCC20CE9BD35C78A5 614 204,
     cached 0x98165AF37B2153DF 641 212,
     cached 0xE2A0B5DC971F303A 667 220,
     cached 0xA8D9D1535CE3B396 694 228,
     cached 0xFB9B7CD9A4A7443C 720 236,
     cached 0xBB764C4CA7A44410 747 244,
     cached 0x8BAB8EEFB6409C1A 774 252,
     cached 0xD01FEF10A657842C 800 260,
     cached 0x9B10A4E5E9913129 827 268,
     cached 0xE7109BFBA19C0C9D 853 276,
     cached 0xAC2820D9623BF429 880 284,
     cached 0x80444B5E7AA7CF85 907 292,
     cached 0xBF21E44003ACDD2D 933 300,
     cached 0x8E679C2F5E44FF8F 960 308,
     cached 0xD433179D9C8CB841 986 316,
     cached 0x9E19DB92B4E31BA9 1013 324,
     cached 0xEB96BF6EBADF77D9 1039 332,
     cached 0xAF87023B9BF0EE6B 1066 340]"

definition kCachedPowersLength :: nat where "kCachedPowersLength = length kCachedPowers"
definition kCachedPowersOffset :: int where "kCachedPowersOffset = 348"
definition kD_1_LOG2_10 :: double_bits where "kD_1_LOG2_10 = 0x3FD34413509F79FE"
definition kDecimalExponentDistance :: int where "kDecimalExponentDistance = 8"
definition kMinDecimalExponent :: int where "kMinDecimalExponent = - 348"
definition kMaxDecimalExponent :: int where "kMaxDecimalExponent = 340"

definition GetCachedPowerForBinaryExponentRange :: "int \<Rightarrow> int \<Rightarrow> (diy_fp \<times> int) option" where
  "GetCachedPowerForBinaryExponentRange min_exponent max_exponent = do {
     let kQ = kDiyFpSignificandSize;
     let k = double_mult (double_of_int (min_exponent + kQ - 1)) kD_1_LOG2_10;
     let foo = kCachedPowersOffset;
     let index = (foo + double_ceil_int k - 1) sdiv kDecimalExponentDistance + 1;
     ASSERT (0 \<le> index \<and> index < int kCachedPowersLength);
     cached_power \<leftarrow> rd kCachedPowers (nat index);
     ASSERT (min_exponent \<le> cp_binary_exponent cached_power);
     ASSERT (cp_binary_exponent cached_power \<le> max_exponent);
     Some (DiyFp (cp_significand cached_power) (cp_binary_exponent cached_power), cp_decimal_exponent cached_power) }"

definition GetCachedPowerForDecimalExponent :: "int \<Rightarrow> (diy_fp \<times> int) option" where
  "GetCachedPowerForDecimalExponent requested_exponent = do {
     ASSERT (kMinDecimalExponent \<le> requested_exponent);
     ASSERT (requested_exponent < kMaxDecimalExponent + kDecimalExponentDistance);
     let index = (requested_exponent + kCachedPowersOffset) sdiv kDecimalExponentDistance;
     cached_power \<leftarrow> rd kCachedPowers (nat index);
     let found_exponent = cp_decimal_exponent cached_power;
     ASSERT (found_exponent \<le> requested_exponent);
     ASSERT (requested_exponent < found_exponent + kDecimalExponentDistance);
     Some (DiyFp (cp_significand cached_power) (cp_binary_exponent cached_power), found_exponent) }"

end
