(* ===== verification/Cached_Accuracy.thy ===== *)
theory Cached_Accuracy
  imports Cached_Powers
begin

unbundle bit_operations_syntax

declare of_nat_unat [simp del]

text \<open>
  The table of \<open>cached-powers.cc\<close> is accurate: every entry is a normalized significand that is off
  from its power of ten by at most half a unit in the last place, and the search by decimal
  exponent finds the entry at most seven below the requested exponent.
\<close>

section \<open>A walk through the powers of ten\<close>

text \<open>
  \<open>L * 2 ^ e\<close> and \<open>(L + w) * 2 ^ e\<close> enclose \<open>10 ^ n\<close>; the next power is \<open>10 ^ (n + 8)\<close>.
\<close>

fun walk :: "(nat \<Rightarrow> nat \<Rightarrow> int \<Rightarrow> cached_power \<Rightarrow> bool) \<Rightarrow> nat \<Rightarrow> nat \<Rightarrow> int \<Rightarrow> cached_power list \<Rightarrow> bool" where
  "walk P L w e [] \<longleftrightarrow> True"
| "walk P L w e (c # cs) \<longleftrightarrow> P L w e c \<and> walk P (L * 100000000 div 134217728) (w * 100000000 div 134217728 + 2) (e + 27) cs"

definition above_one :: "nat \<Rightarrow> nat \<Rightarrow> int \<Rightarrow> cached_power \<Rightarrow> bool" where
  "above_one L w e c \<longleftrightarrow> (let f = unat (cp_significand c); i = cp_binary_exponent c - e; k = nat i in
    0 \<le> i \<and> 2 ^ 63 \<le> f \<and> 2 * f * 2 ^ k \<le> 2 * L + 2 ^ k \<and> 2 * (L + w) \<le> 2 * f * 2 ^ k + 2 ^ k)"

definition below_one :: "nat \<Rightarrow> nat \<Rightarrow> int \<Rightarrow> cached_power \<Rightarrow> bool" where
  "below_one L w e c \<longleftrightarrow> (let f = unat (cp_significand c); i = 1 - cp_binary_exponent c - e; k = nat i in
    0 \<le> i \<and> 2 ^ 63 \<le> f \<and> (2 * f - 1) * (L + w) \<le> 2 ^ k \<and> 2 ^ k \<le> (2 * f + 1) * L)"

lemma walk_above: "walk above_one (10000 * 2 ^ 100) 0 (- 100) (drop 44 kCachedPowers)"
  by (simp add: kCachedPowers_def cached_def above_one_def)

lemma walk_below: "walk below_one (10000 * 2 ^ 100) 0 (- 100) (rev (take 44 kCachedPowers))"
  by (simp add: kCachedPowers_def cached_def below_one_def)

definition encloses :: "nat \<Rightarrow> nat \<Rightarrow> int \<Rightarrow> real \<Rightarrow> bool" where
  "encloses L w e x \<longleftrightarrow> real L * 2 powi e \<le> x \<and> x \<le> real (L + w) * 2 powi e"

lemma div_enclosed: "0 < d \<Longrightarrow> real (n div d) * real d \<le> real n" "0 < d \<Longrightarrow> real n \<le> real (n div d + 1) * real d"
proof -
  assume "0 < d"
  then have "n div d * d \<le> n" "n \<le> (n div d + 1) * d"
    using dividend_less_div_times [of d n] by (simp_all add: algebra_simps)
  then show "real (n div d) * real d \<le> real n" "real n \<le> real (n div d + 1) * real d"
    by (metis of_nat_le_iff of_nat_mult)+
qed

lemma encloses_next:
  assumes "encloses L w e x"
  shows "encloses (L * 100000000 div 134217728) (w * 100000000 div 134217728 + 2) (e + 27) (x * 10 ^ 8)"
proof -
  let ?a = "L * 100000000 div 134217728" and ?b = "w * 100000000 div 134217728"
  have two: "(2 :: real) powi (e + 27) = 134217728 * 2 powi e"
    by (simp add: power_int_add)
  have pos: "0 \<le> (2 :: real) powi e"
    by simp
  have L: "real ?a * 134217728 \<le> real L * 10 ^ 8" "real L * 10 ^ 8 \<le> (real ?a + 1) * 134217728"
    using div_enclosed [of 134217728 "L * 100000000"] by simp_all
  have w: "real w * 10 ^ 8 \<le> (real ?b + 1) * 134217728"
    using div_enclosed(2) [of 134217728 "w * 100000000"] by simp
  have "real ?a * 2 powi (e + 27) \<le> real L * 10 ^ 8 * 2 powi e"
    using mult_right_mono [OF L(1) pos] by (simp add: two mult.assoc)
  also have "\<dots> \<le> x * 10 ^ 8"
    using assms by (simp add: encloses_def)
  finally have 1: "real ?a * 2 powi (e + 27) \<le> x * 10 ^ 8" .
  have "x * 10 ^ 8 \<le> (real L * 10 ^ 8 + real w * 10 ^ 8) * 2 powi e"
    using assms by (simp add: encloses_def algebra_simps)
  also have "\<dots> \<le> ((real ?a + 1) * 134217728 + (real ?b + 1) * 134217728) * 2 powi e"
    by (rule mult_right_mono [OF add_mono [OF L(2) w] pos])
  also have "\<dots> = real (?a + (?b + 2)) * 2 powi (e + 27)"
    by (simp add: two algebra_simps)
  finally show ?thesis
    using 1 by (simp add: encloses_def)
qed

lemma walk_entry:
  assumes "walk P L w e cs" and "encloses L w e x" and "i < length cs"
  shows "\<exists>L w e. P L w e (cs ! i) \<and> encloses L w e (x * 10 ^ (8 * i))"
  using assms
proof (induction P L w e cs arbitrary: x i rule: walk.induct)
  case (2 P L w e c cs)
  show ?case
  proof (cases i)
    case (Suc j)
    then show ?thesis
      using 2(1) [OF _ encloses_next [OF 2(3)], of j] 2(2,4) by (auto simp: power_add mult.assoc)
  qed (use 2 in auto)
qed simp

section \<open>The accuracy of an entry\<close>

definition accurate :: "cached_power \<Rightarrow> real \<Rightarrow> bool" where
  "accurate c x \<longleftrightarrow> 2 ^ 63 \<le> unat (cp_significand c) \<and>
    \<bar>real (unat (cp_significand c)) * 2 powi cp_binary_exponent c - x\<bar> \<le> 2 powi cp_binary_exponent c / 2"

lemma above_one_accurate:
  assumes "above_one L w e c" and "encloses L w e x"
  shows "accurate c x"
proof -
  define f where "f = unat (cp_significand c)"
  define k where "k = nat (cp_binary_exponent c - e)"
  have b: "cp_binary_exponent c = e + int k" "2 ^ 63 \<le> f"
    and n: "2 * f * 2 ^ k \<le> 2 * L + 2 ^ k" "2 * (L + w) \<le> 2 * f * 2 ^ k + 2 ^ k"
    using assms(1) by (simp_all add: above_one_def Let_def f_def k_def)
  have r: "2 * real f * 2 ^ k \<le> 2 * real L + 2 ^ k" "2 * real (L + w) \<le> 2 * real f * 2 ^ k + 2 ^ k"
    using n [THEN of_nat_le_iff [where 'a = real, THEN iffD2]] by simp_all
  let ?t = "(2 :: real) powi e"
  have B: "(2 :: real) powi (e + int k) = 2 ^ k * ?t"
    by (simp add: power_int_add mult.commute)
  have "2 * real f * 2 ^ k * ?t \<le> (2 * real L + 2 ^ k) * ?t" "2 * real (L + w) * ?t \<le> (2 * real f * 2 ^ k + 2 ^ k) * ?t"
    using r by (intro mult_right_mono; simp)+
  then have "2 * (real f * (2 ^ k * ?t)) \<le> 2 * (real L * ?t) + 2 ^ k * ?t"
    "2 * (real (L + w) * ?t) \<le> 2 * (real f * (2 ^ k * ?t)) + 2 ^ k * ?t"
    by (simp_all only: distrib_right mult.assoc)
  moreover have "real L * ?t \<le> x" "x \<le> real (L + w) * ?t"
    using assms(2) by (simp_all add: encloses_def)
  ultimately have "\<bar>real f * (2 ^ k * ?t) - x\<bar> \<le> (2 ^ k * ?t) / 2"
    by linarith
  then show ?thesis
    using b unfolding accurate_def f_def [symmetric] b B by simp
qed

lemma below_one_accurate:
  assumes "below_one L w e c" and "encloses L w e x" and "0 < x"
  shows "accurate c (1 / x)"
proof -
  define f where "f = unat (cp_significand c)"
  define b where "b = cp_binary_exponent c"
  define k where "k = nat (1 - b - e)"
  have e: "1 - b = e + int k" "2 ^ 63 \<le> f"
    and n: "(2 * f - 1) * (L + w) \<le> 2 ^ k" "2 ^ k \<le> (2 * f + 1) * L"
    using assms(1) by (simp_all add: below_one_def Let_def f_def k_def b_def)
  have "1 \<le> 2 * f"
    using e(2) by simp
  then have f: "real (2 * f - 1) = 2 * real f - 1"
    by (simp add: of_nat_diff)
  have r: "(2 * real f - 1) * real (L + w) \<le> 2 ^ k" "2 ^ k \<le> (2 * real f + 1) * real L"
    using n [THEN of_nat_le_iff [where 'a = real, THEN iffD2]] unfolding of_nat_mult f by (simp_all add: add.commute)
  have t: "(2 :: real) powi (1 - b) = 2 ^ k * 2 powi e"
    unfolding e by (simp add: power_int_add mult.commute)
  have x: "real L * 2 powi e \<le> x" "x \<le> real (L + w) * 2 powi e"
    using assms(2) by (simp_all add: encloses_def)
  have "(2 * real f - 1) * x \<le> (2 * real f - 1) * (real (L + w) * 2 powi e)"
    using x(2) \<open>1 \<le> 2 * f\<close> by (intro mult_left_mono) simp_all
  also have "\<dots> \<le> 2 powi (1 - b)"
    unfolding t using mult_right_mono [OF r(1), of "2 powi e"] by (simp add: mult.assoc)
  finally have 1: "(2 * real f - 1) * x \<le> 2 powi (1 - b)" .
  have "2 powi (1 - b) \<le> (2 * real f + 1) * (real L * 2 powi e)"
    unfolding t using mult_right_mono [OF r(2), of "2 powi e"] by (simp add: mult.assoc)
  also have "\<dots> \<le> (2 * real f + 1) * x"
    using x(1) by (intro mult_left_mono) simp_all
  finally have 2: "2 powi (1 - b) \<le> (2 * real f + 1) * x" .
  have two: "(2 :: real) powi (1 - b) = 2 / 2 powi b"
    by (simp add: power_int_diff)
  have "(2 * real f - 1) * 2 powi b \<le> 2 / x" "2 / x \<le> (2 * real f + 1) * 2 powi b"
    using 1 2 assms(3) unfolding two by (simp_all add: field_simps)
  then have "2 * (real f * 2 powi b) - 2 powi b \<le> 2 * (1 / x)" "2 * (1 / x) \<le> 2 * (real f * 2 powi b) + 2 powi b"
    by (simp_all add: algebra_simps)
  then have "\<bar>real f * 2 powi b - 1 / x\<bar> \<le> 2 powi b / 2"
    by linarith
  then show ?thesis
    using e(2) unfolding accurate_def f_def [symmetric] b_def [symmetric] by simp
qed

section \<open>The searches\<close>

lemma kCachedPowers_length: "length kCachedPowers = 87"
  by (simp add: kCachedPowers_def)

lemma ten_powi_split: "0 \<le> a \<Longrightarrow> (10 :: real) powi (a + 8 * int i) = 10 ^ nat a * 10 ^ (8 * i)"
  by (simp add: power_int_def nat_add_distrib nat_mult_distrib power_add)

theorem cached_power_accurate:
  assumes "j < 87"
  shows "accurate (kCachedPowers ! j) (10 powi (8 * int j - 348))"
proof -
  have start: "encloses (10000 * 2 ^ 100) 0 (- 100) (10 ^ 4)"
    by (simp add: encloses_def power_int_minus)
  show ?thesis
  proof (cases "44 \<le> j")
    case True
    then have "j - 44 < 43"
      using assms by simp
    with True obtain L w e where "above_one L w e (drop 44 kCachedPowers ! (j - 44))" "encloses L w e (10 ^ 4 * 10 ^ (8 * (j - 44)))"
      using walk_entry [OF walk_above start, of "j - 44"] by (auto simp: kCachedPowers_length)
    moreover have "(10 :: real) ^ 4 * 10 ^ (8 * (j - 44)) = 10 powi (8 * int j - 348)"
      using True ten_powi_split [of 4 "j - 44"] by (simp add: of_nat_diff)
    ultimately show ?thesis
      using above_one_accurate True assms by (simp add: kCachedPowers_length)
  next
    case False
    then have "43 - j < 44"
      by simp
    then obtain L w e where w: "below_one L w e (rev (take 44 kCachedPowers) ! (43 - j))" "encloses L w e (10 ^ 4 * 10 ^ (8 * (43 - j)))"
      using walk_entry [OF walk_below start, of "43 - j"] by (auto simp: kCachedPowers_length)
    have "(10 :: real) ^ 4 * 10 ^ (8 * (43 - j)) = 10 powi (- (8 * int j - 348))"
      using False ten_powi_split [of 4 "43 - j"] by (simp add: of_nat_diff)
    then have "1 / (10 ^ 4 * 10 ^ (8 * (43 - j))) = (10 :: real) powi (8 * int j - 348)"
      by (simp only: power_int_minus) (simp add: field_simps)
    moreover have "rev (take 44 kCachedPowers) ! (43 - j) = kCachedPowers ! j"
      using False by (simp add: rev_nth kCachedPowers_length)
    ultimately show ?thesis
      using below_one_accurate [OF w] by simp
  qed
qed

lemma cached_decimal_exponent: "j < 87 \<Longrightarrow> cp_decimal_exponent (kCachedPowers ! j) = 8 * int j - 348"
proof -
  have "map cp_decimal_exponent kCachedPowers = map (\<lambda>j. 8 * int j - 348) [0..<87]"
    by (simp add: kCachedPowers_def cached_def upt_rec)
  then show "cp_decimal_exponent (kCachedPowers ! j) = 8 * int j - 348" if "j < 87"
    using that nth_map [of j kCachedPowers cp_decimal_exponent] by (simp add: kCachedPowers_length)
qed

theorem GetCachedPowerForDecimalExponent_wp:
  assumes "- 348 \<le> e" and "e < 348"
  shows "wp (GetCachedPowerForDecimalExponent e) (\<lambda>(p, d). d \<le> e \<and> e < d + 8 \<and> 2 ^ 63 \<le> unat (dfp_f p) \<and>
    \<bar>diy_value p - 10 powi d\<bar> \<le> 2 powi dfp_e p / 2)"
proof -
  define j where "j = nat ((e + 348) div 8)"
  have j: "int j = (e + 348) div 8" "j < 87"
    using assms by (simp_all add: j_def nat_less_iff)
  have "(e + kCachedPowersOffset) sdiv kDecimalExponentDistance = int j"
    using assms by (auto simp: kCachedPowersOffset_def kDecimalExponentDistance_def j(1) signed_divide_int_def sgn_if)
  moreover have "8 * int j - 348 \<le> e" "e < 8 * int j - 348 + 8"
    unfolding j(1) by simp_all
  moreover have "accurate (kCachedPowers ! j) (10 powi (8 * int j - 348))"
    by (rule cached_power_accurate [OF j(2)])
  ultimately show ?thesis
    using assms j(2) cached_decimal_exponent [OF j(2)]
    by (simp add: GetCachedPowerForDecimalExponent_def Let_def wp_simps kMinDecimalExponent_def kMaxDecimalExponent_def
        kDecimalExponentDistance_def kCachedPowers_length accurate_def)
qed

end
