(* ===== verification/Cached_Range.thy ===== *)
theory Cached_Range
  imports Power_Estimate Cached_Accuracy
begin

unbundle bit_operations_syntax

declare of_nat_unat [simp del]

text \<open>
  \<open>GetCachedPowerForBinaryExponentRange\<close> of \<open>cached-powers.cc\<close>, the search that Grisu uses: the
  index comes from one double product and \<open>ceil\<close>, and for every exponent of a normalised double the
  power at that index has a binary exponent in the range asked for.
\<close>

section \<open>The index\<close>

lemma between_fractions_slack:
  fixes m x :: int
  assumes "m * 2 ^ 54 \<le> x * 5422874305198590 + 2 ^ 11" and "\<bar>x\<bar> \<le> 1300"
  shows "2136 * m \<le> 643 * x" and "485 * m \<le> 146 * x"
proof -
  have x: "- 1300 \<le> x" "x \<le> 1300"
    using assms(2) by simp_all
  show "2136 * m \<le> 643 * x"
  proof (cases "0 < x")
    case True
    then have "485 * m < 146 * x"
      using assms(1) by simp
    then show ?thesis
      using x by linarith
  next
    case False
    then show ?thesis
      using assms(1) by (cases "x = 0") simp_all
  qed
  show "485 * m \<le> 146 * x"
  proof (cases "x < 0")
    case True
    then have "2136 * m < 643 * x"
      using assms(1) by simp
    then show ?thesis
      using x by linarith
  next
    case False
    then show ?thesis
      using assms(1) by (cases "x = 0") simp_all
  qed
qed

definition range_ceil :: "int \<Rightarrow> int" where
  "range_ceil n = double_ceil_int (double_mult (double_of_int n) kD_1_LOG2_10)"

lemma range_ceil_bounds:
  assumes "\<bar>n\<bar> \<le> 1300" and "c = range_ceil n"
  shows "(c - 1) * 2 ^ 54 \<le> n * 5422874305198590 + 2 ^ 11" and "(- c) * 2 ^ 54 \<le> (- n) * 5422874305198590 + 2 ^ 11"
proof -
  define P where "P = double_mult (double_of_int n) 0x3FD34413509F79FE"
  define U :: int where "U = 2 ^ 988"
  have U: "0 < U"
    unfolding U_def by (rule zero_less_power) simp
  have pow: "(2 :: int) ^ 1020 = 2 ^ 32 * U" "(2 :: int) ^ 1031 = 2 ^ 43 * U" "(2 :: int) ^ 1074 = 2 ^ 86 * U"
    unfolding U_def power_add [symmetric] by (simp_all only: numeral_plus_numeral add_num_simps)
  have c: "c = double_ceil_int P"
    by (simp add: assms(2) range_ceil_def P_def kD_1_LOG2_10_def)
  have p: "\<bar>double_scaled P - n * 5422874305198590 * 2 ^ 32 * U\<bar> \<le> 2 ^ 43 * U"
    using log_product(2) [OF assms(1) P_def] unfolding pow by (simp only: mult.assoc)
  have "(c - 1) * 2 ^ 86 * U < double_scaled P" "double_scaled P \<le> c * 2 ^ 86 * U"
    using double_ceil_int_bounds [OF c] unfolding pow(3) by (simp_all only: mult.assoc)
  with p have "(c - 1) * 2 ^ 86 * U \<le> (n * 5422874305198590 * 2 ^ 32 + 2 ^ 43) * U"
    "(- c) * 2 ^ 86 * U \<le> ((- n) * 5422874305198590 * 2 ^ 32 + 2 ^ 43) * U"
    by (simp_all add: algebra_simps)
  then have "(c - 1) * 2 ^ 86 \<le> n * 5422874305198590 * 2 ^ 32 + 2 ^ 43"
    "(- c) * 2 ^ 86 \<le> (- n) * 5422874305198590 * 2 ^ 32 + 2 ^ 43"
    using U by (simp_all only: mult_le_cancel_right_pos)
  then show "(c - 1) * 2 ^ 54 \<le> n * 5422874305198590 + 2 ^ 11" "(- c) * 2 ^ 54 \<le> (- n) * 5422874305198590 + 2 ^ 11"
    by simp_all
qed

lemma range_power:
  assumes n: "\<bar>n\<bar> \<le> 1300" and c: "c = range_ceil n" and d: "c \<le> d" "d \<le> c + 7"
  shows "(2 :: real) powi n \<le> 10 powi d" and "(10 :: real) powi d \<le> 10 ^ 8 * 2 powi n"
proof -
  note b = range_ceil_bounds [OF n c]
  have "2136 * (- c) \<le> 643 * (- n)" "485 * (- c) \<le> 146 * (- n)"
    by (rule between_fractions_slack [OF b(2)]; use n in simp)+
  then show "(2 :: real) powi n \<le> 10 powi d"
    using d(1) by (intro two_le_ten) linarith+
  have "2136 * (c - 1) \<le> 643 * n" "485 * (c - 1) \<le> 146 * n"
    by (rule between_fractions_slack [OF b(1) n])+
  then have "(10 :: real) powi (c - 1) \<le> 2 powi n"
    by (rule ten_le_two)
  moreover have "(10 :: real) powi d \<le> 10 powi (c - 1 + 8)"
    using d(2) by (intro power_int_increasing) simp_all
  moreover have "(10 :: real) powi (c - 1 + 8) = 100000000 * 10 powi (c - 1)"
    by (subst power_int_add) simp_all
  ultimately have "(10 :: real) powi d \<le> 100000000 * 2 powi n"
    by linarith
  then show "(10 :: real) powi d \<le> 10 ^ 8 * 2 powi n"
    by simp
qed

section \<open>The power found\<close>

lemma two_powi_less: "(2 :: real) powi a < 2 powi b \<Longrightarrow> a < b"
  using power_int_increasing [of b a "2 :: real"] by (cases "b \<le> a") simp_all

lemma accurate_exponent:
  assumes "accurate c x" and "2 powi n \<le> x" and "x \<le> 10 ^ 8 * 2 powi n"
  shows "n - 63 \<le> cp_binary_exponent c" and "cp_binary_exponent c \<le> n - 37"
proof -
  define f b where "f = real (unat (cp_significand c))" and "b = cp_binary_exponent c"
  define B :: real where "B = 2 powi b"
  have B: "0 < B"
    unfolding B_def by (rule zero_less_power_int) simp
  have f: "2 ^ 63 \<le> f" "f < 2 ^ 64"
  proof -
    have "2 ^ 63 \<le> unat (cp_significand c)"
      using assms(1) by (simp add: accurate_def)
    then show "2 ^ 63 \<le> f"
      unfolding f_def by (metis of_nat_le_iff of_nat_numeral of_nat_power)
    have "unat (cp_significand c) < 2 ^ 64"
      by simp
    then show "f < 2 ^ 64"
      unfolding f_def by (metis of_nat_less_iff of_nat_numeral of_nat_power)
  qed
  have a: "\<bar>f * B - x\<bar> \<le> B / 2"
    using assms(1) by (simp add: accurate_def f_def B_def b_def)
  have "unat (cp_significand c) + 1 \<le> 2 ^ 64"
    using unat_lt64 [of "cp_significand c"] by (simp add: Suc_le_eq)
  then have "real (unat (cp_significand c) + 1) \<le> 2 ^ 64"
    by (metis of_nat_le_iff of_nat_numeral of_nat_power)
  then have "(f + 1) * B \<le> 2 ^ 64 * B"
    using B by (intro mult_right_mono) (simp_all add: f_def)
  then have "f * B + B \<le> 2 ^ 64 * B"
    by (simp only: distrib_right mult_1_left)
  then have "x < 2 ^ 64 * B"
    using a B unfolding abs_le_iff by linarith
  then have "2 powi n < 2 ^ 64 * B"
    using assms(2) by linarith
  also have "\<dots> = 2 powi (64 + b)"
    by (simp add: B_def two_powi_add)
  finally have "(2 :: real) powi n < 2 powi (64 + b)" .
  then show "n - 63 \<le> b"
    by (auto dest: two_powi_less)
  have "9223372036854775808 * B \<le> f * B"
    using f B by (intro mult_right_mono) simp_all
  moreover define A :: real where "A = 2 powi n"
  moreover have "0 < A"
    unfolding A_def by (rule zero_less_power_int) simp
  moreover have "f * B \<le> x + B / 2" "x \<le> 100000000 * A"
    using a assms(3) unfolding abs_le_iff by (simp_all add: A_def)
  ultimately have "68719476736 * B < A"
    using B by linarith
  then have less: "2 ^ 36 * B < A"
    by simp
  have "2 ^ 36 * B = 2 powi (36 + b)"
    by (simp add: B_def two_powi_add)
  then have "(2 :: real) powi (36 + b) < 2 powi n"
    using less by (simp add: A_def)
  then show "b \<le> n - 37"
    by (auto dest: two_powi_less)
qed

theorem GetCachedPowerForBinaryExponentRange_wp:
  assumes n: "- 1021 \<le> lo + 63" "lo + 63 \<le> 1076" and hi: "lo + 26 \<le> hi"
  shows "wp (GetCachedPowerForBinaryExponentRange lo hi) (\<lambda>(p, d).
    lo \<le> dfp_e p \<and> dfp_e p \<le> lo + 26 \<and> 2 ^ 63 \<le> unat (dfp_f p) \<and>
    \<bar>diy_value p - 10 powi d\<bar> \<le> 2 powi dfp_e p / 2)"
proof -
  define m c where "m = lo + 63" and "c = range_ceil (lo + 63)"
  have m: "- 1021 \<le> m" "m \<le> 1076" "\<bar>m\<bar> \<le> 1300"
    using n by (simp_all add: m_def)
  note b = range_ceil_bounds [OF m(3), of c, unfolded c_def m_def, OF refl, folded m_def c_def]
  have c: "- 340 \<le> c" "c \<le> 340"
    using b m by simp_all
  define j where "j = nat ((347 + c) div 8 + 1)"
  have j: "j < 87" "int j = (347 + c) div 8 + 1"
    using c by (simp_all add: j_def)
  define d where "d = 8 * int j - 348"
  have d: "c \<le> d" "d \<le> c + 7"
    using j(2) by (simp_all add: d_def)
  have acc: "accurate (kCachedPowers ! j) (10 powi d)"
    unfolding d_def by (rule cached_power_accurate [OF j(1)])
  note r = range_power [OF m(3) _ d, unfolded m_def c_def, OF refl]
  have e: "lo \<le> cp_binary_exponent (kCachedPowers ! j)" "cp_binary_exponent (kCachedPowers ! j) \<le> lo + 26"
    using accurate_exponent [OF acc r] by simp_all
  have "(347 + c) sdiv 8 = (347 + c) div 8"
    using c by (simp add: signed_divide_int_def sgn_if)
  then have "(348 + c - 1) sdiv 8 + 1 = int j"
    using j by simp
  moreover have "double_ceil_int (double_mult (double_of_int (lo + 64 - 1)) kD_1_LOG2_10) = c"
    by (simp add: c_def range_ceil_def add.commute)
  ultimately show ?thesis
    using e hi acc j(1) cached_decimal_exponent [OF j(1)]
    by (simp add: GetCachedPowerForBinaryExponentRange_def Let_def wp_simps kDiyFpSignificandSize_def kCachedPowersOffset_def
        kDecimalExponentDistance_def kCachedPowers_length kCachedPowersLength_def accurate_def diy_value_def d_def)
qed

end
