(* ===== verification/Strtod.thy ===== *)
theory Strtod
  imports Cached_Powers Ieee_Boundaries Bignum_Decimal Bignum_Compare Bignum_Multiply
begin

unbundle bit_operations_syntax

text \<open>
  \<open>strtod.cc\<close>: the double and the float nearest to a decimal number \<open>buffer * 10 ^ exponent\<close>.  A
  guess comes from double arithmetic (short inputs) or from 64 bit arithmetic with an error bound;
  where the guess is not certain, the input is compared exactly with the boundary above the guess.
  The build modelled is one where \<open>DOUBLE_CONVERSION_CORRECT_DOUBLE_OPERATIONS\<close> is defined.
\<close>

definition kMaxExactDoubleIntegerDecimalDigits :: int where "kMaxExactDoubleIntegerDecimalDigits = 15"
definition strtod_kMaxUint64DecimalDigits :: int where "strtod_kMaxUint64DecimalDigits = 19"
definition kMaxDecimalPower :: int where "kMaxDecimalPower = 309"
definition kMinDecimalPower :: int where "kMinDecimalPower = - 324"
definition kMaxUint64 :: u64 where "kMaxUint64 = 0xFFFFFFFFFFFFFFFF"
definition kMaxSignificantDecimalDigits :: nat where "kMaxSignificantDecimalDigits = 780"

definition exact_powers_of_ten :: "double_bits list" where
  "exact_powers_of_ten =
    [0x3FF0000000000000, 0x4024000000000000, 0x4059000000000000, 0x408F400000000000,
     0x40C3880000000000, 0x40F86A0000000000, 0x412E848000000000, 0x416312D000000000,
     0x4197D78400000000, 0x41CDCD6500000000, 0x4202A05F20000000, 0x42374876E8000000,
     0x426D1A94A2000000, 0x42A2309CE5400000, 0x42D6BCC41E900000, 0x430C6BF526340000,
     0x4341C37937E08000, 0x4376345785D8A000, 0x43ABC16D674EC800, 0x43E158E460913D00,
     0x4415AF1D78B58C40, 0x444B1AE4D6E2EF50, 0x4480F0CF064DD592]"

definition kExactPowersOfTenSize :: int where "kExactPowersOfTenSize = int (length exact_powers_of_ten)"

section \<open>Trimming the input\<close>

definition SubVector :: "'a list \<Rightarrow> nat \<Rightarrow> nat \<Rightarrow> 'a list option" where
  "SubVector xs from to = do {
     ASSERT (to \<le> length xs);
     ASSERT (from < to);
     Some (take (to - from) (drop from xs)) }"

primrec TrimLeadingZeros_from :: "nat \<Rightarrow> char list \<Rightarrow> nat \<Rightarrow> char list option" where
  "TrimLeadingZeros_from 0 buffer i = Some []"
| "TrimLeadingZeros_from (Suc n) buffer i = do {
     c \<leftarrow> rd buffer i;
     if c \<noteq> CHR ''0'' then SubVector buffer i (length buffer) else TrimLeadingZeros_from n buffer (i + 1) }"

definition TrimLeadingZeros :: "char list \<Rightarrow> char list option" where
  "TrimLeadingZeros buffer = TrimLeadingZeros_from (length buffer) buffer 0"

primrec TrimTrailingZeros_from :: "nat \<Rightarrow> char list \<Rightarrow> char list option" where
  "TrimTrailingZeros_from 0 buffer = Some []"
| "TrimTrailingZeros_from (Suc i) buffer = do {
     c \<leftarrow> rd buffer i;
     if c \<noteq> CHR ''0'' then SubVector buffer 0 (i + 1) else TrimTrailingZeros_from i buffer }"

definition TrimTrailingZeros :: "char list \<Rightarrow> char list option" where
  "TrimTrailingZeros buffer = TrimTrailingZeros_from (length buffer) buffer"

definition CutToMaxSignificantDigits :: "char list \<Rightarrow> int \<Rightarrow> char list \<Rightarrow> (char list \<times> int) option" where
  "CutToMaxSignificantDigits buffer e significant_buffer = do {
     significant_buffer \<leftarrow> for_up 0 (kMaxSignificantDecimalDigits - 1)
       (\<lambda>i significant_buffer. do { c \<leftarrow> rd buffer i; wr significant_buffer i c }) significant_buffer;
     c \<leftarrow> rd buffer (length buffer - 1);
     ASSERT (c \<noteq> CHR ''0'');
     significant_buffer \<leftarrow> wr significant_buffer (kMaxSignificantDecimalDigits - 1) (CHR ''1'');
     Some (significant_buffer, e + (int (length buffer) - int kMaxSignificantDecimalDigits)) }"

text \<open>The result is \<open>(*trimmed, *updated_exponent)\<close>.\<close>

definition TrimAndCut :: "char list \<Rightarrow> int \<Rightarrow> char list \<Rightarrow> nat \<Rightarrow> (char list \<times> int) option" where
  "TrimAndCut buffer e buffer_copy_space space_size = do {
     left_trimmed \<leftarrow> TrimLeadingZeros buffer;
     right_trimmed \<leftarrow> TrimTrailingZeros left_trimmed;
     let e = e + (int (length left_trimmed) - int (length right_trimmed));
     if kMaxSignificantDecimalDigits < length right_trimmed then do {
       ASSERT (kMaxSignificantDecimalDigits \<le> space_size);
       (buffer_copy_space, updated_exponent) \<leftarrow> CutToMaxSignificantDigits right_trimmed e buffer_copy_space;
       Some (take kMaxSignificantDecimalDigits buffer_copy_space, updated_exponent) }
     else Some (right_trimmed, e) }"

section \<open>Reading digits\<close>

definition ReadUint64_digit :: "char list \<Rightarrow> u64 \<times> nat \<Rightarrow> (u64 \<times> nat) option" where
  "ReadUint64_digit buffer = (\<lambda>(result, i). do {
     c \<leftarrow> rd buffer i;
     let digit = code_of c - code_of CHR ''0'';
     ASSERT (0 \<le> digit \<and> digit \<le> 9);
     Some (10 * result + word_of_int digit, i + 1) })"

text \<open>The result is the returned number and \<open>*number_of_read_digits\<close>.\<close>

definition ReadUint64 :: "char list \<Rightarrow> (u64 \<times> nat) option" where
  "ReadUint64 buffer =
    while_opt (\<lambda>(result, i). i < length buffer \<and> result \<le> kMaxUint64 div 10 - 1) (ReadUint64_digit buffer) (0, 0)"

text \<open>The result is \<open>(*result, *remaining_decimals)\<close>.\<close>

definition ReadDiyFp :: "char list \<Rightarrow> (diy_fp \<times> int) option" where
  "ReadDiyFp buffer = do {
     (significand, read_digits) \<leftarrow> ReadUint64 buffer;
     if length buffer = read_digits then Some (DiyFp significand 0, 0)
     else do {
       c \<leftarrow> rd buffer read_digits;
       let significand = (if code_of CHR ''5'' \<le> code_of c then significand + 1 else significand);
       Some (DiyFp significand 0, int (length buffer) - int read_digits) } }"

section \<open>The guesses\<close>

text \<open>\<open>None\<close> inside the result where the function returns false.\<close>

definition DoubleStrtod :: "char list \<Rightarrow> int \<Rightarrow> double_bits option option" where
  "DoubleStrtod trimmed e =
    (if int (length trimmed) \<le> kMaxExactDoubleIntegerDecimalDigits then
       if e < 0 \<and> - e < kExactPowersOfTenSize then do {
         (n, read_digits) \<leftarrow> ReadUint64 trimmed;
         ASSERT (read_digits = length trimmed);
         p \<leftarrow> rd exact_powers_of_ten (nat (- e));
         Some (Some (double_div (double_of_int (uint n)) p)) }
       else if 0 \<le> e \<and> e < kExactPowersOfTenSize then do {
         (n, read_digits) \<leftarrow> ReadUint64 trimmed;
         ASSERT (read_digits = length trimmed);
         p \<leftarrow> rd exact_powers_of_ten (nat e);
         Some (Some (double_mult (double_of_int (uint n)) p)) }
       else
         let remaining_digits = kMaxExactDoubleIntegerDecimalDigits - int (length trimmed) in
         if 0 \<le> e \<and> e - remaining_digits < kExactPowersOfTenSize then do {
           (n, read_digits) \<leftarrow> ReadUint64 trimmed;
           ASSERT (read_digits = length trimmed);
           p \<leftarrow> rd exact_powers_of_ten (nat remaining_digits);
           q \<leftarrow> rd exact_powers_of_ten (nat (e - remaining_digits));
           Some (Some (double_mult (double_mult (double_of_int (uint n)) p) q)) }
         else Some None
     else Some None)"

definition AdjustmentPowerOfTen :: "int \<Rightarrow> diy_fp option" where
  "AdjustmentPowerOfTen e = do {
     ASSERT (0 < e);
     ASSERT (e < kDecimalExponentDistance);
     ASSERT (kDecimalExponentDistance = 8);
     (if e = 1 then Some (DiyFp 0xA000000000000000 (- 60))
      else if e = 2 then Some (DiyFp 0xC800000000000000 (- 57))
      else if e = 3 then Some (DiyFp 0xFA00000000000000 (- 54))
      else if e = 4 then Some (DiyFp 0x9C40000000000000 (- 50))
      else if e = 5 then Some (DiyFp 0xC350000000000000 (- 47))
      else if e = 6 then Some (DiyFp 0xF424000000000000 (- 44))
      else if e = 7 then Some (DiyFp 0x9896800000000000 (- 40))
      else None) }"

definition kDenominatorLog :: int where "kDenominatorLog = 3"
definition kDenominator :: u64 where "kDenominator = 8"

text \<open>\<open>input.Normalize(); error <<= old_e - input.e();\<close>\<close>

definition normalize_with_error :: "diy_fp \<Rightarrow> u64 \<Rightarrow> (diy_fp \<times> u64) option" where
  "normalize_with_error input error = do {
     let old_e = dfp_e input;
     input \<leftarrow> Normalize input;
     error \<leftarrow> shl error (old_e - dfp_e input);
     Some (input, error) }"

text \<open>From \<open>int order_of_magnitude\<close> to the end of \<open>DiyFpStrtod\<close>.\<close>

definition round_with_error :: "diy_fp \<Rightarrow> u64 \<Rightarrow> (bool \<times> double_bits) option" where
  "round_with_error input error = do {
     let order_of_magnitude = kDiyFpSignificandSize + dfp_e input;
     let effective_significand_size = SignificandSizeForOrderOfMagnitude order_of_magnitude;
     let precision_digits_count = kDiyFpSignificandSize - effective_significand_size;
     (input, error, precision_digits_count) \<leftarrow>
       (if kDiyFpSignificandSize \<le> precision_digits_count + kDenominatorLog then do {
          let shift_amount = (precision_digits_count + kDenominatorLog) - kDiyFpSignificandSize + 1;
          f \<leftarrow> shr (dfp_f input) shift_amount;
          error' \<leftarrow> shr error shift_amount;
          Some (DiyFp f (dfp_e input + shift_amount), error' + 1 + kDenominator, precision_digits_count - shift_amount) }
        else Some (input, error, precision_digits_count));
     ASSERT (kDiyFpSignificandSize = 64);
     ASSERT (precision_digits_count < 64);
     let one64 = 1;
     top \<leftarrow> shl one64 precision_digits_count;
     let precision_bits_mask = top - 1;
     let precision_bits = dfp_f input AND precision_bits_mask;
     half_way \<leftarrow> shl one64 (precision_digits_count - 1);
     let precision_bits = precision_bits * kDenominator;
     let half_way = half_way * kDenominator;
     f \<leftarrow> shr (dfp_f input) precision_digits_count;
     let rounded_input = DiyFp f (dfp_e input + precision_digits_count);
     let rounded_input =
       (if half_way + error \<le> precision_bits then rounded_input\<lparr>dfp_f := dfp_f rounded_input + 1\<rparr> else rounded_input);
     result \<leftarrow> Double_of_DiyFp rounded_input;
     Some (\<not> (half_way - error < precision_bits \<and> precision_bits < half_way + error), result) }"

text \<open>The result is the returned bool and \<open>*result\<close>.\<close>

definition DiyFpStrtod :: "char list \<Rightarrow> int \<Rightarrow> (bool \<times> double_bits) option" where
  "DiyFpStrtod buffer e = do {
     (input, remaining_decimals) \<leftarrow> ReadDiyFp buffer;
     let e = e + remaining_decimals;
     let error = (if remaining_decimals = 0 then 0 else kDenominator div 2);
     (input, error) \<leftarrow> normalize_with_error input error;
     ASSERT (e \<le> kMaxDecimalExponent);
     if e < kMinDecimalExponent then Some (True, 0)
     else do {
       (cached_power, cached_decimal_exponent) \<leftarrow> GetCachedPowerForDecimalExponent e;
       (input, error) \<leftarrow>
         (if cached_decimal_exponent \<noteq> e then do {
            let adjustment_exponent = e - cached_decimal_exponent;
            adjustment_power \<leftarrow> AdjustmentPowerOfTen adjustment_exponent;
            let input = Multiply input adjustment_power;
            if adjustment_exponent \<le> strtod_kMaxUint64DecimalDigits - int (length buffer) then do {
              ASSERT (kDiyFpSignificandSize = 64);
              Some (input, error) }
            else Some (input, error + kDenominator div 2) }
          else Some (input, error));
       let input = Multiply input cached_power;
       let error_b = kDenominator div 2;
       let error_ab = (if error = 0 then 0 else 1);
       let fixed_error = kDenominator div 2;
       let error = error + (error_b + error_ab + fixed_error);
       (input, error) \<leftarrow> normalize_with_error input error;
       round_with_error input error } }"

section \<open>The comparison with the boundary\<close>

definition CompareBufferWithDiyFp :: "char list \<Rightarrow> int \<Rightarrow> diy_fp \<Rightarrow> int option" where
  "CompareBufferWithDiyFp buffer e diy_fp = do {
     ASSERT (int (length buffer) + e \<le> kMaxDecimalPower + 1);
     ASSERT (kMinDecimalPower < int (length buffer) + e);
     ASSERT (length buffer \<le> kMaxSignificantDecimalDigits);
     ASSERT ((kMaxDecimalPower + 1) * 333 div 100 < int kMaxSignificantBits);
     buffer_bignum \<leftarrow> AssignDecimalString Bignum_new buffer;
     diy_fp_bignum \<leftarrow> AssignUInt64 Bignum_new (dfp_f diy_fp);
     (buffer_bignum, diy_fp_bignum) \<leftarrow>
       (if 0 \<le> e then do {
          buffer_bignum \<leftarrow> MultiplyByPowerOfTen buffer_bignum (nat e);
          Some (buffer_bignum, diy_fp_bignum) }
        else do {
          diy_fp_bignum \<leftarrow> MultiplyByPowerOfTen diy_fp_bignum (nat (- e));
          Some (buffer_bignum, diy_fp_bignum) });
     (buffer_bignum, diy_fp_bignum) \<leftarrow>
       (if 0 < dfp_e diy_fp then do {
          diy_fp_bignum \<leftarrow> ShiftLeft diy_fp_bignum (nat (dfp_e diy_fp));
          Some (buffer_bignum, diy_fp_bignum) }
        else do {
          buffer_bignum \<leftarrow> ShiftLeft buffer_bignum (nat (- dfp_e diy_fp));
          Some (buffer_bignum, diy_fp_bignum) });
     Compare buffer_bignum diy_fp_bignum }"

section \<open>Strtod and Strtof\<close>

text \<open>The result is the returned bool and \<open>*guess\<close>.\<close>

definition ComputeGuess :: "char list \<Rightarrow> int \<Rightarrow> (bool \<times> double_bits) option" where
  "ComputeGuess trimmed e =
    (if length trimmed = 0 then Some (True, 0)
     else if kMaxDecimalPower \<le> e + int (length trimmed) - 1 then Some (True, kInfinity)
     else if e + int (length trimmed) \<le> kMinDecimalPower then Some (True, 0)
     else do {
       d \<leftarrow> DoubleStrtod trimmed e;
       case d of Some guess \<Rightarrow> Some (True, guess)
       | None \<Rightarrow> do {
           (is_correct, guess) \<leftarrow> DiyFpStrtod trimmed e;
           if is_correct then Some (True, guess)
           else if double_equal guess kInfinity then Some (True, guess)
           else Some (False, guess) } })"

definition copy_buffer :: "char list" where
  "copy_buffer = replicate kMaxSignificantDecimalDigits (char_at 0)"

definition Strtod :: "char list \<Rightarrow> int \<Rightarrow> double_bits option" where
  "Strtod buffer e = do {
     (trimmed, e) \<leftarrow> TrimAndCut buffer e copy_buffer kMaxSignificantDecimalDigits;
     (is_correct, guess) \<leftarrow> ComputeGuess trimmed e;
     if is_correct then Some guess
     else do {
       upper_boundary \<leftarrow> UpperBoundary guess;
       comparison \<leftarrow> CompareBufferWithDiyFp trimmed e upper_boundary;
       if comparison < 0 then Some guess
       else if 0 < comparison then Some (NextDouble guess)
       else if Significand guess AND 1 = 0 then Some guess
       else Some (NextDouble guess) } }"

text \<open>Comparisons of two floats, both promoted to double.\<close>

definition single_equal :: "single_bits \<Rightarrow> single_bits \<Rightarrow> bool" where
  "single_equal a b \<longleftrightarrow> double_equal (double_of_single a) (double_of_single b)"

definition single_less_eq :: "single_bits \<Rightarrow> single_bits \<Rightarrow> bool" where
  "single_less_eq a b \<longleftrightarrow> double_less (double_of_single a) (double_of_single b) \<or> single_equal a b"

definition Strtof :: "char list \<Rightarrow> int \<Rightarrow> single_bits option" where
  "Strtof buffer e = do {
     (trimmed, e) \<leftarrow> TrimAndCut buffer e copy_buffer kMaxSignificantDecimalDigits;
     (is_correct, double_guess) \<leftarrow> ComputeGuess trimmed e;
     let float_guess = single_of_double double_guess;
     if double_equal (double_of_single float_guess) double_guess then Some float_guess
     else do {
       let double_next = NextDouble double_guess;
       let double_previous = PreviousDouble double_guess;
       let f1 = single_of_double double_previous;
       let f2 = float_guess;
       let f3 = single_of_double double_next;
       let f4 = (if is_correct then f3
                 else let double_next2 = NextDouble double_next in single_of_double double_next2);
       ASSERT (single_less_eq f1 f2 \<and> single_less_eq f2 f3 \<and> single_less_eq f3 f4);
       if single_equal f1 f4 then Some float_guess
       else do {
         ASSERT ((\<not> single_equal f1 f2 \<and> single_equal f2 f3 \<and> single_equal f3 f4) \<or>
           (single_equal f1 f2 \<and> \<not> single_equal f2 f3 \<and> single_equal f3 f4) \<or>
           (single_equal f1 f2 \<and> single_equal f2 f3 \<and> \<not> single_equal f3 f4));
         let guess = f1;
         let next_float = f4;
         upper_boundary \<leftarrow>
           (if single_equal guess 0 then
              let min_float = 1 in AsDiyFp (double_div (double_of_single min_float) 0x4000000000000000)
            else Single_UpperBoundary guess);
         comparison \<leftarrow> CompareBufferWithDiyFp trimmed e upper_boundary;
         if comparison < 0 then Some guess
         else if 0 < comparison then Some next_float
         else if Single_Significand guess AND 1 = 0 then Some guess
         else Some next_float } } }"

end
