(* ===== verification/Strtod_Trim.thy ===== *)
theory Strtod_Trim
  imports Strtod Shortest_Decimal
begin

unbundle bit_operations_syntax

declare of_nat_unat [simp del]

text \<open>
  The input of \<open>Strtod\<close>: zeros at both ends are taken away, and what is left is cut to 780 digits, the
  last of them a \<open>1\<close> that stands for the digits after it.  That does not change the nearest double,
  since no number half way between two doubles has more than 779 significant digits.
\<close>

section \<open>Trimming\<close>

abbreviation strip_left :: "char list \<Rightarrow> char list" where
  "strip_left \<equiv> dropWhile (\<lambda>c. c = CHR ''0'')"

abbreviation strip_right :: "char list \<Rightarrow> char list" where
  "strip_right xs \<equiv> rev (strip_left (rev xs))"

lemma TrimLeadingZeros_from_eq:
  "n = length buffer - i \<Longrightarrow> i \<le> length buffer \<Longrightarrow> TrimLeadingZeros_from n buffer i = Some (strip_left (drop i buffer))"
proof (induction n arbitrary: i)
  case (Suc n)
  then have "i < length buffer"
    by simp
  then have "drop i buffer = buffer ! i # drop (Suc i) buffer"
    by (rule Cons_nth_drop_Suc [symmetric])
  moreover have "TrimLeadingZeros_from n buffer (Suc i) = Some (strip_left (drop (Suc i) buffer))"
    using Suc.prems by (intro Suc.IH) simp_all
  ultimately show ?case
    using \<open>i < length buffer\<close> by (simp add: rd_def SubVector_def ASSERT_def)
qed simp

lemma TrimLeadingZeros_eq: "TrimLeadingZeros buffer = Some (strip_left buffer)"
  by (simp add: TrimLeadingZeros_def TrimLeadingZeros_from_eq)

lemma TrimTrailingZeros_from_eq:
  "i \<le> length buffer \<Longrightarrow> TrimTrailingZeros_from i buffer = Some (strip_right (take i buffer))"
  by (induction i) (simp_all add: rd_def SubVector_def ASSERT_def take_Suc_conv_app_nth)

lemma TrimTrailingZeros_eq: "TrimTrailingZeros buffer = Some (strip_right buffer)"
  by (simp add: TrimTrailingZeros_def TrimTrailingZeros_from_eq)

lemma strip_left_zeros: "xs = replicate (length xs - length (strip_left xs)) (CHR ''0'') @ strip_left xs"
proof (induction xs)
  case (Cons x xs)
  have "length (strip_left xs) \<le> length xs"
    by (rule length_dropWhile_le)
  then show ?case
    using Cons by (auto simp: Suc_diff_le)
qed simp

lemma strip_right_zeros: "xs = strip_right xs @ replicate (length xs - length (strip_right xs)) (CHR ''0'')"
  using strip_left_zeros [of "rev xs"] by (metis length_rev rev_append rev_replicate rev_rev_ident)

lemma dec_value_strip_left: "dec_value (strip_left xs) = dec_value xs"
  using strip_left_zeros [of xs] dec_value_append dec_value_zeros by (metis add_0 mult_zero_left)

lemma dec_value_strip_right: "dec_value xs = dec_value (strip_right xs) * 10 ^ (length xs - length (strip_right xs))"
  using strip_right_zeros [of xs] dec_value_append dec_value_zeros by (metis add_0_right length_replicate)

lemma strip_left_hd: "strip_left xs \<noteq> [] \<Longrightarrow> hd (strip_left xs) \<noteq> CHR ''0''"
  by (rule hd_dropWhile)

definition trimmed_digits :: "char list \<Rightarrow> bool" where
  "trimmed_digits t \<longleftrightarrow> (\<forall>c\<in>set t. is_digit c) \<and> (t \<noteq> [] \<longrightarrow> hd t \<noteq> CHR ''0'' \<and> last t \<noteq> CHR ''0'')"

lemma trimmed_both: "\<forall>c\<in>set xs. is_digit c \<Longrightarrow> trimmed_digits (strip_right (strip_left xs))"
proof -
  define ys where "ys = strip_left xs"
  assume "\<forall>c\<in>set xs. is_digit c"
  then have ys: "\<forall>c\<in>set ys. is_digit c" "ys \<noteq> [] \<Longrightarrow> hd ys \<noteq> CHR ''0''"
    using strip_left_hd [of xs] set_dropWhileD unfolding ys_def by fast+
  have "hd (strip_right ys) = hd ys" if "strip_right ys \<noteq> []"
    using strip_right_zeros [of ys] that by (metis hd_append2)
  moreover have "last (strip_right ys) \<noteq> CHR ''0''" if "strip_right ys \<noteq> []"
    using that strip_left_hd [of "rev ys"] by (simp add: last_rev)
  moreover have "\<forall>c\<in>set (strip_right ys). is_digit c"
    using ys(1) set_dropWhileD by fastforce
  ultimately show ?thesis
    using ys(2) unfolding trimmed_digits_def ys_def [symmetric] by (metis rev.simps(1) dropWhile.simps(1))
qed

section \<open>Cutting\<close>

lemma CutToMaxSignificantDigits_wp:
  assumes "780 < length buffer" and "last buffer \<noteq> CHR ''0''" and "length space = 780"
  shows "wp (CutToMaxSignificantDigits buffer e space) (\<lambda>(b, e'). b = take 779 buffer @ ''1'' \<and> e' = e + int (length buffer) - 780)"
proof -
  let ?I = "\<lambda>i b. length b = 780 \<and> take i b = take i buffer"
  have "wp (for_up 0 779 (\<lambda>i b. do { c \<leftarrow> rd buffer i; wr b i c }) space) (\<lambda>b. length b = 780 \<and> take 779 b = take 779 buffer)"
    by (rule for_up_rule [where I = ?I]) (use assms in \<open>auto simp: wp_simps take_Suc_conv_app_nth\<close>)
  then obtain b where b: "for_up 0 779 (\<lambda>i b. do { c \<leftarrow> rd buffer i; wr b i c }) space = Some b" "length b = 780" "take 779 b = take 779 buffer"
    by (rule wpE) blast
  have "b[779 := CHR ''1''] = take 779 buffer @ ''1''"
  proof -
    have "b[779 := CHR ''1''] = take 779 b @ CHR ''1'' # drop 780 b"
      using b(2) by (simp add: upd_conv_take_nth_drop)
    then show ?thesis
      using b by simp
  qed
  moreover have "buffer ! (length buffer - 1) = last buffer"
    using assms(1) by (intro last_conv_nth [symmetric]) auto
  ultimately show ?thesis
    using b assms by (simp add: CutToMaxSignificantDigits_def kMaxSignificantDecimalDigits_def wp_simps)
qed

definition cut_bound :: nat where "cut_bound = 10 ^ 778"

lemma dec_value_first: "0 < digit_of c \<Longrightarrow> 10 ^ length cs \<le> dec_value (c # cs)"
  unfolding dec_value_Cons by (rule trans_le_add1) (simp add: Suc_le_eq)

text \<open>What the trimmed and cut digits have to do with the input.\<close>

definition same_input :: "real \<Rightarrow> char list \<Rightarrow> int \<Rightarrow> bool" where
  "same_input x t e \<longleftrightarrow> x = real (dec_value t) * 10 powi e \<or>
    (\<exists>A k. cut_bound \<le> A \<and> real A * 10 powi k < x \<and> x < (real A + 1) * 10 powi k \<and>
      real A * 10 powi k < real (dec_value t) * 10 powi e \<and> real (dec_value t) * 10 powi e < (real A + 1) * 10 powi k)"

lemma cut_same_input:
  assumes "\<forall>c\<in>set t. is_digit c" and "780 < length t" and "hd t \<noteq> CHR ''0''" and "last t \<noteq> CHR ''0''"
  shows "same_input (real (dec_value t) * 10 powi e) (take 779 t @ ''1'') (e + int (length t) - 780)"
proof -
  let ?A = "dec_value (take 779 t)" and ?B = "dec_value (drop 779 t)"
  define n where "n = length t - 779"
  define k where "k = e + int n"
  have t: "dec_value t = ?A * 10 ^ n + ?B"
    using dec_value_append [of "take 779 t" "drop 779 t"] by (simp add: n_def)
  have less: "?B < 10 ^ n"
    using dec_value_less [of "drop 779 t"] assms(1) by (auto simp: n_def dest: in_set_dropD)
  have "t \<noteq> []"
    using assms(2) by auto
  then have d: "is_digit (hd t)" "t \<noteq> []" "is_digit (last t)"
    using assms(1) hd_in_set last_in_set by blast+
  have digit_pos: "0 < digit_of c" if "is_digit c" "c \<noteq> CHR ''0''" for c
    using that code_of_digit [of c] code_of_inj [of c "CHR ''0''"] by (auto intro!: gr0I simp: code_of_def)
  have "0 < ?B"
  proof -
    have "drop 779 t \<noteq> []" "last (drop 779 t) = last t"
      using assms(2) by simp_all
    then have "drop 779 t = butlast (drop 779 t) @ [last t]"
      using append_butlast_last_id [of "drop 779 t"] by simp
    then have "?B = dec_value (butlast (drop 779 t) @ [last t])"
      by (rule arg_cong)
    then show ?thesis
      using digit_pos [OF d(3) assms(4)] by simp
  qed
  have A: "cut_bound \<le> ?A"
  proof -
    have "take 779 t = hd t # take 778 (tl t)" "length (take 778 (tl t)) = 778"
      using d(2) assms(2) by (cases t; simp)+
    then show ?thesis
      using dec_value_first [OF digit_pos [OF d(1) assms(3)], of "take 778 (tl t)"] by (simp only: cut_bound_def)
  qed
  have unit: "(10 :: real) powi k = 10 ^ n * 10 powi e" "(10 :: real) powi k = 10 * 10 powi (k - 1)"
    by (simp_all add: k_def power_int_add power_int_diff)
  have len: "e + int (length t) - 780 = k - 1"
    using assms(2) by (simp add: k_def n_def of_nat_diff)
  have cut: "dec_value (take 779 t @ ''1'') = 10 * ?A + 1"
    by (simp add: digit_of_def code_of_def)
  have pos: "0 < (10 :: real) powi e" "0 < (10 :: real) powi (k - 1)"
    by simp_all
  have x: "real (dec_value t) * 10 powi e = real ?A * 10 powi k + real ?B * 10 powi e"
    by (simp add: t unit(1) algebra_simps)
  have c: "real (dec_value (take 779 t @ ''1'')) * 10 powi (k - 1) = real ?A * 10 powi k + 10 powi (k - 1)"
    unfolding cut by (simp add: unit(2) algebra_simps)
  have B: "0 < real ?B * 10 powi e"
    using \<open>0 < ?B\<close> pos by simp
  have "real ?B < 10 ^ n"
    using less by (metis of_nat_less_iff of_nat_numeral of_nat_power)
  then have B': "real ?B * 10 powi e < 10 powi k"
    unfolding unit(1) using pos(1) by (rule mult_strict_right_mono)
  have u: "10 powi (k - 1) < (10 :: real) powi k" "(real ?A + 1) * 10 powi k = real ?A * 10 powi k + 10 powi k"
    using pos(2) unfolding unit(2) by (simp_all add: distrib_right)
  have "real ?A * 10 powi k < real (dec_value t) * 10 powi e \<and> real (dec_value t) * 10 powi e < (real ?A + 1) * 10 powi k \<and>
      real ?A * 10 powi k < real (dec_value (take 779 t @ ''1'')) * 10 powi (k - 1) \<and>
      real (dec_value (take 779 t @ ''1'')) * 10 powi (k - 1) < (real ?A + 1) * 10 powi k"
    unfolding x c u(2) using B B' u(1) pos(2) by linarith
  then show ?thesis
    unfolding same_input_def len using A by blast
qed

theorem TrimAndCut_wp:
  assumes "\<forall>c\<in>set buffer. is_digit c"
  shows "wp (TrimAndCut buffer e copy_buffer kMaxSignificantDecimalDigits) (\<lambda>(t, e'). trimmed_digits t \<and> length t \<le> 780 \<and>
    same_input (real (dec_value buffer) * 10 powi e) t e')"
proof -
  define ls where "ls = strip_left buffer"
  define t where "t = strip_right ls"
  define e' where "e' = e + (int (length ls) - int (length t))"
  have trim: "trimmed_digits t"
    unfolding t_def ls_def by (rule trimmed_both [OF assms])
  have le: "length t \<le> length ls"
    by (simp add: t_def length_dropWhile_le [of _ "rev ls", simplified])
  have "dec_value buffer = dec_value t * 10 ^ (length ls - length t)"
    using dec_value_strip_left [of buffer] dec_value_strip_right [of ls] by (simp add: ls_def t_def)
  moreover have "(10 :: real) powi e' = 10 ^ (length ls - length t) * 10 powi e"
  proof -
    have "e' = int (length ls - length t) + e"
      using le by (simp add: e'_def of_nat_diff)
    then show ?thesis
      by (simp only: ten_split)
  qed
  ultimately have x: "real (dec_value buffer) * 10 powi e = real (dec_value t) * 10 powi e'"
    by simp
  have eq: "TrimAndCut buffer e copy_buffer kMaxSignificantDecimalDigits = (if 780 < length t then do {
       (b, e'') \<leftarrow> CutToMaxSignificantDigits t e' copy_buffer; Some (take 780 b, e'') } else Some (t, e'))"
    unfolding TrimAndCut_def TrimLeadingZeros_eq bind.simps TrimTrailingZeros_eq ls_def [symmetric] t_def [symmetric] Let_def
      e'_def [symmetric] kMaxSignificantDecimalDigits_def by (simp add: ASSERT_def)
  show ?thesis
  proof (cases "780 < length t")
    case False
    then show ?thesis
      using trim x by (simp add: eq same_input_def)
  next
    case True
    then have t: "\<forall>c\<in>set t. is_digit c" "hd t \<noteq> CHR ''0''" "last t \<noteq> CHR ''0''"
      using trim by (auto simp: trimmed_digits_def)
    have "length copy_buffer = 780"
      by (simp add: copy_buffer_def kMaxSignificantDecimalDigits_def)
    note cut = CutToMaxSignificantDigits_wp [OF True t(3) this, of e']
    have "hd (take 779 t @ ''1'') = hd t"
      using True by (cases t) simp_all
    then have "trimmed_digits (take 779 t @ ''1'')"
      using t by (auto simp: trimmed_digits_def is_digit_def code_of_def dest: in_set_takeD)
    then show ?thesis
      using True cut_same_input [OF t(1) True t(2,3), of e'] unfolding eq x
      by (auto simp: wp_simps intro!: wp_mono [OF cut])
  qed
qed

section \<open>The cut does not cross a midpoint\<close>

lemma five_power_bound: "(5 :: nat) ^ q \<le> 10 ^ 753" if "q \<le> 1075"
proof -
  have e: "7 * 107 + 4 = (753 :: nat)"
    by simp
  have "(5 :: nat) ^ q \<le> 5 ^ (10 * 107 + 5)"
    using that by (intro power_increasing) simp_all
  also have "\<dots> = (5 ^ 10) ^ 107 * 5 ^ 5"
    by (simp only: power_add power_mult)
  also have "\<dots> \<le> (10 ^ 7) ^ 107 * 10 ^ 4"
    by (intro mult_le_mono power_mono) simp_all
  also have "\<dots> = 10 ^ (7 * 107 + 4)"
    by (simp only: power_add power_mult)
  finally show ?thesis
    unfolding e .
qed

lemma cut_bounds: "(2 :: nat) ^ 1024 \<le> cut_bound" "(2 :: nat) ^ 54 * 5 ^ q \<le> cut_bound" if "q \<le> 1075"
proof -
  have "(2 :: nat) ^ 1024 = (2 ^ 4) ^ 256"
    unfolding power_mult [symmetric] by (rule arg_cong [where f = "power 2"]) simp
  also have "\<dots> \<le> (10 ^ 2) ^ 256"
    by (rule power_mono) simp_all
  also have "\<dots> = 10 ^ (2 * 256)"
    by (simp only: power_mult)
  also have "\<dots> \<le> cut_bound"
    unfolding cut_bound_def by (rule power_increasing) simp_all
  finally show "(2 :: nat) ^ 1024 \<le> cut_bound" .
  have "(2 :: nat) ^ 54 * 5 ^ q \<le> 10 ^ 17 * 10 ^ 753"
    by (rule mult_le_mono [OF _ five_power_bound [OF that]]) simp
  also have "\<dots> = 10 ^ (17 + 753)"
    by (simp only: power_add)
  also have "\<dots> \<le> cut_bound"
    unfolding cut_bound_def by (rule power_increasing) simp_all
  finally show "(2 :: nat) ^ 54 * 5 ^ q \<le> cut_bound" .
qed

lemma mid_real_form:
  assumes "j < kInfinityBits"
  obtains f s where "mid_real 52 kDenormalExponent j = real f * 2 powi (- s)" and "f < 2 ^ 54" and "s \<le> 1075" and "- 970 \<le> s"
proof
  define s where "s = 1075 - int (enc_exp 52 j)"
  define t where "t = (2 :: real) powi kDenormalExponent"
  have "j div 2 ^ 52 < 2047"
    using assms by (simp add: kInfinityBits_def less_mult_imp_div_less)
  then show "s \<le> 1075" "- 970 \<le> s"
    by (simp_all add: enc_exp_def s_def)
  show "2 * enc_sig 52 j + 1 < 2 ^ 54"
    using enc_sig_less [of 52 j] by simp
  have "- s = int (enc_exp 52 j) + (- 1 + kDenormalExponent)"
    by (simp add: s_def kDenormalExponent_eq)
  then have "(2 :: real) powi (- s) = 2 ^ enc_exp 52 j * (2 powi (- 1) * t)"
    by (simp only: two_powi_add two_powi_nat t_def)
  moreover have "real (enc_val 52 j) = real (enc_sig 52 j) * 2 ^ enc_exp 52 j"
    by (simp add: enc_val_def)
  ultimately show "mid_real 52 kDenormalExponent j = real (2 * enc_sig 52 j + 1) * 2 powi (- s)"
    by (simp add: mid_real_def enc_real_def enc_val_Suc t_def [symmetric] power_int_minus algebra_simps)
qed

lemma midpoint_gap:
  assumes "j < kInfinityBits" and A: "cut_bound \<le> A"
  shows "\<not> (real A * 10 powi k < mid_real 52 kDenormalExponent j \<and> mid_real 52 kDenormalExponent j < (real A + 1) * 10 powi k)"
proof (rule notI, elim conjE)
  obtain f s where M: "mid_real 52 kDenormalExponent j = real f * 2 powi (- s)" and f: "f < 2 ^ 54" and s: "s \<le> 1075" "- 970 \<le> s"
    by (rule mid_real_form [OF assms(1)])
  assume lo: "real A * 10 powi k < mid_real 52 kDenormalExponent j" and hi: "mid_real 52 kDenormalExponent j < (real A + 1) * 10 powi k"
  have f_real: "real f < 2 ^ 54"
    using f by (metis of_nat_less_iff of_nat_numeral of_nat_power)
  show False
  proof (cases "0 \<le> k")
    case True
    have "real f * 2 powi (- s) < 2 ^ 54 * 2 powi 970"
      using f_real s(2) by (intro mult_less_le_imp_less power_int_increasing) simp_all
    also have "\<dots> = 2 ^ (54 + 970)"
      by (simp only: power_int_numeral power_add)
    also have "\<dots> = 2 ^ 1024"
      by (rule arg_cong [where f = "power 2"]) simp
    also have "\<dots> \<le> real cut_bound"
      using cut_bounds(1) [of 0] by (metis of_nat_le_iff of_nat_numeral of_nat_power zero_le)
    also have "\<dots> \<le> real A * 1"
      using A by simp
    also have "\<dots> \<le> real A * 10 powi k"
      using True power_int_increasing [of 0 k "10 :: real"] by (intro mult_left_mono) simp_all
    finally show False
      using lo M by simp
  next
    case False
    define q where "q = nat (- k)"
    have k: "k = - int q"
      using False by (simp add: q_def)
    have ten: "x * 10 powi k * 10 ^ q = x" for x :: real
      by (simp add: k power_int_minus)
    have "real A < real f * 2 powi (- s) * 10 ^ q" "real f * 2 powi (- s) * 10 ^ q < real A + 1"
      using mult_strict_right_mono [OF lo, of "10 ^ q"] mult_strict_right_mono [OF hi, of "10 ^ q"] unfolding ten M by simp_all
    moreover have "(10 :: real) ^ q = 5 ^ q * 2 powi int q"
      by (simp flip: power_mult_distrib)
    ultimately have between: "real A < real f * 5 ^ q * 2 powi (int q - s)" "real f * 5 ^ q * 2 powi (int q - s) < real A + 1"
      by (simp_all add: power_int_diff power_int_minus field_simps)
    show False
    proof (cases "s \<le> int q")
      case True
      then have "real f * 5 ^ q * 2 powi (int q - s) = real (f * 5 ^ q * 2 ^ nat (int q - s))"
        by (simp add: power_int_def)
      moreover define n where "n = f * 5 ^ q * 2 ^ nat (int q - s)"
      ultimately have "real A < real n" "real n < real (A + 1)"
        using between by (simp_all only: of_nat_add of_nat_1)
      then show False
        unfolding of_nat_less_iff by simp
    next
      case False
      then have "(2 :: real) powi (int q - s) \<le> 2 powi 0"
        by (intro power_int_increasing) simp_all
      then have "real f * 5 ^ q * 2 powi (int q - s) \<le> real f * 5 ^ q * 1"
        by (intro mult_left_mono) simp_all
      also have "\<dots> \<le> 2 ^ 54 * 5 ^ q"
        using f_real by simp
      also have "\<dots> = real (2 ^ 54 * 5 ^ q)"
        by simp
      also have "\<dots> \<le> real cut_bound"
        using cut_bounds(2) [of q] False s(1) by (simp only: of_nat_le_iff)
      also have "\<dots> \<le> real A"
        using A by simp
      finally show False
        using between(1) by simp
    qed
  qed
qed

theorem same_input_nearest:
  assumes "same_input x t e"
  shows "double_nearest x r \<longleftrightarrow> double_nearest (real (dec_value t) * 10 powi e) r"
proof (cases "x = real (dec_value t) * 10 powi e")
  case False
  define y where "y = real (dec_value t) * 10 powi e"
  obtain A k where A: "cut_bound \<le> A" and b: "real A * 10 powi k < x" "x < (real A + 1) * 10 powi k"
    "real A * 10 powi k < y" "y < (real A + 1) * 10 powi k"
    using assms False unfolding same_input_def y_def by blast
  have "(mid_real 52 kDenormalExponent j < x \<longleftrightarrow> mid_real 52 kDenormalExponent j < y) \<and>
      (x < mid_real 52 kDenormalExponent j \<longleftrightarrow> y < mid_real 52 kDenormalExponent j) \<and>
      mid_real 52 kDenormalExponent j \<noteq> x \<and> mid_real 52 kDenormalExponent j \<noteq> y" if "j < kInfinityBits" for j
    using midpoint_gap [OF that A, of k] b by auto
  note mid = this
  have "lower_ok 52 kDenormalExponent x n \<longleftrightarrow> lower_ok 52 kDenormalExponent y n" if "n \<le> kInfinityBits" for n
    using mid [of "n - 1"] that unfolding lower_ok_def by (cases "n = 0") auto
  moreover have "upper_ok 52 kDenormalExponent x n \<longleftrightarrow> upper_ok 52 kDenormalExponent y n" if "n < kInfinityBits" for n
    using mid [OF that] unfolding upper_ok_def by auto
  ultimately show ?thesis
    unfolding double_nearest_def y_def [symmetric] by blast
qed simp

end
