(* ===== verification/Strtod_Guess.thy ===== *)
theory Strtod_Guess
  imports Strtod_Trim Cached_Accuracy
begin

unbundle bit_operations_syntax

declare of_nat_unat [simp del]

text \<open>
  The guesses of \<open>strtod.cc\<close> that are certain: inputs too large or too small for a double, and short
  inputs, where one double operation on two exact operands rounds correctly.
\<close>

section \<open>Reading digits\<close>

lemma ReadUint64_digit_value:
  fixes result :: u64
  assumes "is_digit c" and "unat result \<le> 1844674407370955160"
  shows "unat (10 * result + word_of_int (code_of c - code_of CHR ''0'')) = unat result * 10 + digit_of c"
    and "0 \<le> code_of c - code_of CHR ''0''" and "code_of c - code_of CHR ''0'' \<le> 9"
proof -
  have d: "code_of c - code_of CHR ''0'' = int (digit_of c)" "digit_of c \<le> 9"
    using assms(1) by (simp_all add: code_of_digit digit_of_le code_of_def [of "CHR ''0''"])
  then show "0 \<le> code_of c - code_of CHR ''0''" "code_of c - code_of CHR ''0'' \<le> 9"
    by simp_all
  have "unat (word_of_nat (digit_of c) :: u64) = digit_of c"
    using d(2) by (intro of_nat_inverse [OF refl]) simp
  moreover have "unat (10 * result) = 10 * unat result"
    using assms(2) by (subst unat_times) simp_all
  ultimately show "unat (10 * result + word_of_int (code_of c - code_of CHR ''0'')) = unat result * 10 + digit_of c"
    using assms(2) d by (simp add: unat_plus)
qed

lemma ReadUint64_wp:
  assumes "\<forall>c\<in>set t. is_digit c"
  shows "wp (ReadUint64 t) (\<lambda>(n, i). i \<le> length t \<and> unat n = dec_value (take i t) \<and> unat n < 2 ^ 64 - 1 \<and>
    (i = length t \<or> 1844674407370955161 \<le> unat n))"
  unfolding ReadUint64_def
proof (rule while_opt_rule [where I = "\<lambda>(n, i). i \<le> length t \<and> unat n = dec_value (take i t) \<and> unat n < 2 ^ 64 - 1"
      and m = "\<lambda>(n, i). length t - i"])
  fix s :: "u64 \<times> nat"
  assume I: "case s of (n, i) \<Rightarrow> i \<le> length t \<and> unat n = dec_value (take i t) \<and> unat n < 2 ^ 64 - 1"
  have bound: "kMaxUint64 div 10 - 1 = 1844674407370955160"
    by (simp add: kMaxUint64_def)
  obtain n i where s: "s = (n, i)"
    by (cases s)
  {
    assume b: "case s of (result, i) \<Rightarrow> i < length t \<and> result \<le> kMaxUint64 div 10 - 1"
    then have i: "i < length t" "unat n \<le> 1844674407370955160" "is_digit (t ! i)"
      using assms by (simp_all add: s bound word_le_nat_alt)
    note d = ReadUint64_digit_value [OF i(3,2)]
    have "digit_of (t ! i) \<le> 9"
      using i(3) by (rule digit_of_le)
    then show "wp (ReadUint64_digit t s) (\<lambda>u. (case u of (n, i) \<Rightarrow> i \<le> length t \<and> unat n = dec_value (take i t) \<and> unat n < 2 ^ 64 - 1) \<and>
        (case u of (n, i) \<Rightarrow> length t - i) < (case s of (n, i) \<Rightarrow> length t - i))"
      using i I d by (simp add: s ReadUint64_digit_def wp_simps Let_def dec_value_take_Suc)
  next
    assume "\<not> (case s of (result, i) \<Rightarrow> i < length t \<and> result \<le> kMaxUint64 div 10 - 1)"
    then show "case s of (n, i) \<Rightarrow> i \<le> length t \<and> unat n = dec_value (take i t) \<and> unat n < 2 ^ 64 - 1 \<and>
        (i = length t \<or> 1844674407370955161 \<le> unat n)"
      using I by (auto simp: s bound word_le_nat_alt)
  }
qed simp

lemma ReadUint64_short:
  assumes "\<forall>c\<in>set t. is_digit c" and "length t \<le> 19"
  shows "wp (ReadUint64 t) (\<lambda>(n, i). i = length t \<and> unat n = dec_value t)"
proof (rule wp_mono [OF ReadUint64_wp [OF assms(1)]], clarify)
  fix n :: u64 and i
  assume i: "i \<le> length t" "unat n = dec_value (take i t)" "i = length t \<or> 1844674407370955161 \<le> unat n"
  have "i = length t"
  proof (rule ccontr)
    assume ne: "i \<noteq> length t"
    then have "i \<le> 18"
      using i(1) assms(2) by simp
    then have "(10 :: nat) ^ i \<le> 10 ^ 18"
      by (intro power_increasing) simp_all
    moreover have "dec_value (take i t) < 10 ^ i"
      using dec_value_less [of "take i t"] assms(1) i(1) by (auto simp: min_absorb2 dest: in_set_takeD)
    ultimately show False
      using i ne by simp
  qed
  then show "i = length t \<and> unat n = dec_value t"
    using i(2) by simp
qed

section \<open>Too large and too small\<close>

lemma trimmed_bounds:
  assumes "trimmed_digits t" and "t \<noteq> []"
  shows "10 ^ (length t - 1) \<le> dec_value t" and "dec_value t < 10 ^ length t"
proof -
  obtain c cs where t: "t = c # cs"
    using assms(2) by (cases t) auto
  have "is_digit c" "c \<noteq> CHR ''0''"
    using assms by (simp_all add: trimmed_digits_def t)
  then have "0 < digit_of c"
    using code_of_digit [of c] code_of_inj [of c "CHR ''0''"] by (auto intro!: gr0I simp: code_of_def)
  then show "10 ^ (length t - 1) \<le> dec_value t"
    using dec_value_first [of c cs] by (simp add: t)
  show "dec_value t < 10 ^ length t"
    using assms(1) by (intro dec_value_less) (simp add: trimmed_digits_def)
qed

lemma trimmed_real_bounds:
  assumes "trimmed_digits t" and "t \<noteq> []"
  shows "10 powi (e + int (length t) - 1) \<le> real (dec_value t) * 10 powi e" and "real (dec_value t) * 10 powi e < 10 powi (e + int (length t))"
proof -
  have "0 < length t"
    using assms(2) by simp
  then have split: "e + int (length t) - 1 = int (length t - 1) + e" "e + int (length t) = int (length t) + e"
    by (simp_all add: of_nat_diff Suc_le_eq)
  have r: "10 ^ (length t - 1) \<le> real (dec_value t)" "real (dec_value t) < 10 ^ length t"
    using trimmed_bounds [OF assms] by (metis of_nat_le_iff of_nat_less_iff of_nat_numeral of_nat_power)+
  show "10 powi (e + int (length t) - 1) \<le> real (dec_value t) * 10 powi e"
    unfolding split(1) ten_split by (rule mult_right_mono [OF r(1)]) simp
  show "real (dec_value t) * 10 powi e < 10 powi (e + int (length t))"
    unfolding split(2) ten_split by (rule mult_strict_right_mono [OF r(2)]) simp
qed

lemma two_power_93: "(2 :: nat) ^ 93 \<le> 10 ^ 28"
  by simp

lemma two_power_1023: "(2 :: nat) ^ 1023 \<le> 10 ^ 308"
proof -
  have "(2 :: nat) ^ 1023 = 2 ^ (93 * 11)"
    by (rule arg_cong [where f = "power 2"]) simp
  also have "\<dots> = (2 ^ 93) ^ 11"
    by (rule power_mult)
  also have "\<dots> \<le> (10 ^ 28) ^ 11"
    by (rule power_mono [OF two_power_93]) simp
  also have "\<dots> = 10 ^ (28 * 11)"
    by (rule power_mult [symmetric])
  also have "\<dots> = 10 ^ 308"
    by (rule arg_cong [where f = "power 10"]) simp
  finally show ?thesis .
qed

lemma mid_real_top:
  assumes "j < kInfinityBits"
  shows "mid_real 52 kDenormalExponent j < 10 powi 309"
proof -
  obtain f s where M: "mid_real 52 kDenormalExponent j = real f * 2 powi (- s)" and f: "f < 2 ^ 54" and s: "- 970 \<le> s"
    by (rule mid_real_form [OF assms])
  have "real f \<le> 2 ^ 54"
    using f by (metis less_imp_le of_nat_le_iff of_nat_numeral of_nat_power)
  then have "real f * 2 powi (- s) \<le> 2 ^ 54 * 2 powi 970"
    using s by (intro mult_mono power_int_increasing) simp_all
  also have "\<dots> = 2 ^ (1 + 1023)"
    by (simp only: power_int_numeral power_add [symmetric]) (rule arg_cong [where f = "power 2"], simp)
  also have "\<dots> = 2 * 2 ^ 1023"
    by (simp only: power_add power_one_right)
  also have "\<dots> \<le> 2 * 10 ^ 308"
    using two_power_1023 by (intro mult_left_mono) (metis of_nat_le_iff of_nat_numeral of_nat_power, simp)
  also have "\<dots> < 10 * 10 ^ 308"
    by (rule mult_strict_right_mono) simp_all
  also have "\<dots> = 10 ^ Suc 308"
    by (rule power_Suc [symmetric])
  also have "\<dots> = 10 ^ 309"
    by (rule arg_cong [where f = "power 10"]) simp
  also have "\<dots> = 10 powi 309"
    by (rule power_int_numeral [symmetric])
  finally show ?thesis
    by (simp only: M)
qed

lemma nearest_too_large:
  assumes "10 powi 309 \<le> x"
  shows "double_nearest x kInfinity"
proof -
  have "mid_real 52 kDenormalExponent (kInfinityBits - 1) < x"
    using mid_real_top [of "kInfinityBits - 1"] assms by (simp add: kInfinityBits_def)
  moreover have "unat kInfinity = kInfinityBits"
    by (simp add: double_infinity kInfinityBits_def)
  ultimately show ?thesis
    by (simp add: double_nearest_def lower_ok_def)
qed

lemma ten_less_denormal: "(10 :: real) powi (- 324) < mid_real 52 kDenormalExponent 0"
proof -
  have "(2 :: nat) ^ 1075 = 2 ^ (52 + 1023)"
    by (rule arg_cong [where f = "power 2"]) simp
  also have "\<dots> = 2 ^ 52 * 2 ^ 1023"
    by (rule power_add)
  also have "\<dots> \<le> 2 ^ 52 * 10 ^ 308"
    by (rule mult_le_mono2 [OF two_power_1023])
  also have "\<dots> < 10 ^ 16 * 10 ^ 308"
    by (rule mult_strict_right_mono) simp_all
  also have "\<dots> = 10 ^ (16 + 308)"
    by (rule power_add [symmetric])
  also have "\<dots> = 10 ^ 324"
    by (rule arg_cong [where f = "power 10"]) simp
  finally have "(2 :: real) ^ 1075 < 10 ^ 324"
    by (metis of_nat_less_iff of_nat_numeral of_nat_power)
  then have "inverse ((10 :: real) ^ 324) < inverse (2 ^ 1075)"
    by (rule less_imp_inverse_less) simp
  moreover have "mid_real 52 kDenormalExponent 0 = inverse (2 ^ 1075)"
    by (simp add: mid_real_def enc_real_def enc_val_def enc_sig_def enc_exp_def kDenormalExponent_eq power_int_minus)
  ultimately show ?thesis
    by (simp only: power_int_minus power_int_numeral)
qed

lemma nearest_zero_iff: "double_nearest x 0 \<longleftrightarrow> x \<le> mid_real 52 kDenormalExponent 0"
  by (auto simp: double_nearest_def lower_ok_def upper_ok_def kInfinityBits_def)

lemma nearest_too_small: "x \<le> 10 powi (- 324) \<Longrightarrow> double_nearest x 0"
  using ten_less_denormal by (simp only: nearest_zero_iff)

section \<open>Exact operands\<close>

definition unit_scale :: nat where "unit_scale = 2 ^ 1074"

lemma unit_scale: "0 < unit_scale" "real unit_scale * 2 powi kDenormalExponent = 1"
  by (simp_all add: unit_scale_def kDenormalExponent_eq power_int_minus)

text \<open>A double that is the natural number \<open>n\<close>.\<close>

definition exact_nat :: "double_bits \<Rightarrow> nat \<Rightarrow> bool" where
  "exact_nat d n \<longleftrightarrow> double_finite d \<and> \<not> double_neg d \<and> double_magnitude d = n * unit_scale"

lemma ratio_nearest: "0 < d \<Longrightarrow> real n / real d * 2 powi kDenormalExponent = x \<Longrightarrow> double_nearest x (double_of_ratio False n d)"
  using double_of_ratio_nearest [of d n] by simp

lemma double_mult_exact_nearest:
  assumes "exact_nat a n" and "exact_nat b m"
  shows "double_nearest (real (n * m)) (double_mult a b)"
proof -
  have "double_mult a b = double_of_ratio False ((n * unit_scale) * (m * unit_scale)) unit_scale"
    unfolding double_mult_def [folded unit_scale_def] using assms by (simp add: exact_nat_def double_finite_def)
  moreover have "real ((n * unit_scale) * (m * unit_scale)) / real unit_scale * 2 powi kDenormalExponent =
      real (n * m) * (real unit_scale * 2 powi kDenormalExponent)"
    using unit_scale(1) by simp
  ultimately show ?thesis
    unfolding unit_scale(2) mult_1_right by (simp only: ratio_nearest [OF unit_scale(1)])
qed

lemma double_div_exact_nearest:
  assumes "exact_nat a n" and "exact_nat b m" and "0 < m"
  shows "double_nearest (real n / real m) (double_div a b)"
proof -
  have pos: "0 < m * unit_scale"
    using assms(3) unit_scale(1) by simp
  then have "double_div a b = double_of_ratio False (n * unit_scale * unit_scale) (m * unit_scale)"
    unfolding double_div_def [folded unit_scale_def] using assms by (simp add: exact_nat_def double_finite_def)
  moreover have "real (n * unit_scale * unit_scale) / real (m * unit_scale) * 2 powi kDenormalExponent =
      real n / real m * (real unit_scale * 2 powi kDenormalExponent)"
    using unit_scale(1) by simp
  ultimately show ?thesis
    unfolding unit_scale(2) mult_1_right by (simp only: ratio_nearest [OF pos])
qed

lemma double_of_nat_nearest: "double_nearest (real n) (double_of_int (int n))"
proof -
  have "double_of_int (int n) = double_of_ratio False (n * unit_scale) 1"
    unfolding double_of_int_def [folded unit_scale_def] by simp
  moreover have "real (n * unit_scale) / real 1 * 2 powi kDenormalExponent = real n * (real unit_scale * 2 powi kDenormalExponent)"
    by simp
  ultimately show ?thesis
    unfolding unit_scale(2) mult_1_right by (simp only: ratio_nearest [OF zero_less_one])
qed

lemma exact_nat_of_nat:
  assumes "0 < n" and "n \<le> 2 ^ 53"
  shows "exact_nat (double_of_int (int n)) n"
proof -
  have "\<bar>int n\<bar> \<le> 2 ^ 53"
    using assms(2) by simp
  from double_of_int_scaled [OF this] have d: "double_finite (double_of_int (int n))" "double_scaled (double_of_int (int n)) = int (n * unit_scale)"
    by (simp_all add: unit_scale_def)
  moreover have "0 < int (n * unit_scale)"
    using assms(1) unit_scale(1) by simp
  ultimately show ?thesis
    using double_scaled_magnitude [of "double_of_int (int n)"] by (simp add: exact_nat_def del: of_nat_mult)
qed

lemma exact_nat_mult:
  assumes "exact_nat a n" and "exact_nat b m" and "0 < n * m" and "n * m \<le> 2 ^ 53"
  shows "exact_nat (double_mult a b) (n * m)"
proof -
  have "double_mult a b = double_of_int (int (n * m))"
    using double_nearest_unique [OF double_mult_exact_nearest [OF assms(1,2)] double_of_nat_nearest] .
  then show ?thesis
    using exact_nat_of_nat [OF assms(3,4)] by simp
qed

lemma exact_powers_length: "length exact_powers_of_ten = 23"
  by (simp add: exact_powers_of_ten_def)

definition exact_power_ok :: "nat \<Rightarrow> double_bits \<Rightarrow> bool" where
  "exact_power_ok k p \<longleftrightarrow> (let n = unat p in n < 2047 * 2 ^ 52 \<and> 1022 \<le> enc_exp 52 n \<and> enc_sig 52 n * 2 ^ (enc_exp 52 n - 1022) = 10 ^ k * 2 ^ 52)"

lemma exact_powers_ok: "list_all (\<lambda>(k, p). exact_power_ok k p) (zip [0..<23] exact_powers_of_ten)"
  by (simp add: exact_powers_of_ten_def exact_power_ok_def enc_exp_def enc_sig_def upt_rec)

lemma exact_power:
  assumes "k < 23"
  shows "exact_nat (exact_powers_of_ten ! k) (10 ^ k)"
proof -
  define p where "p = exact_powers_of_ten ! k"
  have "exact_power_ok k p"
    using exact_powers_ok assms by (auto simp: list_all_length exact_powers_length p_def dest!: spec [of _ k])
  then have n: "unat p < 2047 * 2 ^ 52" "1022 \<le> enc_exp 52 (unat p)"
    and eq: "enc_sig 52 (unat p) * 2 ^ (enc_exp 52 (unat p) - 1022) = 10 ^ k * 2 ^ 52"
    by (simp_all add: exact_power_ok_def Let_def)
  have fin: "double_finite_pos p"
    using n(1) by (simp add: double_finite_pos_iff)
  have "enc_exp 52 (unat p) = (enc_exp 52 (unat p) - 1022) + 1022"
    using n(2) by simp
  then have "enc_val 52 (unat p) = enc_sig 52 (unat p) * 2 ^ ((enc_exp 52 (unat p) - 1022) + 1022)"
    by (simp only: enc_val_def)
  also have "\<dots> = 10 ^ k * 2 ^ 52 * 2 ^ 1022"
    unfolding power_add mult.assoc [symmetric] eq ..
  also have "\<dots> = 10 ^ k * 2 ^ (52 + 1022)"
    by (simp only: power_add mult.assoc)
  also have "\<dots> = 10 ^ k * unit_scale"
    unfolding unit_scale_def by (rule arg_cong [where f = "\<lambda>i. 10 ^ k * 2 ^ i"]) simp
  finally have "double_magnitude p = 10 ^ k * unit_scale"
    using n(1) by (simp add: double_magnitude_def)
  then show ?thesis
    using fin unfolding exact_nat_def p_def [symmetric]
    by (auto simp: double_finite_def double_finite_pos_def double_neg_def IsSpecial_def IsNan_def IsInfinite_def)
qed

section \<open>Short inputs\<close>

theorem DoubleStrtod_wp:
  assumes t: "trimmed_digits t" and "t \<noteq> []"
  shows "wp (DoubleStrtod t e) (\<lambda>r. \<forall>d. r = Some d \<longrightarrow> double_nearest (real (dec_value t) * 10 powi e) d)"
proof (cases "int (length t) \<le> kMaxExactDoubleIntegerDecimalDigits")
  case False
  then show ?thesis
    by (simp add: DoubleStrtod_def)
next
  case True
  then have len: "length t \<le> 15"
    by (simp add: kMaxExactDoubleIntegerDecimalDigits_def)
  have digits: "\<forall>c\<in>set t. is_digit c"
    using t by (simp add: trimmed_digits_def)
  define n where "n = dec_value t"
  have "0 < (10 :: nat) ^ (length t - 1)"
    by simp
  then have pos: "0 < n"
    using trimmed_bounds(1) [OF assms] by (simp only: n_def)
  have small: "n * 10 ^ (15 - length t) < 10 ^ 15"
  proof -
    have "n * 10 ^ (15 - length t) < 10 ^ length t * 10 ^ (15 - length t)"
      using trimmed_bounds(2) [OF assms] by (simp add: n_def)
    then show ?thesis
      using len by (simp flip: power_add)
  qed
  have "n * 1 \<le> n * 10 ^ (15 - length t)"
    by (rule mult_le_mono2) simp
  then have "n * 1 < 10 ^ 15"
    using small by (rule le_less_trans)
  then have n53: "n \<le> 2 ^ 53" "n * 10 ^ (15 - length t) \<le> 2 ^ 53"
    using small by simp_all
  obtain w where read: "ReadUint64 t = Some (w, length t)" "unat w = n"
    using ReadUint64_short [OF digits] len by (auto simp: n_def elim: wp_pairE)
  have w: "uint w = int n"
    by (metis read(2) uint_nat)
  note exact = exact_nat_of_nat [OF pos n53(1)]
  have size: "kExactPowersOfTenSize = 23"
    by (simp add: kExactPowersOfTenSize_def exact_powers_length)
  have rd: "rd exact_powers_of_ten k = Some (exact_powers_of_ten ! k)" if "k < 23" for k
    using that by (simp add: rd_def exact_powers_length)
  have ten: "real (10 ^ nat i) = 10 powi i" if "0 \<le> i" for i
    using that by (simp add: power_int_def)
  show ?thesis
  proof (cases "e < 0 \<and> - e < 23")
    case neg: True
    then have k: "nat (- e) < 23"
      by (simp add: nat_less_iff)
    have "double_nearest (real n / real (10 ^ nat (- e))) (double_div (double_of_int (int n)) (exact_powers_of_ten ! nat (- e)))"
      by (rule double_div_exact_nearest [OF exact exact_power [OF k]]) simp
    moreover have "real n / real (10 ^ nat (- e)) = real (dec_value t) * 10 powi e"
    proof -
      have "real (10 ^ nat (- e)) = 10 powi (- e)"
        by (rule ten) (use neg in simp)
      then show ?thesis
        by (simp only: n_def) (simp add: power_int_minus field_simps)
    qed
    ultimately show ?thesis
      using True neg rd [OF k] by (simp add: DoubleStrtod_def size read w wp_simps)
  next
    case not_neg: False
    show ?thesis
    proof (cases "0 \<le> e \<and> e < 23")
      case mid: True
      then have k: "nat e < 23"
        by (simp add: nat_less_iff)
      have "double_nearest (real (n * 10 ^ nat e)) (double_mult (double_of_int (int n)) (exact_powers_of_ten ! nat e))"
        by (rule double_mult_exact_nearest [OF exact exact_power [OF k]])
      moreover have "real (n * 10 ^ nat e) = real (dec_value t) * 10 powi e"
        using mid by (simp only: of_nat_mult ten n_def)
      ultimately show ?thesis
        using True mid rd [OF k] by (simp add: DoubleStrtod_def size read w wp_simps)
    next
      case big: False
      define r where "r = 15 - int (length t)"
      show ?thesis
      proof (cases "0 \<le> e \<and> e - r < 23")
        case fits: True
        then have k: "nat r < 23" "nat (e - r) < 23" "0 \<le> r" "0 \<le> e - r" "nat r = 15 - length t"
          using len big not_neg by (auto simp: r_def nat_less_iff)
        have "exact_nat (double_mult (double_of_int (int n)) (exact_powers_of_ten ! nat r)) (n * 10 ^ nat r)"
          by (rule exact_nat_mult [OF exact exact_power [OF k(1)]]) (use pos n53(2) in \<open>simp_all add: k(5)\<close>)
        from double_mult_exact_nearest [OF this exact_power [OF k(2)]]
        have "double_nearest (real (n * 10 ^ nat r * 10 ^ nat (e - r)))
            (double_mult (double_mult (double_of_int (int n)) (exact_powers_of_ten ! nat r)) (exact_powers_of_ten ! nat (e - r)))" .
        moreover have "real (n * 10 ^ nat r * 10 ^ nat (e - r)) = real (dec_value t) * (10 powi r * 10 powi (e - r))"
          using ten [OF k(3)] ten [OF k(4)] by (simp only: of_nat_mult n_def mult.assoc)
        moreover have "(10 :: real) powi r * 10 powi (e - r) = 10 powi e"
          by (simp flip: power_int_add)
        ultimately show ?thesis
          using True fits big not_neg rd [OF k(1)] rd [OF k(2)]
          by (simp add: DoubleStrtod_def size read w wp_simps Let_def kMaxExactDoubleIntegerDecimalDigits_def r_def [symmetric])
      next
        case no: False
        then show ?thesis
          using True big not_neg
          by (auto simp: DoubleStrtod_def size Let_def kMaxExactDoubleIntegerDecimalDigits_def r_def [symmetric])
      qed
    qed
  qed
qed

end
