(* ===== verification/Diy_Rounding.thy ===== *)
theory Diy_Rounding
  imports Strtod_Guess
begin

unbundle bit_operations_syntax

declare of_nat_unat [simp del]

text \<open>
  From a \<open>DiyFp\<close> back to a double, at the end of \<open>DiyFpStrtod\<close>: the pattern that a 53 bit
  significand and an exponent make, the midpoints around it, and the conversion with its overflow to
  the next binade and to infinity.
\<close>

section \<open>The midpoints around a pattern\<close>

definition piece :: "nat \<Rightarrow> nat \<Rightarrow> nat" where
  "piece e g = e * 2 ^ 52 + g"

lemma piece_exponent:
  assumes "e = 0 \<or> 2 ^ 52 \<le> g"
  shows "e \<le> enc_exp 52 (piece e g)" and "e \<le> enc_exp 52 (Suc (piece e g))" and "e \<le> Suc (enc_exp 52 (piece e g - 1))"
proof -
  have "e * 2 ^ 52 + 2 ^ 52 \<le> piece e g" if "e \<noteq> 0"
    using assms that by (simp add: piece_def)
  then have "e + 1 \<le> piece e g div 2 ^ 52" "e \<le> (piece e g - 1) div 2 ^ 52" "e + 1 \<le> Suc (piece e g) div 2 ^ 52" if "e \<noteq> 0"
    using that by (simp_all add: less_eq_div_iff_mult_less_eq)
  then show "e \<le> enc_exp 52 (piece e g)" "e \<le> enc_exp 52 (Suc (piece e g))" "e \<le> Suc (enc_exp 52 (piece e g - 1))"
    by (cases "e = 0"; simp add: enc_exp_def; linarith)+
qed

lemma enc_real_piece:
  assumes "e = 0 \<or> 2 ^ 52 \<le> g" and "g \<le> 2 ^ 53"
  shows "enc_real 52 kDenormalExponent (piece e g) = real g * 2 powi (int e + kDenormalExponent)"
  using enc_val_piece' [of g 52 e] assms by (simp add: enc_real_def piece_def two_powi_add)

lemma enc_real_Suc: "enc_real p den (Suc n) = enc_real p den n + 2 powi (int (enc_exp p n) + den)"
  by (simp add: enc_real_def enc_val_Suc two_powi_add algebra_simps)

lemma piece_midpoints:
  assumes "e = 0 \<or> 2 ^ 52 \<le> g" and "g < 2 ^ 53"
  defines "u \<equiv> 2 powi (int e + kDenormalExponent)"
  shows "mid_real 52 kDenormalExponent (piece e g) = (real g + 1 / 2) * u"
    and "0 < piece e g \<Longrightarrow> mid_real 52 kDenormalExponent (piece e g - 1) \<le> (real g - 1 / 4) * u"
    and "(real g + 3 / 2) * u \<le> mid_real 52 kDenormalExponent (Suc (piece e g))"
proof -
  have k: "enc_real 52 kDenormalExponent (piece e g) = real g * u"
    using enc_real_piece [OF assms(1)] assms(2) by (simp add: u_def)
  have "Suc (piece e g) = piece e (Suc g)"
    by (simp add: piece_def)
  then have k1: "enc_real 52 kDenormalExponent (Suc (piece e g)) = (real g + 1) * u"
    using enc_real_piece [of e "Suc g"] assms(1,2) by (auto simp: u_def)
  show "mid_real 52 kDenormalExponent (piece e g) = (real g + 1 / 2) * u"
    by (simp add: mid_real_def k k1 field_simps)
  have "u \<le> 2 powi (int (enc_exp 52 (Suc (piece e g))) + kDenormalExponent)"
    unfolding u_def using piece_exponent(2) [OF assms(1)] by (intro power_int_increasing) simp_all
  then show "(real g + 3 / 2) * u \<le> mid_real 52 kDenormalExponent (Suc (piece e g))"
    by (simp add: mid_real_def enc_real_Suc [of _ _ "Suc (piece e g)"] k1 algebra_simps)
  assume pos: "0 < piece e g"
  have "u / 2 = 2 powi (int e - 1 + kDenormalExponent)"
    by (simp add: u_def power_int_diff two_powi_add)
  also have "\<dots> \<le> 2 powi (int (enc_exp 52 (piece e g - 1)) + kDenormalExponent)"
    using piece_exponent(3) [OF assms(1)] by (intro power_int_increasing) simp_all
  finally have "u / 2 \<le> 2 powi (int (enc_exp 52 (piece e g - 1)) + kDenormalExponent)" .
  moreover have "enc_real 52 kDenormalExponent (piece e g) = enc_real 52 kDenormalExponent (piece e g - 1) +
      2 powi (int (enc_exp 52 (piece e g - 1)) + kDenormalExponent)"
    using enc_real_Suc [of 52 kDenormalExponent "piece e g - 1"] pos by simp
  ultimately have step: "u / 2 \<le> real g * u - enc_real 52 kDenormalExponent (piece e g - 1)"
    using k by linarith
  show "mid_real 52 kDenormalExponent (piece e g - 1) \<le> (real g - 1 / 4) * u"
  proof -
    define a where "a = enc_real 52 kDenormalExponent (piece e g - 1)"
    define b where "b = real g * u"
    have "mid_real 52 kDenormalExponent (piece e g - 1) = (a + b) / 2"
      using pos by (simp add: mid_real_def k a_def b_def)
    moreover have "(real g - 1 / 4) * u = b - u / 4"
      by (simp add: b_def algebra_simps)
    moreover have "u / 2 \<le> b - a"
      using step by (simp add: a_def b_def)
    ultimately show ?thesis
      by simp
  qed
qed

section \<open>The conversion\<close>

lemma DiyFpToUint64_infinity:
  assumes "unat f < 2 ^ 53" and "kMaxExponent \<le> e"
  shows "DiyFpToUint64 (DiyFp f e) = Some kInfinity"
proof -
  have "unat (kHiddenBit + kSignificandMask) = 2 ^ 53 - 1"
    by (simp add: kHiddenBit_def kSignificandMask_def)
  then have "\<not> kHiddenBit + kSignificandMask < f"
    using assms(1) by (simp add: word_less_nat_alt)
  then show ?thesis
    using assms(2) by (simp add: DiyFpToUint64_def while_opt.simps)
qed

lemma DiyFpToUint64_underflow:
  assumes "unat f < 2 ^ 53" and "e < kDenormalExponent"
  shows "DiyFpToUint64 (DiyFp f e) = Some 0"
proof -
  have "unat (kHiddenBit + kSignificandMask) = 2 ^ 53 - 1"
    by (simp add: kHiddenBit_def kSignificandMask_def)
  then have "\<not> kHiddenBit + kSignificandMask < f"
    using assms(1) by (simp add: word_less_nat_alt)
  then show ?thesis
    using assms(2) by (simp add: DiyFpToUint64_def while_opt.simps kMaxExponent_def kDenormalExponent_def)
qed

lemma DiyFpToUint64_top:
  assumes "unat f = 2 ^ 53"
  shows "DiyFpToUint64 (DiyFp f e) = DiyFpToUint64 (DiyFp 0x10000000000000 (e + 1))"
proof -
  have "f = 0x20000000000000"
    using assms by (simp add: word_unat_eq_iff)
  moreover have "drop_bit 1 (0x20000000000000 :: u64) = 0x10000000000000"
    by (simp add: word_unat_eq_iff unat_drop)
  ultimately show ?thesis
    by (simp add: DiyFpToUint64_def while_opt.simps [of _ _ "(_ :: u64, _ :: int)"] kHiddenBit_def kSignificandMask_def)
qed

lemma DiyFpToUint64_piece_less:
  assumes "unat f < 2 ^ 53" and "e = 0 \<or> 2 ^ 52 \<le> unat f"
  shows "wp (DiyFpToUint64 (DiyFp f (int e + kDenormalExponent))) (\<lambda>r. unat r = min (piece e (unat f)) kInfinityBits)"
proof (cases "kMaxExponent \<le> int e + kDenormalExponent")
  case True
  then have "2046 \<le> e"
    by (simp add: kMaxExponent_def kDenormalExponent_def)
  then have "2046 * 2 ^ 52 + 2 ^ 52 \<le> piece e (unat f)"
    unfolding piece_def using assms(2) by (intro add_mono mult_le_mono1) auto
  then show ?thesis
    using DiyFpToUint64_infinity [OF assms(1) True] by (simp add: double_infinity kInfinityBits_def)
next
  case False
  have "wp (DiyFpToUint64 (DiyFp f (int e + kDenormalExponent))) (\<lambda>d. double_finite_pos d \<and>
      double_value d = diy_value (DiyFp f (int e + kDenormalExponent)))"
    by (rule DiyFpToUint64_wp) (use assms(1) False in simp_all)
  then show ?thesis
  proof (rule wp_mono, elim conjE)
    fix d
    assume d: "double_finite_pos d" "double_value d = diy_value (DiyFp f (int e + kDenormalExponent))"
    then have "enc_real 52 kDenormalExponent (unat d) = enc_real 52 kDenormalExponent (piece e (unat f))"
      using enc_real_piece [OF assms(2)] assms(1) by (simp add: double_value_def double_finite_pos_def)
    then have "unat d = piece e (unat f)"
      by (simp add: enc_real_def enc_val_inject)
    then show "unat d = min (piece e (unat f)) kInfinityBits"
      using d(1) by (simp add: double_finite_pos_iff kInfinityBits_def)
  qed
qed

theorem Double_of_DiyFp_piece:
  assumes "unat f \<le> 2 ^ 53" and "e = 0 \<or> 2 ^ 52 \<le> unat f"
  shows "wp (Double_of_DiyFp (DiyFp f (int e + kDenormalExponent))) (\<lambda>r. unat r = min (piece e (unat f)) kInfinityBits)"
proof (cases "unat f = 2 ^ 53")
  case True
  have same: "piece (Suc e) (2 ^ 52) = piece e (unat f)"
    by (simp add: piece_def True)
  have "DiyFpToUint64 (DiyFp f (int e + kDenormalExponent)) =
      DiyFpToUint64 (DiyFp 0x10000000000000 (int (Suc e) + kDenormalExponent))"
    using DiyFpToUint64_top [OF True, of "int e + kDenormalExponent"] by (simp add: ac_simps)
  then show ?thesis
    using DiyFpToUint64_piece_less [where f = "0x10000000000000" and e = "Suc e"] same
    by (simp add: Double_of_DiyFp_def)
next
  case False
  then show ?thesis
    using DiyFpToUint64_piece_less [OF _ assms(2)] assms(1) by (simp add: Double_of_DiyFp_def)
qed

end
