(* ===== verification/Diy_Error.thy ===== *)
theory Diy_Error
  imports Strtod_Guess Diy_Rounding
begin

unbundle bit_operations_syntax

declare of_nat_unat [simp del]

text \<open>
  The error accounting of \<open>DiyFpStrtod\<close> in \<open>strtod.cc\<close>.  An error is a number of eighths of a unit in
  the last place (\<open>kDenominator\<close> is 8); each step of the function widens the bound by what the step can
  lose.
\<close>

definition near :: "nat \<Rightarrow> diy_fp \<Rightarrow> real \<Rightarrow> bool" where
  "near n v x \<longleftrightarrow> \<bar>x - diy_value v\<bar> \<le> real n / 8 * 2 powi dfp_e v"

definition nearer :: "nat \<Rightarrow> diy_fp \<Rightarrow> real \<Rightarrow> bool" where
  "nearer n v x \<longleftrightarrow> \<bar>x - diy_value v\<bar> < real n / 8 * 2 powi dfp_e v"

lemma near_0: "near 0 v x \<longleftrightarrow> x = diy_value v"
  by (simp add: near_def)

lemma unat_real_less: "real (unat (f :: u64)) < 2 ^ 64"
proof -
  have "unat f < 2 ^ 64"
    by simp
  then show ?thesis
    by (metis of_nat_less_iff of_nat_numeral of_nat_power)
qed

section \<open>Products\<close>

lemma near_exact_power:
  assumes "near n v x" and "diy_value a = A"
  shows "near (n + 4) (Multiply v a) (x * A)"
proof -
  define s :: real where "s = 2 powi (dfp_e v + dfp_e a + 64)"
  have s: "0 < s" "2 powi dfp_e v * 2 powi dfp_e a * 2 ^ 64 = s" "2 powi (dfp_e v + dfp_e a + 63) = s / 2"
    by (simp_all add: s_def power_int_add)
  have A: "A = real (unat (dfp_f a)) * 2 powi dfp_e a" "0 \<le> A"
    using assms(2) by (simp_all add: diy_value_def flip: assms(2))
  have "\<bar>x * A - diy_value v * A\<bar> = \<bar>x - diy_value v\<bar> * A"
    using A(2) by (simp add: abs_mult flip: left_diff_distrib)
  also have "\<dots> \<le> real n / 8 * 2 powi dfp_e v * A"
    using assms(1) A(2) by (intro mult_right_mono) (simp_all add: near_def)
  also have "\<dots> \<le> real n / 8 * 2 powi dfp_e v * (2 ^ 64 * 2 powi dfp_e a)"
    unfolding A(1) using less_imp_le [OF unat_real_less [of "dfp_f a"]] by (intro mult_left_mono mult_right_mono) simp_all
  also have "\<dots> = real n / 8 * s"
    by (simp add: s(2) [symmetric])
  finally have 1: "\<bar>x * A - diy_value v * A\<bar> \<le> real n / 8 * s" .
  have "\<bar>diy_value (Multiply v a) - diy_value v * A\<bar> \<le> s / 2"
    using Multiply_error [of v a] by (simp add: s(3) assms(2))
  with 1 have "\<bar>x * A - diy_value (Multiply v a)\<bar> \<le> real n / 8 * s + s / 2"
    by linarith
  then show ?thesis
    by (simp add: near_def s_def field_simps)
qed

lemma nearer_cached_power:
  assumes "near n v x" and p: "\<bar>diy_value p - A\<bar> \<le> 2 powi dfp_e p / 2" and "0 \<le> A"
  shows "nearer (n + 8) (Multiply v p) (x * A)"
proof -
  define s :: real where "s = 2 powi (dfp_e v + dfp_e p + 64)"
  have s: "0 < s" "2 powi dfp_e v * 2 powi dfp_e p * 2 ^ 64 = s" "2 powi (dfp_e v + dfp_e p + 63) = s / 2"
    by (simp_all add: s_def power_int_add)
  have pos: "0 < (2 :: real) powi dfp_e v" "0 < (2 :: real) powi dfp_e p"
    by simp_all
  have "real (unat (dfp_f p)) \<le> 2 ^ 64 - 1"
  proof -
    have "unat (dfp_f p) + 1 \<le> 2 ^ 64"
      using unat_lt64 [of "dfp_f p"] by (simp add: Suc_le_eq)
    then have "real (unat (dfp_f p) + 1) \<le> 2 ^ 64"
      by (metis of_nat_le_iff of_nat_numeral of_nat_power)
    then show ?thesis
      by simp
  qed
  then have "diy_value p \<le> (2 ^ 64 - 1) * 2 powi dfp_e p"
    unfolding diy_value_def using pos(2) by (intro mult_right_mono) simp_all
  then have A: "A \<le> 2 ^ 64 * 2 powi dfp_e p"
  proof -
    define P :: real where "P = 2 powi dfp_e p"
    have "0 < P" "diy_value p \<le> 2 ^ 64 * P - P" "\<bar>diy_value p - A\<bar> \<le> P / 2"
      using pos(2) p \<open>diy_value p \<le> (2 ^ 64 - 1) * 2 powi dfp_e p\<close> by (simp_all add: P_def algebra_simps)
    then show ?thesis
      unfolding P_def [symmetric] by linarith
  qed
  have "\<bar>x * A - diy_value v * A\<bar> = \<bar>x - diy_value v\<bar> * A"
    using assms(3) by (simp add: abs_mult flip: left_diff_distrib)
  also have "\<dots> \<le> (real n / 8 * 2 powi dfp_e v) * (2 ^ 64 * 2 powi dfp_e p)"
    using assms(1,3) A by (intro mult_mono) (simp_all add: near_def)
  also have "\<dots> = real n / 8 * s"
    by (simp add: s(2) [symmetric])
  finally have 1: "\<bar>x * A - diy_value v * A\<bar> \<le> real n / 8 * s" .
  have "\<bar>diy_value v * A - diy_value v * diy_value p\<bar> = diy_value v * \<bar>diy_value p - A\<bar>"
    by (simp add: abs_mult diy_value_def abs_minus_commute flip: right_diff_distrib)
  also have "\<dots> \<le> diy_value v * (2 powi dfp_e p / 2)"
    using p by (intro mult_left_mono) (simp_all add: diy_value_def)
  also have "\<dots> < 2 ^ 64 * 2 powi dfp_e v * (2 powi dfp_e p / 2)"
    unfolding diy_value_def using unat_real_less [of "dfp_f v"] pos by (intro mult_strict_right_mono) simp_all
  also have "\<dots> = s / 2"
    by (simp add: s(2) [symmetric])
  finally have 2: "\<bar>diy_value v * A - diy_value v * diy_value p\<bar> < s / 2" .
  have "\<bar>diy_value (Multiply v p) - diy_value v * diy_value p\<bar> \<le> s / 2"
    using Multiply_error [of v p] by (simp add: s(3))
  with 1 2 have "\<bar>x * A - diy_value (Multiply v p)\<bar> < real n / 8 * s + s / 2 + s / 2"
    by linarith
  then show ?thesis
    by (simp add: nearer_def s_def field_simps)
qed

section \<open>Normalisation\<close>

lemma normalize_with_error_wp:
  assumes "dfp_f v \<noteq> 0" and err: "unat err = 0 \<or> unat err \<le> unat (dfp_f v)"
  shows "wp (normalize_with_error v err) (\<lambda>(v', err'). \<exists>k. unat (dfp_f v') = unat (dfp_f v) * 2 ^ k \<and>
    dfp_e v' = dfp_e v - int k \<and> 2 ^ 63 \<le> unat (dfp_f v') \<and> unat err' = unat err * 2 ^ k)"
proof -
  obtain v' k where v': "Normalize v = Some v'" "unat (dfp_f v') = unat (dfp_f v) * 2 ^ k" "dfp_e v' = dfp_e v - int k"
      "2 ^ 63 \<le> unat (dfp_f v')"
    using Normalize_wp [OF assms(1)] by (rule wpE) blast
  have pos: "1 \<le> unat (dfp_f v)"
    using assms(1) by (simp add: unat_eq_zero Suc_le_eq)
  then have "2 ^ k \<le> unat (dfp_f v) * 2 ^ k"
    by simp
  also have "\<dots> < 2 ^ 64"
    using unat_lt64 [of "dfp_f v'"] v'(2) by simp
  finally have "(2 :: nat) ^ k < 2 ^ 64" .
  then have k: "k < 64"
    by (simp only: power_strict_increasing_iff)
  have "unat err * 2 ^ k \<le> unat (dfp_f v) * 2 ^ k"
    using err by auto
  also have "\<dots> < 2 ^ 64"
    using unat_lt64 [of "dfp_f v'"] v'(2) by simp
  finally have "unat (push_bit k err) = unat err * 2 ^ k"
    by (intro unat_push) simp
  then show ?thesis
    using v' k by (auto simp: normalize_with_error_def wp_simps)
qed

lemma scaled_nearer:
  assumes "nearer n v x" and "unat (dfp_f v') = unat (dfp_f v) * 2 ^ k" and "dfp_e v' = dfp_e v - int k"
  shows "nearer (n * 2 ^ k) v' x"
proof -
  have "(2 :: real) powi dfp_e v = 2 powi (dfp_e v' + int k)"
    by (simp add: assms(3))
  then show ?thesis
    using assms(1) scaled_value [OF assms(2,3)] by (simp add: nearer_def two_powi_add ac_simps)
qed

lemma scaled_near:
  assumes "near n v x" and "unat (dfp_f v') = unat (dfp_f v) * 2 ^ k" and "dfp_e v' = dfp_e v - int k"
  shows "near (n * 2 ^ k) v' x"
proof -
  have "(2 :: real) powi dfp_e v = 2 powi (dfp_e v' + int k)"
    by (simp add: assms(3))
  then show ?thesis
    using assms(1) scaled_value [OF assms(2,3)] by (simp add: near_def two_powi_add ac_simps)
qed

section \<open>The digits read\<close>

lemma real_digits_split:
  assumes "\<forall>c\<in>set t. is_digit c" and "i \<le> length t"
  shows "real (dec_value (take i t)) * 10 ^ (length t - i) \<le> real (dec_value t)"
    and "real (dec_value t) < (real (dec_value (take i t)) + 1) * 10 ^ (length t - i)"
proof -
  have eq: "dec_value t = dec_value (take i t) * 10 ^ (length t - i) + dec_value (drop i t)"
    using dec_value_append [of "take i t" "drop i t"] by simp
  have "dec_value (drop i t) < 10 ^ (length t - i)"
    using dec_value_less [of "drop i t"] assms(1) by (simp add: in_set_dropD)
  then have n: "dec_value (take i t) * 10 ^ (length t - i) \<le> dec_value t"
      "dec_value t < (dec_value (take i t) + 1) * 10 ^ (length t - i)"
    using eq by simp_all
  have "real (dec_value (take i t) * 10 ^ (length t - i)) \<le> real (dec_value t)"
      "real (dec_value t) < real ((dec_value (take i t) + 1) * 10 ^ (length t - i))"
    using n by (simp_all only: of_nat_le_iff of_nat_less_iff)
  then show "real (dec_value (take i t)) * 10 ^ (length t - i) \<le> real (dec_value t)"
      "real (dec_value t) < (real (dec_value (take i t)) + 1) * 10 ^ (length t - i)"
    by (simp_all add: algebra_simps)
qed

text \<open>The first unread digit says on which side of the middle the rest of the digits lies.\<close>

lemma read_digits_rounded:
  assumes t: "\<forall>c\<in>set t. is_digit c" and i: "i < length t"
  defines "y \<equiv> real (dec_value t) / 10 ^ (length t - i)"
  shows "digit_of (t ! i) < 5 \<Longrightarrow> \<bar>y - real (dec_value (take i t))\<bar> \<le> 1 / 2"
    and "5 \<le> digit_of (t ! i) \<Longrightarrow> \<bar>y - (real (dec_value (take i t)) + 1)\<bar> \<le> 1 / 2"
proof -
  define n where "n = length t - Suc i"
  define A where "A = real (dec_value (take i t))"
  have len: "length t - i = Suc n"
    using i by (simp add: n_def)
  have A: "real (dec_value (take (Suc i) t)) = A * 10 + real (digit_of (t ! i))"
    using i dec_value_append [of "take i t" "[t ! i]"] by (simp add: A_def take_Suc_conv_app_nth dec_value_Cons)
  define d where "d = real (digit_of (t ! i))"
  have d: "0 \<le> d" "d \<le> 9"
    using t i digit_of_le [of "t ! i"] by (simp_all add: d_def)
  have "real (dec_value (take (Suc i) t)) * 10 ^ n \<le> real (dec_value t)"
    "real (dec_value t) < (real (dec_value (take (Suc i) t)) + 1) * 10 ^ n"
    using real_digits_split [OF t, of "Suc i"] i by (simp_all add: n_def)
  then have y: "10 * A + d \<le> 10 * y" "10 * y < 10 * A + d + 1"
    unfolding A y_def len d_def by (simp_all add: field_simps)
  show "\<bar>y - real (dec_value (take i t))\<bar> \<le> 1 / 2" if "digit_of (t ! i) < 5"
  proof -
    have "d \<le> 4"
      using that by (simp add: d_def)
    then show ?thesis
      using y d unfolding A_def [symmetric] by (intro abs_leI) linarith+
  qed
  show "\<bar>y - (real (dec_value (take i t)) + 1)\<bar> \<le> 1 / 2" if "5 \<le> digit_of (t ! i)"
  proof -
    have "5 \<le> d"
      using that by (simp add: d_def)
    then show ?thesis
      using y d unfolding A_def [symmetric] by (intro abs_leI) linarith+
  qed
qed

theorem ReadDiyFp_wp:
  assumes t: "trimmed_digits t" "t \<noteq> []"
  shows "wp (ReadDiyFp t) (\<lambda>(v, r). dfp_e v = 0 \<and> 0 \<le> r \<and> r < int (length t) \<and> 0 < unat (dfp_f v) \<and>
    near (if r = 0 then 0 else 4) v (real (dec_value t) / 10 ^ nat r) \<and>
    (r = 0 \<or> 1844674407370955161 \<le> unat (dfp_f v)) \<and> (length t \<le> 19 \<longrightarrow> r = 0))"
proof -
  have digits: "\<forall>c\<in>set t. is_digit c"
    using t(1) by (simp add: trimmed_digits_def)
  obtain n i where read: "ReadUint64 t = Some (n, i)" and i: "i \<le> length t" "unat n = dec_value (take i t)"
      "unat n < 2 ^ 64 - 1" "i = length t \<or> 1844674407370955161 \<le> unat n" "length t \<le> 19 \<longrightarrow> i = length t"
  proof -
    obtain n i where 1: "ReadUint64 t = Some (n, i)" "i \<le> length t" "unat n = dec_value (take i t)"
      "unat n < 2 ^ 64 - 1" "i = length t \<or> 1844674407370955161 \<le> unat n"
      using ReadUint64_wp [OF digits] by (rule wp_pairE) auto
    moreover have "length t \<le> 19 \<longrightarrow> i = length t"
      using ReadUint64_short [OF digits] 1(1) by auto
    ultimately show thesis
      using that by blast
  qed
  show ?thesis
  proof (cases "length t = i")
    case True
    have "0 < dec_value t"
      using trimmed_bounds(1) [OF t] by (rule less_le_trans [rotated]) simp
    then show ?thesis
      using True i t(2) by (auto simp: ReadDiyFp_def read near_def)
  next
    case False
    then have less: "i < length t"
      using i(1) by simp
    then have c: "is_digit (t ! i)"
      using digits by simp
    define s where "s = (if code_of CHR ''5'' \<le> code_of (t ! i) then n + 1 else n)"
    have run: "ReadDiyFp t = Some (DiyFp s 0, int (length t) - int i)"
      using False less by (simp add: ReadDiyFp_def read rd_def s_def Let_def)
    have len: "nat (int (length t) - int i) = length t - i" "int (length t) - int i \<noteq> 0" "0 < int (length t) - int i"
      using less by simp_all
    have n: "1844674407370955161 \<le> unat n"
      using i(4) False by simp
    have "0 < i"
      using i(2) n by (cases i) simp_all
    have up: "unat (n + 1) = unat n + 1"
      using i(3) by (subst unat_plus) simp_all
    then have up_real: "real (unat (n + 1)) = real (unat n) + 1"
      by simp
    have five: "code_of CHR ''5'' \<le> code_of (t ! i) \<longleftrightarrow> 5 \<le> digit_of (t ! i)"
      using code_of_digit [OF c] by (simp add: code_of_def [of "CHR ''5''"])
    note sides = read_digits_rounded [OF digits less, folded i(2)]
    have "\<bar>real (dec_value t) / 10 ^ (length t - i) - real (unat s)\<bar> \<le> 1 / 2"
    proof (cases "5 \<le> digit_of (t ! i)")
      case True
      then show ?thesis
        using sides(2) by (simp only: s_def five if_True up_real)
    next
      case False
      then show ?thesis
        using sides(1) by (simp add: s_def five)
    qed
    moreover have "1844674407370955161 \<le> unat s"
      using n by (simp add: s_def up)
    ultimately show ?thesis
      unfolding run using \<open>0 < i\<close> less i(5) by (simp add: near_def len)
  qed
qed

section \<open>Powers of ten\<close>

lemma AdjustmentPowerOfTen_wp:
  assumes "0 < e" and "e < 8"
  shows "wp (AdjustmentPowerOfTen e) (\<lambda>a. 2 ^ 63 \<le> unat (dfp_f a) \<and> dfp_e a \<le> 0 \<and>
    unat (dfp_f a) = 10 ^ nat e * 2 ^ nat (- dfp_e a))"
proof -
  have "e \<in> {1, 2, 3, 4, 5, 6, 7}"
    using assms by auto
  then show ?thesis
    by (elim insertE) (simp_all add: AdjustmentPowerOfTen_def wp_simps kDecimalExponentDistance_def)
qed

lemma adjustment_value:
  assumes "unat (dfp_f a) = 10 ^ k * 2 ^ nat (- dfp_e a)" and "dfp_e a \<le> 0"
  shows "diy_value a = 10 ^ k"
proof -
  define n where "n = nat (- dfp_e a)"
  have "dfp_e a = - int n"
    using assms(2) by (simp add: n_def)
  then show ?thesis
    unfolding diy_value_def assms(1) n_def [symmetric] by (simp add: power_int_minus)
qed

text \<open>A product that fits 64 bits loses nothing.\<close>

lemma near_exact_product:
  assumes v: "unat (dfp_f v) = n * 2 ^ k" "2 ^ 63 \<le> unat (dfp_f v)"
    and a: "unat (dfp_f a) = m * 2 ^ l" "2 ^ 63 \<le> unat (dfp_f a)"
    and fits: "n * m < 2 ^ 64" "even (n * m)"
  shows "diy_value (Multiply v a) = diy_value v * diy_value a"
proof -
  define N where "N = n * m"
  have prod: "unat (dfp_f v) * unat (dfp_f a) = N * 2 ^ (k + l)"
    by (simp add: v(1) a(1) N_def power_add)
  have "(2 :: nat) ^ 63 * 2 ^ 63 \<le> unat (dfp_f v) * unat (dfp_f a)"
    using v(2) a(2) by (rule mult_le_mono)
  also have "\<dots> < 2 ^ 64 * 2 ^ (k + l)"
    unfolding prod using fits(1) by (simp add: N_def)
  finally have "(2 :: nat) ^ (63 + 63) < 2 ^ (64 + (k + l))"
    by (simp only: power_add)
  then have "63 + 63 < 64 + (k + l)"
    by (simp only: power_strict_increasing_iff)
  then have "64 \<le> Suc (k + l)"
    by simp
  then obtain j where j: "Suc (k + l) = 64 + j"
    using le_Suc_ex by blast
  obtain h where h: "N = 2 * h"
    using fits(2) by (auto simp: N_def)
  have "unat (dfp_f v) * unat (dfp_f a) = h * 2 ^ Suc (k + l)"
    by (simp add: prod h)
  also have "\<dots> = h * 2 ^ j * 2 ^ 64"
    by (simp only: j power_add ac_simps)
  finally have p: "unat (dfp_f v) * unat (dfp_f a) = h * 2 ^ j * 2 ^ 64" .
  have f: "unat (dfp_f (Multiply v a)) = h * 2 ^ j"
    unfolding Multiply_f p by (simp add: div_mult_self3)
  have "diy_value v * diy_value a = real (unat (dfp_f v) * unat (dfp_f a)) * 2 powi (dfp_e v + dfp_e a)"
    by (simp add: diy_value_def two_powi_add)
  also have "\<dots> = real (h * 2 ^ j) * 2 powi (dfp_e v + dfp_e a + 64)"
    unfolding p by (simp add: power_int_add)
  finally show ?thesis
    by (simp add: diy_value_def f)
qed

end
