(* ===== verification/Diy_Decision.thy ===== *)
theory Diy_Decision
  imports Diy_Error
begin

unbundle bit_operations_syntax

declare of_nat_unat [simp del]

text \<open>
  The end of \<open>DiyFpStrtod\<close>: whether the bits below the precision of a double, with their error, decide
  the rounding.  \<open>verdict x ok r\<close> is what its caller may rely on: a decided \<open>r\<close> is nearest, an
  undecided one is nearest or its successor is.
\<close>

definition verdict :: "real \<Rightarrow> bool \<Rightarrow> double_bits \<Rightarrow> bool" where
  "verdict x ok r \<longleftrightarrow> unat r \<le> kInfinityBits \<and> (ok \<or> unat r = kInfinityBits \<longrightarrow> double_nearest x r) \<and>
    (\<not> ok \<and> unat r < kInfinityBits \<longrightarrow> lower_ok 52 kDenormalExponent x (unat r) \<and> upper_ok 52 kDenormalExponent x (Suc (unat r)))"

lemma verdict_sure:
  assumes "lower_ok 52 kDenormalExponent x k" and "upper_ok 52 kDenormalExponent x k" and "unat r = min k kInfinityBits"
  shows "verdict x ok r"
proof -
  have n: "double_nearest x r"
    using nearest_capped [of 52 kDenormalExponent x k "unat r" kInfinityBits] assms by (simp add: nearest_def double_nearest_def)
  moreover have "upper_ok 52 kDenormalExponent x (Suc k)"
  proof -
    have "mid_real 52 kDenormalExponent k < mid_real 52 kDenormalExponent (Suc k)"
      by (rule mid_real_less) simp
    then show ?thesis
      using assms(2) by (auto simp: upper_ok_def)
  qed
  ultimately show ?thesis
    using assms by (auto simp: verdict_def double_nearest_def min_def split: if_splits)
qed

lemma verdict_unsure:
  assumes "lower_ok 52 kDenormalExponent x k" and "upper_ok 52 kDenormalExponent x (Suc k)" and "unat r = min k kInfinityBits"
  shows "verdict x False r"
proof (cases "k < kInfinityBits")
  case True
  then show ?thesis
    using assms by (simp add: verdict_def)
next
  case False
  then have r: "unat r = kInfinityBits"
    using assms(3) by simp
  then have "lower_ok 52 kDenormalExponent x (unat r)"
    using assms(1) False lower_ok_less [of 52 kDenormalExponent x k kInfinityBits] by (cases "k = kInfinityBits") simp_all
  then show ?thesis
    using r by (simp add: verdict_def double_nearest_def)
qed

section \<open>The three outcomes\<close>

lemma candidate_bounds:
  assumes x: "nearer n v x" and F: "unat (dfp_f v) = g * 2 ^ p + m" and u: "u = 2 powi (dfp_e v + int p)"
    and n: "n \<le> 2 * 2 ^ p" and m: "m < 2 ^ p"
  shows "(real g - 1 / 4) * u < x" and "x < (real g + 3 / 2) * u"
    and "8 * m + n \<le> 4 * 2 ^ p \<Longrightarrow> x < (real g + 1 / 2) * u"
    and "4 * 2 ^ p + n \<le> 8 * m \<Longrightarrow> (real g + 1 / 2) * u < x"
proof -
  define s :: real where "s = 2 powi dfp_e v"
  have s: "0 < s"
    by (simp add: s_def)
  have u_eq: "u = 2 ^ p * s" and u0: "0 < u"
    by (simp_all add: u s_def two_powi_add)
  have v_eq: "diy_value v = real g * u + real m * s"
    by (simp add: diy_value_def F s_def [symmetric] u_eq algebra_simps)
  have "\<bar>x - (real g * u + real m * s)\<bar> < real n / 8 * s"
    using x by (simp only: nearer_def v_eq s_def)
  then have "x - (real g * u + real m * s) < real n / 8 * s" "- (x - (real g * u + real m * s)) < real n / 8 * s"
    by (simp_all only: abs_less_iff)
  define gu M N where "gu = real g * u" and "M = real m * s" and "N = real n * s"
  have b: "8 * x < 8 * gu + 8 * M + N" "8 * gu + 8 * M - N < 8 * x"
    using \<open>x - _ < _\<close> \<open>- (x - _) < _\<close> by (simp_all add: gu_def M_def N_def)
  have scaled: "A \<le> B \<Longrightarrow> real A * s \<le> real B * s" for A B :: nat
    using s by (intro mult_right_mono) simp_all
  have "8 * m + n \<le> 10 * 2 ^ p"
    using n m by simp
  from scaled [OF this] have "8 * M + N \<le> 10 * u"
    by (simp add: u_eq M_def N_def algebra_simps)
  then show "x < (real g + 3 / 2) * u"
    using b(1) u0 unfolding distrib_right gu_def [symmetric] by simp
  have "n \<le> 2 * 2 ^ p + 8 * m"
    using n by simp
  from scaled [OF this] have "N \<le> 2 * u + 8 * M"
    by (simp add: u_eq M_def N_def algebra_simps)
  then show "(real g - 1 / 4) * u < x"
    using b(2) unfolding left_diff_distrib gu_def [symmetric] by simp
  show "x < (real g + 1 / 2) * u" if "8 * m + n \<le> 4 * 2 ^ p"
  proof -
    from scaled [OF that] have "8 * M + N \<le> 4 * u"
      by (simp add: u_eq M_def N_def algebra_simps)
    then show ?thesis
      using b(1) unfolding distrib_right gu_def [symmetric] by simp
  qed
  show "(real g + 1 / 2) * u < x" if "4 * 2 ^ p + n \<le> 8 * m"
  proof -
    from scaled [OF that] have "4 * u + N \<le> 8 * M"
      by (simp add: u_eq M_def N_def algebra_simps)
    then show ?thesis
      using b(2) unfolding distrib_right gu_def [symmetric] by simp
  qed
qed

lemma candidate_ok:
  assumes e: "e = 0 \<or> 2 ^ 52 \<le> g" and g: "g < 2 ^ 53" and u: "u = 2 powi (int e + kDenormalExponent)"
  shows "(real g - 1 / 4) * u < x \<Longrightarrow> lower_ok 52 kDenormalExponent x (piece e g)"
    and "x < (real g + 1 / 2) * u \<Longrightarrow> upper_ok 52 kDenormalExponent x (piece e g)"
    and "(real g + 1 / 2) * u < x \<Longrightarrow> lower_ok 52 kDenormalExponent x (Suc (piece e g))"
    and "x < (real g + 3 / 2) * u \<Longrightarrow> upper_ok 52 kDenormalExponent x (Suc (piece e g))"
  using piece_midpoints [OF e g, folded u]
  by (auto simp: lower_ok_def upper_ok_def intro: le_less_trans less_le_trans)

section \<open>The code\<close>

definition decide :: "diy_fp \<Rightarrow> u64 \<Rightarrow> int \<Rightarrow> (bool \<times> double_bits) option" where
  "decide input error precision_digits_count = do {
     ASSERT (kDiyFpSignificandSize = 64);
     ASSERT (precision_digits_count < 64);
     let one64 = 1;
     top \<leftarrow> shl one64 precision_digits_count;
     let precision_bits_mask = top - 1;
     let precision_bits = dfp_f input AND precision_bits_mask;
     half_way \<leftarrow> shl one64 (precision_digits_count - 1);
     let precision_bits = precision_bits * kDenominator;
     let half_way = half_way * kDenominator;
     f \<leftarrow> shr (dfp_f input) precision_digits_count;
     let rounded_input = DiyFp f (dfp_e input + precision_digits_count);
     let rounded_input =
       (if half_way + error \<le> precision_bits then rounded_input\<lparr>dfp_f := dfp_f rounded_input + 1\<rparr> else rounded_input);
     result \<leftarrow> Double_of_DiyFp rounded_input;
     Some (\<not> (half_way - error < precision_bits \<and> precision_bits < half_way + error), result) }"

definition precision_of :: "diy_fp \<Rightarrow> int" where
  "precision_of v = 64 - SignificandSizeForOrderOfMagnitude (64 + dfp_e v)"

lemma round_with_error_decide:
  assumes "precision_of v < 61"
  shows "round_with_error v err = decide v err (precision_of v)"
  using assms by (simp add: round_with_error_def decide_def precision_of_def kDiyFpSignificandSize_def kDenominatorLog_def Let_def)

lemma round_with_error_shift:
  assumes "61 \<le> precision_of v" and "precision_of v \<le> 64"
  shows "round_with_error v err = decide (DiyFp (drop_bit (nat (precision_of v - 60)) (dfp_f v)) (dfp_e v + (precision_of v - 60)))
    (drop_bit (nat (precision_of v - 60)) err + 1 + kDenominator) 60"
  using assms by (simp add: round_with_error_def decide_def precision_of_def kDiyFpSignificandSize_def kDenominatorLog_def Let_def)

text \<open>The words of \<open>decide\<close>.\<close>

lemma unat_numeral_8: "unat (8 :: u64) = 8"
  by simp

lemma len_num_64: "LENGTH(64) = 64"
  by simp

lemma decide_words:
  fixes f err :: u64
  assumes p: "0 < p" "p \<le> 60" and n: "unat err \<le> 2 * 2 ^ p"
  defines "bits \<equiv> (f AND (push_bit p 1 - 1)) * kDenominator" and "half \<equiv> push_bit (p - 1) 1 * kDenominator"
  shows "unat bits = 8 * (unat f mod 2 ^ p)"
    and "unat (half + err) = 4 * 2 ^ p + unat err" and "unat (half - err) = 4 * 2 ^ p - unat err"
proof -
  have top: "(2 :: nat) ^ p \<le> 2 ^ 60"
    using p(2) by (rule power_increasing) simp
  have "f AND (push_bit p 1 - 1) = f AND mask p"
    by (simp flip: mask_eq_exp_minus_1)
  then have m: "unat (f AND (push_bit p 1 - 1)) = unat f mod 2 ^ p"
    by (simp only: unat_and_mask)
  define M where "M = f AND (push_bit p 1 - 1)"
  have M: "unat M = unat f mod 2 ^ p"
    by (simp only: M_def m)
  have "unat M < 2 ^ p"
    unfolding M by simp
  then have "unat M * 8 < 2 ^ 64"
    using top by simp
  then show "unat bits = 8 * (unat f mod 2 ^ p)"
    unfolding bits_def M_def [symmetric] by (subst unat_times) (simp_all only: kDenominator_def unat_numeral_8 len_num_64 ac_simps M)
  obtain q where q: "p = Suc q"
    using p(1) gr0_implies_Suc by blast
  have "unat (push_bit q 1 :: u64) = 2 ^ q"
    using top q by (subst unat_push) simp_all
  then have h: "unat half = 4 * 2 ^ p"
    unfolding half_def q using top by (subst unat_times) (simp_all add: q kDenominator_def)
  show "unat (half + err) = 4 * 2 ^ p + unat err"
    using top n by (subst unat_plus) (simp_all add: h)
  show "unat (half - err) = 4 * 2 ^ p - unat err"
    using n by (subst unat_minus) (simp_all add: h)
qed

theorem decide_wp:
  assumes x: "nearer (unat err) v x" and p: "0 < p" "p \<le> 60" and err: "unat err \<le> 2 * 2 ^ p"
    and g: "unat (dfp_f v) div 2 ^ p < 2 ^ 53"
    and e: "dfp_e v + int p = int e + kDenormalExponent" "e = 0 \<or> 2 ^ 52 \<le> unat (dfp_f v) div 2 ^ p"
  shows "wp (decide v err (int p)) (\<lambda>(ok, r). verdict x ok r)"
proof -
  define f where "f = dfp_f v"
  define gw where "gw = drop_bit p f"
  define G m where "G = unat f div 2 ^ p" and "m = unat f mod 2 ^ p"
  define u :: real where "u = 2 powi (int e + kDenormalExponent)"
  define bits half where "bits = (f AND (push_bit p 1 - 1)) * kDenominator" and "half = push_bit (p - 1) 1 * kDenominator"
  note words = decide_words(1) [OF p err, where f = f, folded bits_def] decide_words(2,3) [OF p err, folded half_def]
  have F: "unat (dfp_f v) = G * 2 ^ p + m" and m: "m < 2 ^ p"
    by (simp_all add: G_def m_def f_def div_mult_mod_eq)
  have u: "u = 2 powi (dfp_e v + int p)"
    by (simp add: u_def e(1))
  note bounds = candidate_bounds [OF x F u err m]
  have G: "G < 2 ^ 53" "e = 0 \<or> 2 ^ 52 \<le> G"
    using g e(2) by (simp_all add: G_def f_def)
  note ok = candidate_ok [OF G(2,1) u_def, of x]
  have gw: "unat gw = G" "unat (gw + 1) = G + 1"
    using G(1) by (simp_all add: gw_def unat_drop G_def unat_plus)
  define w where "w = (if half + err \<le> bits then gw + 1 else gw)"
  have w: "unat w \<le> 2 ^ 53" "e = 0 \<or> 2 ^ 52 \<le> unat w"
    using G by (auto simp: w_def gw)
  obtain r where r: "Double_of_DiyFp (DiyFp w (int e + kDenormalExponent)) = Some r" "unat r = min (piece e (unat w)) kInfinityBits"
    using Double_of_DiyFp_piece [OF w] by (rule wpE)
  have "nat (int p) = p" "nat (int p - 1) = p - 1" "0 \<le> int p - 1" "int p - 1 < 64"
    using p by simp_all
  then have run: "decide v err (int p) = Some (\<not> (half - err < bits \<and> bits < half + err), r)"
    using p r(1) e(1) by (cases "half + err \<le> bits")
      (simp_all add: decide_def ASSERT_def kDiyFpSignificandSize_def Let_def w_def gw_def bits_def half_def f_def DiyFp_def)
  have cmp: "half + err \<le> bits \<longleftrightarrow> 4 * 2 ^ p + unat err \<le> 8 * m" "bits < half + err \<longleftrightarrow> 8 * m < 4 * 2 ^ p + unat err"
      "half - err < bits \<longleftrightarrow> 4 * 2 ^ p < 8 * m + unat err"
    using err unfolding word_nat_order words m_def by linarith+
  consider (up) "4 * 2 ^ p + unat err \<le> 8 * m" | (down) "8 * m + unat err \<le> 4 * 2 ^ p"
    | (unsure) "8 * m < 4 * 2 ^ p + unat err" "4 * 2 ^ p < 8 * m + unat err"
    by linarith
  then have "verdict x (\<not> (half - err < bits \<and> bits < half + err)) r"
  proof cases
    case up
    then have "unat r = min (Suc (piece e G)) kInfinityBits"
      using r(2) by (simp add: w_def cmp gw piece_def)
    then show ?thesis
      using verdict_sure [OF ok(3) [OF bounds(4) [OF up]] ok(4) [OF bounds(2)]] by simp
  next
    case down
    show ?thesis
    proof (cases "4 * 2 ^ p + unat err \<le> 8 * m")
      case True
      then have "unat r = min (Suc (piece e G)) kInfinityBits"
        using r(2) by (simp add: w_def cmp gw piece_def)
      then show ?thesis
        using verdict_sure [OF ok(3) [OF bounds(4) [OF True]] ok(4) [OF bounds(2)]] by simp
    next
      case False
      then have "unat r = min (piece e G) kInfinityBits"
        using r(2) by (simp add: w_def cmp gw)
      then show ?thesis
        using verdict_sure [OF ok(1) [OF bounds(1)] ok(2) [OF bounds(3) [OF down]]] by simp
    qed
  next
    case unsure
    then have "unat r = min (piece e G) kInfinityBits"
      using r(2) by (simp add: w_def cmp gw)
    then have "verdict x False r"
      using verdict_unsure [OF ok(1) [OF bounds(1)] ok(4) [OF bounds(2)]] by simp
    then show ?thesis
      using unsure by (simp add: cmp)
  qed
  then show ?thesis
    by (simp add: run)
qed

lemma decide_underflow:
  assumes "0 < p" and "p \<le> 60" and f: "unat (dfp_f v) div 2 ^ p < 2 ^ 52" and e: "dfp_e v + int p < kDenormalExponent"
  shows "wp (decide v err (int p)) (\<lambda>(ok, r). r = 0)"
proof -
  define gw where "gw = drop_bit p (dfp_f v)"
  have gw: "unat gw < 2 ^ 53" "unat (gw + 1) < 2 ^ 53"
    using f by (simp_all add: gw_def unat_drop unat_plus)
  have zero: "Double_of_DiyFp (DiyFp gw (dfp_e v + int p)) = Some 0" "Double_of_DiyFp (DiyFp (gw + 1) (dfp_e v + int p)) = Some 0"
    using DiyFpToUint64_underflow [OF gw(1) e] DiyFpToUint64_underflow [OF gw(2) e] by (simp_all add: Double_of_DiyFp_def)
  have "nat (int p) = p" "nat (int p - 1) = p - 1" "0 \<le> int p - 1" "int p - 1 < 64"
    using assms(1,2) by simp_all
  then show ?thesis
    using assms(1,2) zero by (simp add: decide_def ASSERT_def kDiyFpSignificandSize_def Let_def gw_def DiyFp_def)
qed

section \<open>Rounding with an error\<close>

lemma nearer_dropped:
  assumes x: "nearer n v x" and f: "unat f = unat (dfp_f v) div 2 ^ s" and n': "n' = n div 2 ^ s + 9"
  shows "nearer n' (DiyFp f (dfp_e v + int s)) x"
proof -
  define t :: real where "t = 2 powi dfp_e v"
  define q r where "q = unat (dfp_f v) div 2 ^ s" and "r = unat (dfp_f v) mod 2 ^ s"
  have t: "0 < t"
    by (simp add: t_def)
  have F: "unat (dfp_f v) = q * 2 ^ s + r" and r: "r < 2 ^ s"
    by (simp_all add: q_def r_def div_mult_mod_eq)
  have "n mod 2 ^ s < 2 ^ s" "n div 2 ^ s * 2 ^ s + n mod 2 ^ s = n"
    by (simp_all add: div_mult_mod_eq)
  then have "n + 8 * r \<le> n div 2 ^ s * 2 ^ s + 9 * 2 ^ s"
    using r by linarith
  then have "n + 8 * r \<le> n' * 2 ^ s"
    by (simp add: n' algebra_simps)
  then have "real (n + 8 * r) \<le> real (n' * 2 ^ s)"
    by (simp only: of_nat_le_iff)
  then have "real (n + 8 * r) * t \<le> real (n' * 2 ^ s) * t"
    using t by (intro mult_right_mono) simp_all
  then have le: "real n * t + 8 * (real r * t) \<le> real n' * (2 ^ s * t)"
    by (simp add: algebra_simps)
  define d where "d = x - diy_value v"
  have v: "diy_value v = real q * (2 ^ s * t) + real r * t"
    by (simp add: diy_value_def F t_def algebra_simps)
  have "x - diy_value (DiyFp f (dfp_e v + int s)) = d + real r * t"
    by (simp add: d_def v f q_def [symmetric] t_def two_powi_add)
  moreover have "\<bar>d\<bar> < real n / 8 * t"
    using x by (simp add: nearer_def d_def t_def)
  moreover have "0 \<le> real r * t"
    using t by simp
  ultimately have "\<bar>x - diy_value (DiyFp f (dfp_e v + int s))\<bar> < real n / 8 * t + real r * t"
    by linarith
  also have "\<dots> \<le> real n' / 8 * (2 ^ s * t)"
    using le by simp
  finally show ?thesis
    by (simp add: nearer_def t_def two_powi_add ac_simps)
qed

lemma round_with_error_normal:
  assumes "2 ^ 63 \<le> unat (dfp_f v)" and x: "nearer (unat err) v x" and err: "unat err \<le> 512"
    and o: "- 1021 \<le> 64 + dfp_e v"
  shows "wp (round_with_error v err) (\<lambda>(ok, r). verdict x ok r)"
proof -
  define e where "e = nat (dfp_e v + 11 + 1074)"
  have p: "precision_of v = int 11"
    using o by (simp add: precision_of_def SignificandSizeForOrderOfMagnitude_def kDenormalExponent_eq kSignificandSize_def)
  have "2 ^ 52 \<le> unat (dfp_f v) div 2 ^ 11" "unat (dfp_f v) div 2 ^ 11 < 2 ^ 53"
    using assms(1) div_le_mono [of "2 ^ 63" "unat (dfp_f v)" "2 ^ 11"] unat_lt64 [of "dfp_f v"] by (simp_all add: less_mult_imp_div_less)
  moreover have "dfp_e v + int 11 = int e + kDenormalExponent"
    using o by (simp add: e_def kDenormalExponent_eq)
  ultimately have "wp (decide v err (int 11)) (\<lambda>(ok, r). verdict x ok r)"
    using err by (intro decide_wp [OF x]) simp_all
  then show ?thesis
    using round_with_error_decide [of v err] by (simp add: p)
qed

lemma round_with_error_denormal:
  assumes x: "nearer (unat err) v x" and err: "unat err \<le> 512" and p: "precision_of v = int p" "12 \<le> p" "p \<le> 60"
    and e: "dfp_e v + int p = kDenormalExponent"
  shows "wp (round_with_error v err) (\<lambda>(ok, r). verdict x ok r)"
proof -
  have top: "(2 :: nat) ^ 12 \<le> 2 ^ p"
    using p(2) by (rule power_increasing) simp
  have "unat (dfp_f v) div 2 ^ p < 2 ^ 52"
    using unat_lt64 [of "dfp_f v"] top by (simp add: less_mult_imp_div_less less_le_trans [OF unat_lt64])
  then have "wp (decide v err (int p)) (\<lambda>(ok, r). verdict x ok r)"
    using err top e p by (intro decide_wp [OF x, where e = 0]) simp_all
  then show ?thesis
    using round_with_error_decide [of v err] p by simp
qed

lemma round_with_error_tiny:
  assumes x: "nearer (unat err) v x" and err: "unat err \<le> 512" and p: "61 \<le> precision_of v" "precision_of v \<le> 64"
    and e: "dfp_e v + precision_of v = kDenormalExponent \<or> dfp_e v + precision_of v < kDenormalExponent \<and> double_nearest x 0"
  shows "wp (round_with_error v err) (\<lambda>(ok, r). verdict x ok r)"
proof -
  define s where "s = nat (precision_of v - 60)"
  define v' where "v' = DiyFp (drop_bit s (dfp_f v)) (dfp_e v + int s)"
  define err' where "err' = drop_bit s err + 1 + kDenominator"
  have s: "int s = precision_of v - 60" "1 \<le> s"
    using p by (simp_all add: s_def)
  have run: "round_with_error v err = decide v' err' (int 60)"
    using round_with_error_shift [OF p, of err] unfolding v'_def err'_def s(1) [symmetric] by (simp add: s_def [symmetric])
  have "unat (drop_bit s err) \<le> 512"
    unfolding unat_drop using div_le_dividend err by (rule le_trans)
  then have err': "unat err' = unat err div 2 ^ s + 9" "unat err' \<le> 521"
    by (simp_all add: err'_def kDenominator_def unat_plus unat_drop)
  have x': "nearer (unat err') v' x"
    unfolding v'_def by (rule nearer_dropped [OF x]) (simp_all add: unat_drop err')
  have f: "unat (dfp_f v') div 2 ^ 60 < 2 ^ 52"
    by (rule less_mult_imp_div_less, rule less_trans [OF unat_lt64]) simp
  have e': "dfp_e v' + int 60 = dfp_e v + precision_of v"
    by (simp add: v'_def s(1))
  from e show ?thesis
  proof
    assume "dfp_e v + precision_of v = kDenormalExponent"
    then have "wp (decide v' err' (int 60)) (\<lambda>(ok, r). verdict x ok r)"
      using err' f e' by (intro decide_wp [OF x', where e = 0]) simp_all
    then show ?thesis
      by (simp only: run)
  next
    assume small: "dfp_e v + precision_of v < kDenormalExponent \<and> double_nearest x 0"
    then have "verdict x ok 0" for ok
      by (intro verdict_sure [of x 0]) (simp_all add: double_nearest_def kInfinityBits_def)
    moreover have "wp (decide v' err' (int 60)) (\<lambda>(ok, r). r = 0)"
      using small f e' by (intro decide_underflow) simp_all
    ultimately show ?thesis
      unfolding run by (elim wp_mono) auto
  qed
qed

theorem round_with_error_wp:
  assumes f: "2 ^ 63 \<le> unat (dfp_f v)" and x: "nearer (unat err) v x" and err: "unat err \<le> 512"
    and small: "64 + dfp_e v < - 1074 \<Longrightarrow> double_nearest x 0"
  shows "wp (round_with_error v err) (\<lambda>(ok, r). verdict x ok r)"
proof -
  consider (normal) "- 1021 \<le> 64 + dfp_e v" | (denormal) "- 1070 \<le> 64 + dfp_e v" "64 + dfp_e v < - 1021"
    | (tiny) "64 + dfp_e v < - 1070"
    by linarith
  then show ?thesis
  proof cases
    case normal
    then show ?thesis
      by (rule round_with_error_normal [OF f x err])
  next
    case denormal
    then have p: "precision_of v = int (nat (- 1074 - dfp_e v))"
      by (simp add: precision_of_def SignificandSizeForOrderOfMagnitude_def kDenormalExponent_eq kSignificandSize_def)
    show ?thesis
      using denormal by (intro round_with_error_denormal [OF x err p]) (simp_all add: kDenormalExponent_eq)
  next
    case tiny
    then have "precision_of v = (if 64 + dfp_e v \<le> - 1074 then 64 else - 1074 - dfp_e v)"
      by (simp add: precision_of_def SignificandSizeForOrderOfMagnitude_def kDenormalExponent_eq kSignificandSize_def)
    then show ?thesis
      using tiny small by (intro round_with_error_tiny [OF x err]) (auto simp: kDenormalExponent_eq)
  qed
qed

end
