(* ===== verification/Strtod_Diy.thy ===== *)
theory Strtod_Diy
  imports Diy_Decision
begin

unbundle bit_operations_syntax

declare of_nat_unat [simp del]

text \<open>
  \<open>DiyFpStrtod\<close> of \<open>strtod.cc\<close>: its answer is nearest where it says so, and otherwise the double just
  below the boundary that \<open>Strtod\<close> compares with.
\<close>

section \<open>The smallest numbers\<close>

text \<open>
  An input just above \<open>2 ^ -1075\<close>, the midpoint between zero and the smallest double, must not be
  taken for one below it: the function returns zero there without a comparison.  It does not, because
  the only such inputs within the error read the digits \<open>edge_digits + 1\<close> or more, times \<open>10 ^ -342\<close>,
  and the two products then reach \<open>2 ^ -1075\<close>.
\<close>

definition edge_digits :: nat where "edge_digits = 2470328229206232720"

lemma ten_powi_add: "(10 :: real) powi (a + b) = 10 powi a * 10 powi b"
  by (simp add: power_int_add)

lemma ten_powi_shift: "10 powi a = c \<Longrightarrow> i = a + b \<Longrightarrow> (10 :: real) powi i = c * 10 powi b"
  by (simp only: ten_powi_add)

lemma two_powi_shift: "2 powi a = c \<Longrightarrow> i = a + b \<Longrightarrow> (2 :: real) powi i = c * 2 powi b"
  by (simp only: two_powi_add)

lemma half_denormal: "mid_real 52 kDenormalExponent 0 = 2 powi - 1075"
  by (simp add: mid_real_def enc_real_def enc_val_def enc_sig_def enc_exp_def kDenormalExponent_eq power_int_minus)

lemma edge_digits_bounds:
  "(real edge_digits + 1 / 2) * 10 powi - 342 < 2 powi - 1075"
  "(2 ^ 64 + 64) * 2 powi - 1139 < (real edge_digits + 10) * 10 powi - 342"
proof -
  define T u :: real where "T = 10 powi - 348" and "u = 2 powi - 1220"
  have u: "0 < u"
    unfolding u_def by (rule zero_less_power_int) simp
  have entry: "real (unat (cp_significand (kCachedPowers ! 0))) = 0xFA8FD5A0081C0288"
      "cp_binary_exponent (kCachedPowers ! 0) = - 1220" "8 * int 0 - 348 = - 348"
    by (simp_all add: kCachedPowers_def cached_def)
  have "(0 :: nat) < 87"
    by simp
  then have "\<bar>0xFA8FD5A0081C0288 * u - T\<bar> \<le> u / 2"
    using cached_power_accurate [of 0] by (simp only: accurate_def entry u_def T_def)
  then have T: "T \<le> 0xFA8FD5A0081C0288 * u + u / 2" "0xFA8FD5A0081C0288 * u - u / 2 \<le> T"
    unfolding abs_le_iff by linarith+
  have ten: "10 powi - 342 = 1000000 * T"
    unfolding T_def by (rule ten_powi_shift [where a = 6]) simp_all
  have two: "2 powi - 1075 = 2 ^ 145 * u"
    unfolding u_def by (rule two_powi_shift [OF power_int_numeral]) simp
  have two': "2 powi - 1139 = 2 ^ 81 * u"
    unfolding u_def by (rule two_powi_shift [OF power_int_numeral]) simp
  show "(real edge_digits + 1 / 2) * 10 powi - 342 < 2 powi - 1075"
    using T(1) u unfolding ten two edge_digits_def by simp
  show "(2 ^ 64 + 64) * 2 powi - 1139 < (real edge_digits + 10) * 10 powi - 342"
    using T(2) u unfolding ten two' edge_digits_def by simp
qed

lemma edge_window:
  assumes x: "nearer n v x" and n: "n \<le> 512" and e: "64 + dfp_e v < - 1074" and "\<not> double_nearest x 0"
  shows "dfp_e v = - 1139" and "(real edge_digits + 1 / 2) * 10 powi - 342 < x" and "x < (real edge_digits + 10) * 10 powi - 342"
proof -
  have mid: "2 powi - 1075 < x"
    using assms(4) by (simp add: nearest_zero_iff half_denormal)
  then show "(real edge_digits + 1 / 2) * 10 powi - 342 < x"
    using edge_digits_bounds(1) by linarith
  define s :: real where "s = 2 powi dfp_e v"
  have s: "0 < s"
    by (simp add: s_def)
  have "x < diy_value v + real n / 8 * s"
    using x unfolding nearer_def abs_less_iff s_def by linarith
  also have "\<dots> \<le> 2 ^ 64 * s + 64 * s"
    unfolding diy_value_def s_def [symmetric]
    using n s less_imp_le [OF unat_real_less [of "dfp_f v"]] by (intro add_mono mult_right_mono) simp_all
  finally have top: "x < (2 ^ 64 + 64) * s"
    by (simp add: algebra_simps)
  show e': "dfp_e v = - 1139"
  proof (rule ccontr)
    assume "dfp_e v \<noteq> - 1139"
    then have "s \<le> 2 powi - 1140"
      unfolding s_def using e by (intro power_int_increasing) simp_all
    then have "(2 ^ 64 + 64) * s \<le> 2 ^ 65 * 2 powi - 1140"
      using s by (intro mult_mono) simp_all
    also have "\<dots> = 2 powi - 1075"
      using power_int_add [of "2 :: real" 65 "- 1140"] by simp
    finally show False
      using top mid by simp
  qed
  show "x < (real edge_digits + 10) * 10 powi - 342"
    using top edge_digits_bounds(2) unfolding s_def e' by (rule less_trans)
qed

text \<open>Digits \<open>f\<close> with a rest, read from an input in the window.\<close>

lemma edge_read:
  assumes x: "(real edge_digits + 1 / 2) * 10 powi - 342 < y * 10 powi e" "y * 10 powi e < (real edge_digits + 10) * 10 powi - 342"
    and y: "\<bar>y - real f\<bar> \<le> 1 / 2" "exact \<or> 1844674407370955161 \<le> f" "exact \<Longrightarrow> y = real f" and f: "f < 2 ^ 64"
  shows "e = - 342 \<and> edge_digits < f \<and> f < edge_digits + 11"
proof -
  define T :: real where "T = 10 powi - 342"
  define M where "M = real edge_digits"
  have T: "0 < T"
    unfolding T_def by (rule zero_less_power_int) simp
  have M: "M = 2470328229206232720"
    by (simp add: M_def edge_digits_def)
  have f64: "real f < 2 ^ 64"
    using f by (metis of_nat_less_iff of_nat_numeral of_nat_power)
  have y0: "y \<le> real f + 1 / 2" "real f - 1 / 2 \<le> y"
    using y(1) unfolding abs_le_iff by linarith+
  have x: "(M + 1 / 2) * T < y * 10 powi e" "y * 10 powi e < (M + 10) * T"
    using x by (simp_all only: M_def T_def)
  have "e = - 342"
  proof (rule ccontr)
    assume ne: "e \<noteq> - 342"
    show False
    proof (cases "e < - 342")
      case True
      define T' :: real where "T' = 10 powi - 343"
      have ten: "T = 10 * T'"
        unfolding T_def T'_def by (rule ten_powi_shift [where a = 1]) simp_all
      have e: "10 powi e \<le> T'"
        unfolding T'_def using True by (intro power_int_increasing) simp_all
      have "0 < T'"
        unfolding T'_def by (rule zero_less_power_int) simp
      have "y \<le> 20000000000000000000"
        using y0 f64 by simp
      then have "y * 10 powi e \<le> 20000000000000000000 * T'"
        using e by (intro mult_mono) simp_all
      also have "\<dots> \<le> (M + 1 / 2) * T"
        unfolding ten M using \<open>0 < T'\<close> by simp
      finally show False
        using x(1) by simp
    next
      case False
      define j where "j = nat (e + 341)"
      have e: "e = int j + 1 + - 342"
        using False ne by (simp add: j_def)
      have ten: "10 powi e = 10 ^ j * 10 * T"
        unfolding e T_def by (simp only: ten_powi_add power_int_1_right power_int_of_nat)
      have w: "M + 1 / 2 < y * (10 ^ j * 10)" "y * (10 ^ j * 10) < M + 10"
        using x T unfolding ten by (simp_all flip: mult.assoc)
      have "y = real f"
      proof (rule ccontr)
        assume "y \<noteq> real f"
        then have "1844674407370955161 \<le> real f"
          using y(2,3) by auto
        then have "10 ^ 18 * 10 \<le> y * (10 ^ j * 10)"
          using y0(2) by (intro mult_mono) simp_all
        then show False
          using w(2) M by simp
      qed
      then have "M < real (f * 10 ^ j * 10)" "real (f * 10 ^ j * 10) < M + 10"
        using w by (simp_all add: ac_simps)
      then have "real edge_digits < real (f * 10 ^ j * 10)" "real (f * 10 ^ j * 10) < real (edge_digits + 10)"
        by (simp_all add: M_def)
      then have n: "edge_digits < f * 10 ^ j * 10" "f * 10 ^ j * 10 < edge_digits + 10"
        by (simp_all only: of_nat_less_iff)
      define q a :: nat where "q = f * 10 ^ j" and "a = 247032822920623272"
      have "edge_digits = a * 10"
        by (simp add: edge_digits_def a_def)
      then have "a * 10 < q * 10" "q * 10 < (a + 1) * 10"
        using n by (simp_all add: q_def)
      then show False
        unfolding mult_less_cancel2 by linarith
    qed
  qed
  moreover have "M + 1 / 2 < y" "y < M + 10"
    using x T unfolding \<open>e = - 342\<close> T_def [symmetric] by simp_all
  then have "real edge_digits < real f" "real f < real (edge_digits + 11)"
    using y0 by (simp_all add: M_def)
  then have "edge_digits < f" "f < edge_digits + 11"
    by (simp_all only: of_nat_less_iff)
  ultimately show ?thesis
    by simp
qed

text \<open>The two products of the smallest significand that an input in the window can give.\<close>

lemma Multiply_f_mono: "a \<le> unat (dfp_f x) \<Longrightarrow> (a * unat (dfp_f y) + 2 ^ 63) div 2 ^ 64 \<le> unat (dfp_f (Multiply x y))"
  unfolding Multiply_f by (intro div_le_mono add_le_mono1 mult_le_mono1)

lemma edge_product:
  assumes f: "unat (dfp_f v) = f * 2 ^ k" "2 ^ 63 \<le> unat (dfp_f v)" and e: "dfp_e v = - int k"
    and range: "edge_digits < f" "f < edge_digits + 11"
  shows "2 powi - 1075 \<le> diy_value (Multiply (Multiply v (DiyFp 0xF424000000000000 (- 44))) (DiyFp 0xFA8FD5A0081C0288 (- 1220)))"
proof -
  define v2 where "v2 = Multiply v (DiyFp 0xF424000000000000 (- 44))"
  define v3 where "v3 = Multiply v2 (DiyFp 0xFA8FD5A0081C0288 (- 1220))"
  have "k = 2"
  proof (rule ccontr)
    assume "k \<noteq> 2"
    then consider "k \<le> 1" | "3 \<le> k"
      by linarith
    then show False
    proof cases
      case 1
      then have "f * 2 ^ k \<le> f * 2 ^ 1"
        by (intro mult_le_mono2 power_increasing) simp_all
      then have "unat (dfp_f v) \<le> f * 2"
        unfolding f(1) power_one_right .
      then have "2 ^ 63 \<le> f * 2"
        using f(2) by (rule le_trans [rotated])
      then show False
        using range(2) by (simp add: edge_digits_def)
    next
      case 2
      then have "f * 2 ^ 3 \<le> f * 2 ^ k"
        by (intro mult_le_mono2 power_increasing) simp_all
      then have "f * 2 ^ 3 \<le> unat (dfp_f v)"
        unfolding f(1) .
      then have "f * 2 ^ 3 < 2 ^ 64"
        by (rule le_less_trans) simp
      then show False
        using range(1) by (simp add: edge_digits_def)
    qed
  qed
  then have "4 * (edge_digits + 1) \<le> unat (dfp_f v)"
    using f(1) range by simp
  from Multiply_f_mono [OF this, of "DiyFp 0xF424000000000000 (- 44)"] have "9423554341149264225 \<le> unat (dfp_f v2)"
    by (simp add: edge_digits_def v2_def)
  from Multiply_f_mono [OF this, of "DiyFp 0xFA8FD5A0081C0288 (- 1220)"] have "2 ^ 63 \<le> unat (dfp_f v3)"
    by (simp add: v3_def)
  then have "2 ^ 63 \<le> real (unat (dfp_f v3))"
    by (metis of_nat_le_iff of_nat_numeral of_nat_power)
  then have "2 ^ 63 * 2 powi - 1138 \<le> real (unat (dfp_f v3)) * 2 powi - 1138"
    by (rule mult_right_mono) simp
  moreover have "(2 :: real) ^ 63 * 2 powi - 1138 = 2 powi - 1075"
    using power_int_add [of "2 :: real" 63 "- 1138"] by simp
  moreover have "dfp_e v3 = - 1138"
    using e \<open>k = 2\<close> by (simp add: v3_def v2_def)
  ultimately have "2 powi - 1075 \<le> diy_value v3"
    by (simp add: diy_value_def)
  then show ?thesis
    by (simp add: v3_def v2_def)
qed

section \<open>The scaled input\<close>

definition adjust_input :: "diy_fp \<Rightarrow> u64 \<Rightarrow> int \<Rightarrow> nat \<Rightarrow> (diy_fp \<times> u64) option" where
  "adjust_input input error adjustment_exponent n =
    (if adjustment_exponent \<noteq> 0 then do {
       adjustment_power \<leftarrow> AdjustmentPowerOfTen adjustment_exponent;
       let input = Multiply input adjustment_power;
       if adjustment_exponent \<le> strtod_kMaxUint64DecimalDigits - int n then Some (input, error)
       else Some (input, error + kDenominator div 2) }
     else Some (input, error))"

lemma adjust_input_eq:
  "(if d \<noteq> e then do {
      let adjustment_exponent = e - d;
      adjustment_power \<leftarrow> AdjustmentPowerOfTen adjustment_exponent;
      let input = Multiply input adjustment_power;
      if adjustment_exponent \<le> strtod_kMaxUint64DecimalDigits - int n then do {
        ASSERT (kDiyFpSignificandSize = 64);
        Some (input, error) }
      else Some (input, error + kDenominator div 2) }
    else Some (input, error)) = adjust_input input error (e - d) n"
  by (simp add: adjust_input_def ASSERT_def kDiyFpSignificandSize_def Let_def cong: if_cong)

lemma DiyFpStrtod_eq:
  "DiyFpStrtod buffer e = do {
     (input, remaining_decimals) \<leftarrow> ReadDiyFp buffer;
     (input, error) \<leftarrow> normalize_with_error input (if remaining_decimals = 0 then 0 else kDenominator div 2);
     ASSERT (e + remaining_decimals \<le> kMaxDecimalExponent);
     if e + remaining_decimals < kMinDecimalExponent then Some (True, 0)
     else do {
       (cached_power, d) \<leftarrow> GetCachedPowerForDecimalExponent (e + remaining_decimals);
       (input, error) \<leftarrow> adjust_input input error (e + remaining_decimals - d) (length buffer);
       (input, error) \<leftarrow> normalize_with_error (Multiply input cached_power)
         (error + (kDenominator div 2 + (if error = 0 then 0 else 1) + kDenominator div 2));
       round_with_error input error } }"
  unfolding DiyFpStrtod_def adjust_input_eq by (simp only: Let_def)

lemma Multiply_large:
  assumes "2 ^ a \<le> unat (dfp_f x)" and "2 ^ b \<le> unat (dfp_f y)" and "a + b = 64 + c"
  shows "2 ^ c \<le> unat (dfp_f (Multiply x y))"
proof -
  have "(2 :: nat) ^ (a + b) \<le> unat (dfp_f x) * unat (dfp_f y)"
    unfolding power_add using assms(1,2) by (rule mult_le_mono)
  then have "(2 :: nat) ^ (64 + c) div 2 ^ 64 \<le> (unat (dfp_f x) * unat (dfp_f y) + 2 ^ 63) div 2 ^ 64"
    unfolding assms(3) by (intro div_le_mono) simp
  moreover have "(2 :: nat) ^ (64 + c) div 2 ^ 64 = 2 ^ c"
    by (simp only: power_add) simp
  ultimately show ?thesis
    by (simp only: Multiply_f)
qed

lemma adjust_input_wp:
  assumes y: "near (unat err) v y" and v: "2 ^ 63 \<le> unat (dfp_f v)" and adj: "0 \<le> adj" "adj < 8" and err: "unat err \<le> 40"
    and short: "n \<le> 19 \<Longrightarrow> err = 0 \<and> (\<exists>N k. unat (dfp_f v) = N * 2 ^ k \<and> N < 10 ^ n)"
  shows "wp (adjust_input v err adj n) (\<lambda>(v', err'). near (unat err') v' (y * 10 ^ nat adj) \<and> 2 ^ 62 \<le> unat (dfp_f v') \<and>
    unat err' \<le> 44)"
proof (cases "adj = 0")
  case True
  then show ?thesis
    using y v err by (simp add: adjust_input_def)
next
  case False
  then obtain a where a: "AdjustmentPowerOfTen adj = Some a" "2 ^ 63 \<le> unat (dfp_f a)" "dfp_e a \<le> 0"
      "unat (dfp_f a) = 10 ^ nat adj * 2 ^ nat (- dfp_e a)"
    using AdjustmentPowerOfTen_wp [of adj] adj by (auto elim: wpE)
  have ten: "diy_value a = 10 ^ nat adj"
    by (rule adjustment_value [OF a(4,3)])
  have large: "2 ^ 62 \<le> unat (dfp_f (Multiply v a))"
    by (rule Multiply_large [OF v a(2)]) simp
  show ?thesis
  proof (cases "adj \<le> 19 - int n")
    case True
    then have "n \<le> 19"
      using adj(1) by linarith
    then obtain N k where N: "unat (dfp_f v) = N * 2 ^ k" "N < 10 ^ n" and e0: "err = 0"
      using short by auto
    have "N * 10 ^ nat adj < 10 ^ n * 10 ^ nat adj"
      using N(2) by simp
    also have "\<dots> \<le> 10 ^ 19"
      unfolding power_add [symmetric] using True adj(1) by (intro power_increasing) simp_all
    finally have "N * 10 ^ nat adj < 2 ^ 64"
      by simp
    moreover have "even (N * 10 ^ nat adj)"
      using False adj(1) by simp
    ultimately have "diy_value (Multiply v a) = diy_value v * diy_value a"
      by (intro near_exact_product [OF N(1) v a(4,2)])
    then have "near 0 (Multiply v a) (y * 10 ^ nat adj)"
      using y by (simp add: near_0 e0 ten)
    then show ?thesis
      using False True large by (simp add: adjust_input_def a(1) strtod_kMaxUint64DecimalDigits_def e0)
  next
    case False2: False
    have "unat (err + 4) = unat err + 4"
      using err by (subst unat_plus) simp_all
    then show ?thesis
      using False False2 large err near_exact_power [OF y ten]
      by (simp add: adjust_input_def a(1) strtod_kMaxUint64DecimalDigits_def kDenominator_def)
  qed
qed

lemma adjust_input_six:
  "adjust_input v err 6 n = Some (v', err') \<Longrightarrow> v' = Multiply v (DiyFp 0xF424000000000000 (- 44))"
  by (auto simp: adjust_input_def AdjustmentPowerOfTen_def ASSERT_def kDecimalExponentDistance_def Let_def split: if_splits)

lemma cached_edge: "GetCachedPowerForDecimalExponent (- 342) = Some (DiyFp 0xFA8FD5A0081C0288 (- 1220), - 348)"
  by (simp add: GetCachedPowerForDecimalExponent_def ASSERT_def kMinDecimalExponent_def kMaxDecimalExponent_def
      kDecimalExponentDistance_def kCachedPowersOffset_def rd_def kCachedPowers_def cached_def signed_divide_int_def)

section \<open>The function\<close>

text \<open>The digits read and normalised.\<close>

lemma read_normalized:
  assumes t: "trimmed_digits t" "t \<noteq> []"
  obtains v0 r v1 err k where "ReadDiyFp t = Some (v0, r)" and "0 \<le> r" "r < int (length t)"
    and "normalize_with_error v0 (if r = 0 then 0 else kDenominator div 2) = Some (v1, err)"
    and "unat (dfp_f v1) = unat (dfp_f v0) * 2 ^ k" "2 ^ 63 \<le> unat (dfp_f v1)" "dfp_e v1 = - int k"
    and "near (unat err) v1 (real (dec_value t) / 10 ^ nat r)" "unat err \<le> 40"
    and "\<bar>real (dec_value t) / 10 ^ nat r - real (unat (dfp_f v0))\<bar> \<le> 1 / 2"
    and "r = 0 \<or> 1844674407370955161 \<le> unat (dfp_f v0)"
    and "r = 0 \<longrightarrow> err = 0 \<and> dec_value t = unat (dfp_f v0)" "length t \<le> 19 \<longrightarrow> r = 0"
proof -
  define y where "y = real (dec_value t)"
  obtain v0 r where 1: "ReadDiyFp t = Some (v0, r)" "dfp_e v0 = 0" "0 \<le> r" "r < int (length t)" "0 < unat (dfp_f v0)"
      "near (if r = 0 then 0 else 4) v0 (y / 10 ^ nat r)" "r = 0 \<or> 1844674407370955161 \<le> unat (dfp_f v0)"
      "length t \<le> 19 \<longrightarrow> r = 0"
    unfolding y_def using ReadDiyFp_wp [OF t] by (rule wp_pairE) auto
  define err0 :: u64 where "err0 = (if r = 0 then 0 else kDenominator div 2)"
  have err0: "unat err0 = (if r = 0 then 0 else 4)"
    by (simp add: err0_def kDenominator_def)
  have "dfp_f v0 \<noteq> 0" "unat err0 = 0 \<or> unat err0 \<le> unat (dfp_f v0)"
    using 1(5,7) by (auto simp: unat_eq_zero err0)
  then obtain v1 err k where 2: "normalize_with_error v0 err0 = Some (v1, err)" "unat (dfp_f v1) = unat (dfp_f v0) * 2 ^ k"
      "dfp_e v1 = dfp_e v0 - int k" "2 ^ 63 \<le> unat (dfp_f v1)" "unat err = unat err0 * 2 ^ k"
    using normalize_with_error_wp by (blast elim: wp_pairE)
  have "unat err \<le> 40"
  proof (cases "r = 0")
    case False
    then have "1844674407370955161 * 2 ^ k \<le> unat (dfp_f v1)"
      unfolding 2(2) using 1(7) by (intro mult_le_mono1) simp
    then have "1844674407370955161 * 2 ^ k < (2 :: nat) ^ 64"
      by (rule le_less_trans) simp
    then show ?thesis
      using False by (simp add: 2(5) err0)
  qed (simp add: 2(5) err0)
  moreover have "near (unat err) v1 (y / 10 ^ nat r)"
    unfolding 2(5) err0 by (rule scaled_near [OF 1(6) 2(2,3)])
  moreover have "\<bar>y / 10 ^ nat r - real (unat (dfp_f v0))\<bar> \<le> 1 / 2"
    using 1(6) by (simp add: near_def diy_value_def 1(2) split: if_splits)
  moreover have "r = 0 \<Longrightarrow> err = 0 \<and> dec_value t = unat (dfp_f v0)"
    using 1(6) by (simp add: near_0 diy_value_def 1(2) y_def unat_eq_zero 2(5) err0)
  ultimately show thesis
    using that [of v0 r v1 err k] 1 2 by (simp add: y_def err0_def)
qed

text \<open>The product with the cached power, normalised.\<close>

lemma scaled_normalized:
  assumes v: "near (unat err) v y" "2 ^ 62 \<le> unat (dfp_f v)" "unat err \<le> 44"
    and p: "2 ^ 63 \<le> unat (dfp_f p)" "\<bar>diy_value p - A\<bar> \<le> 2 powi dfp_e p / 2" "0 \<le> A"
  obtains v' err' where
    "normalize_with_error (Multiply v p) (err + (kDenominator div 2 + (if err = 0 then 0 else 1) + kDenominator div 2)) = Some (v', err')"
    and "2 ^ 63 \<le> unat (dfp_f v')" and "nearer (unat err') v' (y * A)" and "unat err' \<le> 512"
    and "diy_value v' = diy_value (Multiply v p)"
proof -
  define w where "w = Multiply v p"
  define e where "e = err + (kDenominator div 2 + (if err = 0 then 0 else 1) + kDenominator div 2)"
  have e: "unat err + 8 \<le> unat e" "unat e \<le> 53"
    using v(3) by (auto simp: e_def kDenominator_def unat_plus)
  have "nearer (unat err + 8) w (y * A)"
    unfolding w_def by (rule nearer_cached_power [OF v(1) p(2,3)])
  then have near: "nearer (unat e) w (y * A)"
    unfolding nearer_def by (rule less_le_trans) (use e in \<open>intro mult_right_mono; simp\<close>)
  have w: "2 ^ 61 \<le> unat (dfp_f w)"
    unfolding w_def by (rule Multiply_large [OF v(2) p(1)]) simp
  then have "dfp_f w \<noteq> 0" "unat e = 0 \<or> unat e \<le> unat (dfp_f w)"
    using e(2) by (auto simp: unat_eq_zero)
  then obtain v' err' k where r: "normalize_with_error w e = Some (v', err')" "unat (dfp_f v') = unat (dfp_f w) * 2 ^ k"
      "dfp_e v' = dfp_e w - int k" "2 ^ 63 \<le> unat (dfp_f v')" "unat err' = unat e * 2 ^ k"
    using normalize_with_error_wp by (blast elim: wp_pairE)
  have "2 ^ 61 * 2 ^ k \<le> unat (dfp_f v')"
    unfolding r(2) using w by (intro mult_le_mono1)
  then have "2 ^ 61 * 2 ^ k < (2 :: nat) ^ 64"
    by (rule le_less_trans) simp
  then have "(2 :: nat) ^ k \<le> 8"
    by simp
  with e(2) have "unat e * 2 ^ k \<le> 53 * 8"
    by (rule mult_le_mono)
  then have "unat err' \<le> 512"
    by (simp add: r(5))
  then show thesis
    using that [of v' err'] r scaled_nearer [OF near r(2,3)] scaled_value [OF r(2,3)] by (simp add: w_def e_def)
qed

theorem DiyFpStrtod_wp:
  assumes t: "trimmed_digits t" "t \<noteq> []" and e: "e + int (length t) \<le> 309"
  shows "wp (DiyFpStrtod t e) (\<lambda>(ok, r). verdict (real (dec_value t) * 10 powi e) ok r)"
proof -
  obtain v0 r v1 err k where read: "ReadDiyFp t = Some (v0, r)" "0 \<le> r" "r < int (length t)"
    and norm: "normalize_with_error v0 (if r = 0 then 0 else kDenominator div 2) = Some (v1, err)"
    and v1: "unat (dfp_f v1) = unat (dfp_f v0) * 2 ^ k" "2 ^ 63 \<le> unat (dfp_f v1)" "dfp_e v1 = - int k"
    and near1: "near (unat err) v1 (real (dec_value t) / 10 ^ nat r)" "unat err \<le> 40"
    and half: "\<bar>real (dec_value t) / 10 ^ nat r - real (unat (dfp_f v0))\<bar> \<le> 1 / 2"
    and rest: "r = 0 \<or> 1844674407370955161 \<le> unat (dfp_f v0)"
    and exact: "r = 0 \<longrightarrow> err = 0 \<and> dec_value t = unat (dfp_f v0)" "length t \<le> 19 \<longrightarrow> r = 0"
    by (rule read_normalized [OF t])
  define y where "y = real (dec_value t) / 10 ^ nat r"
  define x where "x = real (dec_value t) * 10 powi e"
  have "(10 :: real) powi (e + int (nat r)) = 10 powi e * 10 ^ nat r"
    by (simp only: ten_powi_add power_int_of_nat)
  then have x: "x = y * 10 powi (e + r)"
    using read(2) by (simp add: x_def y_def)
  have y: "0 \<le> y" "y \<le> 10 ^ 20"
  proof -
    show "0 \<le> y"
      by (simp add: y_def)
    have "y \<le> real (unat (dfp_f v0)) + 1 / 2"
      using half unfolding y_def [symmetric] abs_le_iff by linarith
    moreover have "2 ^ 64 + 1 / 2 \<le> (10 :: real) ^ 20"
      by simp
    ultimately show "y \<le> 10 ^ 20"
      using unat_real_less [of "dfp_f v0"] by linarith
  qed
  have top: "e + r \<le> kMaxDecimalExponent"
    using read(3) e by (simp add: kMaxDecimalExponent_def)
  show ?thesis
  proof (cases "e + r < kMinDecimalExponent")
    case True
    have "x \<le> 10 ^ 20 * 10 powi (- 349)"
      unfolding x using y True by (intro mult_mono power_int_increasing) (simp_all add: kMinDecimalExponent_def)
    also have "\<dots> = 10 powi (- 329)"
      by (rule ten_powi_shift [where a = 20, symmetric]) simp_all
    also have "\<dots> \<le> 10 powi (- 324)"
      by (rule power_int_increasing) simp_all
    finally have "double_nearest x 0"
      by (rule nearest_too_small)
    then have "verdict x True 0"
      by (simp add: verdict_def kInfinityBits_def)
    then show ?thesis
      using True top by (simp add: DiyFpStrtod_eq read norm ASSERT_def x_def)
  next
    case False
    then have range: "- 348 \<le> e + r" "e + r < 348"
      using top by (simp_all add: kMinDecimalExponent_def kMaxDecimalExponent_def)
    obtain p d where p: "GetCachedPowerForDecimalExponent (e + r) = Some (p, d)" "d \<le> e + r" "e + r < d + 8"
        "2 ^ 63 \<le> unat (dfp_f p)" "\<bar>diy_value p - 10 powi d\<bar> \<le> 2 powi dfp_e p / 2"
      using GetCachedPowerForDecimalExponent_wp [OF range] by (rule wp_pairE) auto
    define adj where "adj = e + r - d"
    have adj: "0 \<le> adj" "adj < 8"
      using p(2,3) by (simp_all add: adj_def)
    have short: "err = 0 \<and> (\<exists>N k. unat (dfp_f v1) = N * 2 ^ k \<and> N < 10 ^ length t)" if "length t \<le> 19"
      using exact that v1(1) trimmed_bounds(2) [OF t] by auto
    obtain v2 err2 where a: "adjust_input v1 err adj (length t) = Some (v2, err2)" "near (unat err2) v2 (y * 10 ^ nat adj)"
        "2 ^ 62 \<le> unat (dfp_f v2)" "unat err2 \<le> 44"
      using adjust_input_wp [OF near1(1) v1(2) adj near1(2) short] unfolding y_def by (rule wp_pairE) auto
    have ten: "0 \<le> (10 :: real) powi d"
      by simp
    obtain v3 err3 where n: "normalize_with_error (Multiply v2 p) (err2 + (kDenominator div 2 + (if err2 = 0 then 0 else 1) + kDenominator div 2)) = Some (v3, err3)"
        "2 ^ 63 \<le> unat (dfp_f v3)" "nearer (unat err3) v3 (y * 10 ^ nat adj * 10 powi d)" "unat err3 \<le> 512"
        "diy_value v3 = diy_value (Multiply v2 p)"
      by (rule scaled_normalized [OF a(2-4) p(4,5) ten])
    have "10 powi (e + r) = 10 ^ nat adj * (10 :: real) powi d"
      by (rule ten_powi_shift [OF power_int_of_nat]) (use adj(1) in \<open>simp add: adj_def\<close>)
    then have near3: "nearer (unat err3) v3 x"
      using n(3) by (simp add: x mult.assoc)
    have small: "double_nearest x 0" if "64 + dfp_e v3 < - 1074"
    proof (rule ccontr)
      assume bad: "\<not> double_nearest x 0"
      note w = edge_window [OF near3 n(4) that bad]
      have ed: "e + r = - 342" "edge_digits < unat (dfp_f v0)" "unat (dfp_f v0) < edge_digits + 11"
        using edge_read [OF w(2,3) [unfolded x] half [folded y_def], of "r = 0"] rest exact(1) by (auto simp: y_def)
      then have "p = DiyFp 0xFA8FD5A0081C0288 (- 1220)" "adj = 6"
        using p(1) by (simp_all add: cached_edge adj_def)
      then have "diy_value v3 = diy_value (Multiply (Multiply v1 (DiyFp 0xF424000000000000 (- 44))) (DiyFp 0xFA8FD5A0081C0288 (- 1220)))"
        using adjust_input_six a(1) n(5) by simp
      then have "2 powi - 1075 \<le> diy_value v3"
        using edge_product [OF v1 ed(2,3)] by simp
      also have "\<dots> < 2 ^ 64 * 2 powi - 1139"
        unfolding diy_value_def w(1) using unat_real_less by (rule mult_strict_right_mono) (rule zero_less_power_int, simp)
      also have "\<dots> = 2 powi - 1075"
        by (rule two_powi_shift [where a = 64, symmetric]) simp_all
      finally show False
        by simp
    qed
    have "wp (round_with_error v3 err3) (\<lambda>(ok, r). verdict x ok r)"
      by (rule round_with_error_wp [OF n(2) near3 n(4) small])
    then show ?thesis
      using False top a(1) n(1) p(1) by (simp add: DiyFpStrtod_eq read norm ASSERT_def adj_def x_def)
  qed
qed

end
