(* ===== verification/Strtod_Compare.thy ===== *)
theory Strtod_Compare
  imports Strtod_Diy Bignum_Dtoa_Scale
begin

unbundle bit_operations_syntax

declare of_nat_unat [simp del]

text \<open>
  The exact comparison of \<open>strtod.cc\<close>: \<open>CompareBufferWithDiyFp\<close> on 780 digits never leaves the 128
  bigits of a bignum and orders the input against a boundary as the numbers are ordered; the boundary
  above a double is the midpoint to its successor.
\<close>

section \<open>Bigits in use\<close>

lemma used_digits_bound:
  assumes "bignum_ok b" and less: "bvalue b < B28 ^ (n + exponent b)"
  shows "used_digits b \<le> n"
proof (rule ccontr)
  assume "\<not> used_digits b \<le> n"
  then have "B28 ^ (n + exponent b) \<le> B28 ^ (BigitLength b - 1)" "used_digits b \<noteq> 0"
    by (auto simp: BigitLength_def intro: power_increasing)
  with bignum_ok_ge [OF assms(1)] less show False
    by fastforce
qed

lemma pow2_B28: "k \<le> 28 * n \<Longrightarrow> (2 :: nat) ^ k \<le> B28 ^ n"
proof -
  assume "k \<le> 28 * n"
  then have "(2 :: nat) ^ k \<le> 2 ^ (28 * n)"
    by (rule power_increasing) simp
  also have "\<dots> = B28 ^ n"
    by (simp add: power_mult)
  finally show ?thesis .
qed

lemma five_power_le: "(5 :: nat) ^ n \<le> 2 ^ (3 * n)"
  unfolding power_mult by (rule power_mono) simp_all

lemma Bignum_new_rep: "bignum_rep Bignum_new"
  by (simp add: bignum_rep_def bigits_ok_def)

section \<open>The two sides\<close>

lemma digits_side_wp:
  assumes digits: "\<forall>c\<in>set t. is_digit c" and len: "length t \<le> 780" and e: "0 \<le> e \<Longrightarrow> int (length t) + e \<le> 310"
  shows "wp (do { b \<leftarrow> AssignDecimalString Bignum_new t; if 0 \<le> e then MultiplyByPowerOfTen b (nat e) else Some b })
    (\<lambda>b. bignum_ok b \<and> bvalue b = dec_value t * 10 ^ nat e \<and> used_digits b \<le> 120)"
proof -
  obtain b where b: "AssignDecimalString Bignum_new t = Some b" "bignum_ok b" "bvalue b = dec_value t" "exponent b = 0"
    using AssignDecimalString_wp [OF Bignum_new_rep digits] len by (auto elim: wpE)
  have less: "dec_value t < 10 ^ length t"
    by (rule dec_value_less) (use digits in simp)
  show ?thesis
  proof (cases "0 \<le> e")
    case True
    have "dec_value t * 10 ^ nat e < 10 ^ length t * 10 ^ nat e"
      using less by simp
    also have "\<dots> \<le> 10 ^ 310"
      unfolding power_add [symmetric] using e True by (intro power_increasing) simp_all
    also have "\<dots> \<le> 2 ^ (4 * 310)"
      by (rule ten_power_bound)
    also have "\<dots> \<le> B28 ^ 45"
      by (rule pow2_B28) simp
    finally have n: "dec_value t * 10 ^ nat e < B28 ^ 45" .
    have "5 ^ nat e * bsig b \<le> dec_value t * 10 ^ nat e"
      using bsig_le [of b] b(3) by (subst mult.commute) (intro mult_le_mono power_mono; simp)
    then have fits: "5 ^ nat e * bsig b < B28 ^ 127"
        by (rule le_less_trans) (rule pow28_less [OF n], simp)
    have "used_digits r \<le> 120" if "bignum_ok r" "bvalue r = 10 ^ nat e * bvalue b" for r
      using n pow28_less [OF n, of "120 + exponent r"] that b(3) by (intro used_digits_bound) (simp_all add: mult.commute)
    then show ?thesis
      using True b MultiplyByPowerOfTen_wp [OF b(2) fits] by (auto simp: wp_simps mult.commute elim!: wp_mono)
  next
    case False
    have "dec_value t < 2 ^ (4 * 780)"
      using less power_increasing [OF len, of "10 :: nat"] ten_power_bound [of 780] by (meson le_less_trans less_le_trans one_le_numeral)
    also have "\<dots> \<le> B28 ^ 120"
      by (rule pow2_B28) simp
    finally have "used_digits b \<le> 120"
      using b by (intro used_digits_bound) simp_all
    then show ?thesis
      using False b by (simp add: wp_simps)
  qed
qed

lemma boundary_side_wp:
  assumes f: "0 < unat f" "unat f < 2 ^ 54" and n: "n \<le> 1104"
  shows "wp (do { b \<leftarrow> AssignUInt64 Bignum_new f; MultiplyByPowerOfTen b n })
    (\<lambda>b. bignum_ok b \<and> bvalue b = unat f * 10 ^ n \<and> used_digits b \<le> 125)"
proof -
  obtain b where b: "AssignUInt64 Bignum_new f = Some b" "bignum_ok b" "bvalue b = unat f" "exponent b = 0"
    using AssignUInt64_wp [OF Bignum_new_rep] by (auto elim: wpE)
  have "(5 :: nat) ^ n \<le> 2 ^ (3 * 1104)"
    using five_power_le [of n] power_increasing [of "3 * n" "3 * 1104" "2 :: nat"] n by (meson le_trans mult_le_mono2 one_le_numeral)
  then have "5 ^ n * unat f < 2 ^ (3 * 1104) * 2 ^ 54"
    using f(2) by (rule mult_le_less_imp_less) (rule zero_le | rule zero_less_power, simp)+
  also have "\<dots> \<le> B28 ^ 123"
    unfolding power_add [symmetric] by (rule pow2_B28) simp
  finally have five: "5 ^ n * unat f < B28 ^ 123" .
  have "5 ^ n * bsig b \<le> 5 ^ n * unat f"
    using bsig_le [of b] b(3) by simp
  then have fits: "5 ^ n * bsig b < B28 ^ 127"
    by (rule le_less_trans) (rule pow28_less [OF five], simp)
  have "used_digits b \<noteq> 0"
    using b bvalue_zero_iff [of b] f by simp
  have "used_digits r \<le> 125" if r: "bignum_ok r" "bvalue r = 10 ^ n * bvalue b" "exponent r = n div 28" for r
  proof (rule used_digits_bound [OF r(1)])
    have "(10 :: nat) ^ n = 5 ^ n * 2 ^ n"
      by (simp flip: power_mult_distrib)
    then have "bvalue r = 5 ^ n * unat f * 2 ^ n"
      by (simp add: r b)
    also have "\<dots> < B28 ^ 123 * 2 ^ n"
      using five by simp
    also have "\<dots> \<le> B28 ^ 123 * B28 ^ (2 + n div 28)"
      by (intro mult_le_mono2 pow2_B28) presburger
    also have "\<dots> = B28 ^ (123 + (2 + n div 28))"
      by (simp only: power_add)
    also have "123 + (2 + n div 28) = 125 + exponent r"
      by (simp add: r(3))
    finally show "bvalue r < B28 ^ (125 + exponent r)" .
  qed
  then show ?thesis
    using b MultiplyByPowerOfTen_wp [OF b(2) fits] \<open>used_digits b \<noteq> 0\<close> by (auto simp: wp_simps mult.commute elim!: wp_mono)
qed

text \<open>The order of the two sides, with the negative powers moved to the other one.\<close>

lemma powi_nat_split: "c \<noteq> 0 \<Longrightarrow> (c :: real) powi k = c ^ nat k / c ^ nat (- k)"
proof (cases "0 \<le> k")
  case False
  assume "c \<noteq> 0"
  have "k = - int (nat (- k))"
    using False by simp
  then show ?thesis
    using False by (metis div_by_1 inverse_eq_divide nat_le_0 not_le order.strict_implies_order power_0 power_int_minus power_int_of_nat)
qed (simp add: power_int_def)

lemma sides_order:
  fixes a f :: nat
  shows "a * 10 ^ nat i * 2 ^ nat (- j) < f * 10 ^ nat (- i) * 2 ^ nat j \<longleftrightarrow> real a * 10 powi i < real f * 2 powi j"
    and "f * 10 ^ nat (- i) * 2 ^ nat j < a * 10 ^ nat i * 2 ^ nat (- j) \<longleftrightarrow> real f * 2 powi j < real a * 10 powi i"
proof -
  define P Q where "P = (10 :: nat) ^ nat i" and "Q = (10 :: nat) ^ nat (- i)"
  define R S where "R = (2 :: nat) ^ nat j" and "S = (2 :: nat) ^ nat (- j)"
  have pos: "0 < real Q" "0 < real S"
    by (simp_all add: Q_def S_def)
  define T where "T = real Q * real S"
  have x: "real a * 10 powi i = real (a * P * S) / T" "real f * 2 powi j = real (f * Q * R) / T"
    using pos by (simp_all add: powi_nat_split T_def P_def Q_def R_def S_def)
  have "0 < T"
    using pos by (simp add: T_def)
  then show "a * 10 ^ nat i * 2 ^ nat (- j) < f * 10 ^ nat (- i) * 2 ^ nat j \<longleftrightarrow> real a * 10 powi i < real f * 2 powi j"
    "f * 10 ^ nat (- i) * 2 ^ nat j < a * 10 ^ nat i * 2 ^ nat (- j) \<longleftrightarrow> real f * 2 powi j < real a * 10 powi i"
    unfolding x P_def [symmetric] Q_def [symmetric] R_def [symmetric] S_def [symmetric]
    by (simp_all only: divide_less_cancel of_nat_less_iff) simp_all
qed

theorem CompareBufferWithDiyFp_wp:
  assumes digits: "\<forall>c\<in>set t. is_digit c" and len: "length t \<le> 780" and e: "int (length t) + e \<le> 310" "- 324 < int (length t) + e"
    and m: "0 < unat (dfp_f m)" "unat (dfp_f m) < 2 ^ 54"
  shows "wp (CompareBufferWithDiyFp t e m) (\<lambda>c. (c < 0 \<longleftrightarrow> real (dec_value t) * 10 powi e < diy_value m) \<and>
    (0 < c \<longleftrightarrow> diy_value m < real (dec_value t) * 10 powi e))"
proof -
  obtain a where a: "do { b \<leftarrow> AssignDecimalString Bignum_new t; if 0 \<le> e then MultiplyByPowerOfTen b (nat e) else Some b } = Some a"
      "bignum_ok a" "bvalue a = dec_value t * 10 ^ nat e" "used_digits a \<le> 120"
    using digits_side_wp [OF digits len e(1)] by (rule wpE) auto
  have n: "nat (- e) \<le> 1104"
    using len e(2) by simp
  obtain b where b: "do { b \<leftarrow> AssignUInt64 Bignum_new (dfp_f m); MultiplyByPowerOfTen b (nat (- e)) } = Some b"
      "bignum_ok b" "bvalue b = unat (dfp_f m) * 10 ^ nat (- e)" "used_digits b \<le> 125"
    using boundary_side_wp [OF m n] by (rule wpE) auto
  obtain a0 where a0: "AssignDecimalString Bignum_new t = Some a0" "(if 0 \<le> e then MultiplyByPowerOfTen a0 (nat e) else Some a0) = Some a"
    using a(1) by (auto simp: bind_eq_Some_conv)
  obtain b0 where b0: "AssignUInt64 Bignum_new (dfp_f m) = Some b0" "MultiplyByPowerOfTen b0 (nat (- e)) = Some b"
    using b(1) by (auto simp: bind_eq_Some_conv)
  define shifted where "shifted = (if 0 < dfp_e m then do { b \<leftarrow> ShiftLeft b (nat (dfp_e m)); Some (a, b) }
      else do { a \<leftarrow> ShiftLeft a (nat (- dfp_e m)); Some (a, b) })"
  have run: "CompareBufferWithDiyFp t e m = do { (a, b) \<leftarrow> shifted; Compare a b }"
  proof (cases "0 \<le> e")
    case True
    then have "b = b0"
      using b0(2) by (simp add: MultiplyByPowerOfTen_def)
    then show ?thesis
      using True len e a0 b0(1) by (simp add: CompareBufferWithDiyFp_def ASSERT_def kMaxDecimalPower_def kMinDecimalPower_def
          kMaxSignificantDecimalDigits_def shifted_def)
  next
    case False
    then show ?thesis
      using len e a0 b0 by (simp add: CompareBufferWithDiyFp_def ASSERT_def kMaxDecimalPower_def kMinDecimalPower_def
          kMaxSignificantDecimalDigits_def shifted_def)
  qed
  have "wp shifted (\<lambda>(a', b'). bignum_ok a' \<and> bignum_ok b' \<and> bvalue a' = bvalue a * 2 ^ nat (- dfp_e m) \<and>
      bvalue b' = bvalue b * 2 ^ nat (dfp_e m))"
  proof (cases "0 < dfp_e m")
    case True
    have "used_digits b + 1 \<le> 128"
      using b(4) by simp
    from ShiftLeft_wp [OF b(2) this, of "nat (dfp_e m)"] show ?thesis
      unfolding shifted_def using True a(2) by (auto simp: wp_simps elim!: wp_mono)
  next
    case False
    have "used_digits a + 1 \<le> 128"
      using a(4) by simp
    from ShiftLeft_wp [OF a(2) this, of "nat (- dfp_e m)"] show ?thesis
      unfolding shifted_def using False b(2) by (auto simp: wp_simps elim!: wp_mono)
  qed
  then show ?thesis
    unfolding run wp_bind
  proof (rule wp_mono)
    fix q :: "bignum \<times> bignum"
    assume q: "case q of (a', b') \<Rightarrow> bignum_ok a' \<and> bignum_ok b' \<and> bvalue a' = bvalue a * 2 ^ nat (- dfp_e m) \<and>
      bvalue b' = bvalue b * 2 ^ nat (dfp_e m)"
    obtain a' b' where [simp]: "q = (a', b')"
      by (cases q)
    show "wp (case q of (a, b) \<Rightarrow> Compare a b) (\<lambda>c. (c < 0 \<longleftrightarrow> real (dec_value t) * 10 powi e < diy_value m) \<and>
        (0 < c \<longleftrightarrow> diy_value m < real (dec_value t) * 10 powi e))"
      using q sides_order [where a = "dec_value t" and i = e and j = "dfp_e m" and f = "unat (dfp_f m)"]
      by (simp add: Compare_eq a(3) b(3) cmp_def diy_value_def mult.assoc)
  qed
qed

section \<open>The boundary\<close>

lemma UpperBoundary_wp:
  assumes "unat d < kInfinityBits"
  shows "wp (UpperBoundary d) (\<lambda>m. 0 < unat (dfp_f m) \<and> unat (dfp_f m) < 2 ^ 54 \<and>
    diy_value m = mid_real 52 kDenormalExponent (unat d))"
proof -
  have d: "double_finite_pos d"
    using assms by (simp add: double_finite_pos_iff kInfinityBits_def)
  have s: "unat (Significand d) < 2 ^ 53"
    using enc_sig_less [of 52 "unat d"] by (simp add: double_accessors [OF d])
  then have f: "unat (Significand d * 2 + 1) = 2 * unat (Significand d) + 1"
    by (simp add: unat_plus unat_times)
  have "0 < Sign d"
    using d by (simp add: double_finite_pos_def)
  then show ?thesis
    using s dbl.upper_midpoint [OF d] by (simp add: UpperBoundary_def wp_simps f mid_real_def)
qed

lemma even_encoded: "0 < p \<Longrightarrow> even (enc_sig p n) \<longleftrightarrow> even n"
proof -
  assume "0 < p"
  then have "even ((2 :: nat) ^ p)"
    by simp
  moreover from this have "even (n mod 2 ^ p) \<longleftrightarrow> even n"
    by (rule dvd_mod_iff)
  ultimately show ?thesis
    by (simp add: enc_sig_def)
qed

lemma even_significand: "Significand d AND 1 = 0 \<longleftrightarrow> even (unat d)" if "unat d < kInfinityBits"
proof -
  have d: "double_finite_pos d"
    using that by (simp add: double_finite_pos_iff kInfinityBits_def)
  have "Significand d AND 1 = 0 \<longleftrightarrow> even (unat (Significand d))"
    by (simp add: word_unat_eq_iff nat_words even_iff_mod_2_eq_zero)
  also have "\<dots> \<longleftrightarrow> even (unat d)"
    unfolding double_accessors(1) [OF d] by (rule even_encoded) simp
  finally show ?thesis .
qed

end
