(* ===== verification/Strtod_Correct.thy ===== *)
theory Strtod_Correct
  imports Strtod_Compare
begin

unbundle bit_operations_syntax

declare of_nat_unat [simp del]

text \<open>
  \<open>Strtod\<close> of \<open>strtod.cc\<close> returns the double nearest to its input, ties to even, for every list of
  digits and every exponent: no assertion fails and no bignum overflows.
\<close>

section \<open>The guess\<close>

lemma scaled_nonnegative:
  assumes "unat d \<le> kInfinityBits"
  shows "double_scaled d = int (enc_val 52 (unat d))" and "\<not> IsNan d"
proof -
  have less: "unat d < 2 ^ 63"
    using assms by (simp add: kInfinityBits_def)
  then have "\<not> double_neg d"
    using double_fields(3) [of d] by (simp add: double_neg_def)
  with less show "double_scaled d = int (enc_val 52 (unat d))"
    by (simp add: double_scaled_sign double_magnitude_def)
  show "\<not> IsNan d"
    using less assms by (simp add: IsNan_iff kInfinityBits_def)
qed

lemma kInfinity_bits: "unat kInfinity = kInfinityBits"
  by (simp add: double_infinity kInfinityBits_def)

lemma equal_infinity: "unat d \<le> kInfinityBits \<Longrightarrow> double_equal d kInfinity \<longleftrightarrow> unat d = kInfinityBits"
  using scaled_nonnegative [of d] scaled_nonnegative [of kInfinity]
  by (simp add: double_equal_def kInfinity_bits enc_val_inject)

lemma verdict_certain: "double_nearest x r \<Longrightarrow> verdict x True r"
  by (simp add: verdict_def double_nearest_def)

lemma ComputeGuess_wp:
  assumes t: "trimmed_digits t"
  shows "wp (ComputeGuess t e) (\<lambda>(ok, r). verdict (real (dec_value t) * 10 powi e) ok r \<and> (unat r = kInfinityBits \<longrightarrow> ok) \<and>
    (\<not> ok \<longrightarrow> int (length t) + e \<le> 309 \<and> - 324 < int (length t) + e))"
proof (cases "t = []")
  case True
  then show ?thesis
    using nearest_zero_iff [of 0] ten_less_denormal
    by (simp add: ComputeGuess_def verdict_def kInfinityBits_def half_denormal)
next
  case False
  define x where "x = real (dec_value t) * 10 powi e"
  consider (large) "309 \<le> e + int (length t) - 1" | (tiny) "e + int (length t) \<le> - 324"
    | (normal) "e + int (length t) - 1 < 309" "- 324 < e + int (length t)"
    by linarith
  then show ?thesis
  proof cases
    case large
    have "10 powi 309 \<le> (10 :: real) powi (e + int (length t) - 1)"
      using large by (intro power_int_increasing) simp_all
    also have "\<dots> \<le> x"
      unfolding x_def by (rule trimmed_real_bounds(1) [OF t False])
    finally have "double_nearest x kInfinity"
      by (rule nearest_too_large)
    then show ?thesis
      using large False by (simp add: ComputeGuess_def kMaxDecimalPower_def verdict_certain x_def)
  next
    case tiny
    have "x < 10 powi (e + int (length t))"
      unfolding x_def by (rule trimmed_real_bounds(2) [OF t False])
    also have "\<dots> \<le> 10 powi - 324"
      using tiny by (intro power_int_increasing) simp_all
    finally have "double_nearest x 0"
      by (intro nearest_too_small) simp
    then show ?thesis
      using tiny False by (simp add: ComputeGuess_def kMaxDecimalPower_def kMinDecimalPower_def verdict_certain x_def)
  next
    case normal
    obtain d where d: "DoubleStrtod t e = Some d" "\<And>g. d = Some g \<Longrightarrow> double_nearest x g"
      using DoubleStrtod_wp [OF t False, of e] unfolding x_def by (rule wpE) auto
    show ?thesis
    proof (cases d)
      case (Some g)
      then have "double_nearest x g"
        by (rule d(2))
      then show ?thesis
        using normal False Some d(1) by (simp add: ComputeGuess_def kMaxDecimalPower_def kMinDecimalPower_def verdict_certain x_def)
    next
      case None
      have top: "e + int (length t) \<le> 309"
        using normal(1) by simp
      obtain ok r where r: "DiyFpStrtod t e = Some (ok, r)" "verdict x ok r"
        using DiyFpStrtod_wp [OF t False top] unfolding x_def by (rule wp_pairE) auto
      have "unat r \<le> kInfinityBits"
        using r(2) by (simp add: verdict_def)
      then show ?thesis
        using normal False None d(1) r by (auto simp: ComputeGuess_def kMaxDecimalPower_def kMinDecimalPower_def x_def equal_infinity)
          (auto simp: verdict_def)
    qed
  qed
qed

section \<open>The function\<close>

lemma next_nonnegative:
  assumes "unat d < kInfinityBits"
  shows "unat (NextDouble d) = Suc (unat d)"
proof -
  have "d \<noteq> kInfinity"
    using assms by (auto simp: kInfinity_bits)
  moreover have "unat d < 2 ^ 63"
    using assms by (simp add: kInfinityBits_def)
  then have "\<not> Sign d < 0"
    using double_fields(3) [of d] by linarith
  ultimately have "NextDouble d = d + 1"
    by (simp add: NextDouble_def)
  then show ?thesis
    using assms by (simp add: unat_plus kInfinityBits_def)
qed

text \<open>The comparison with the midpoint above an undecided guess decides.\<close>

lemma decided_below: "verdict x False r \<Longrightarrow> unat r < kInfinityBits \<Longrightarrow> upper_ok 52 kDenormalExponent x (unat r) \<Longrightarrow> double_nearest x r"
  by (simp add: verdict_def double_nearest_def)

lemma decided_above:
  assumes "verdict x False r" and "unat r < kInfinityBits" and "lower_ok 52 kDenormalExponent x (Suc (unat r))"
  shows "double_nearest x (NextDouble r)"
  using assms by (simp add: verdict_def double_nearest_def next_nonnegative)

theorem Strtod_wp:
  assumes "\<forall>c\<in>set buffer. is_digit c"
  shows "wp (Strtod buffer e) (double_nearest (real (dec_value buffer) * 10 powi e))"
proof -
  obtain t e' where trim: "TrimAndCut buffer e copy_buffer kMaxSignificantDecimalDigits = Some (t, e')"
    and t: "trimmed_digits t" "length t \<le> 780" and same: "same_input (real (dec_value buffer) * 10 powi e) t e'"
    using TrimAndCut_wp [OF assms] by (rule wp_pairE) auto
  define x where "x = real (dec_value t) * 10 powi e'"
  obtain ok r where guess: "ComputeGuess t e' = Some (ok, r)" and r: "verdict x ok r" "unat r = kInfinityBits \<longrightarrow> ok"
    and range: "\<not> ok \<longrightarrow> int (length t) + e' \<le> 309 \<and> - 324 < int (length t) + e'"
    using ComputeGuess_wp [OF t(1)] unfolding x_def by (rule wp_pairE) auto
  have "wp (Strtod buffer e) (double_nearest x)"
  proof (cases ok)
    case True
    then show ?thesis
      using r by (simp add: Strtod_def trim guess verdict_def)
  next
    case False
    then have v: "verdict x False r" and fin: "unat r < kInfinityBits"
      using r by (auto simp: verdict_def)
    obtain m where m: "UpperBoundary r = Some m" "0 < unat (dfp_f m)" "unat (dfp_f m) < 2 ^ 54"
        "diy_value m = mid_real 52 kDenormalExponent (unat r)"
      using UpperBoundary_wp [OF fin] by (auto elim: wpE)
    have d: "\<forall>c\<in>set t. is_digit c" "int (length t) + e' \<le> 310" "- 324 < int (length t) + e'"
      using t(1) range False by (simp_all add: trimmed_digits_def)
    obtain c where c: "CompareBufferWithDiyFp t e' m = Some c" "c < 0 \<longleftrightarrow> x < diy_value m" "0 < c \<longleftrightarrow> diy_value m < x"
      using CompareBufferWithDiyFp_wp [OF d(1) t(2) d(2,3) m(2,3)] unfolding x_def by (auto elim: wpE)
    have even: "Significand r AND 1 = 0 \<longleftrightarrow> even (unat r)"
      by (rule even_significand [OF fin])
    consider "c < 0" | "0 < c" | "c = 0" "even (unat r)" | "c = 0" "odd (unat r)"
      by linarith
    then have "(c < 0 \<or> c = 0 \<and> even (unat r)) \<and> upper_ok 52 kDenormalExponent x (unat r) \<or>
        (0 < c \<or> c = 0 \<and> odd (unat r)) \<and> lower_ok 52 kDenormalExponent x (Suc (unat r))"
      by cases (use c(2,3) m(4) in \<open>auto simp: upper_ok_def lower_ok_def\<close>)
    then show ?thesis
      using decided_below [OF v fin] decided_above [OF v fin] False
      by (auto simp: Strtod_def trim guess m(1) c(1) even)
  qed
  then show ?thesis
    by (rule wp_mono) (simp only: same_input_nearest [OF same] x_def)
qed

corollary Strtod_unique:
  assumes "\<forall>c\<in>set buffer. is_digit c" and "double_nearest (real (dec_value buffer) * 10 powi e) d"
  shows "Strtod buffer e = Some d"
  using Strtod_wp [OF assms(1), of e] double_nearest_unique [OF _ assms(2)] by (auto elim: wpE)

text \<open>One of two candidates is nearest when the first is not decided.\<close>

lemma verdict_cases: "verdict x ok d \<Longrightarrow> (ok \<longrightarrow> double_nearest x d) \<and> (\<not> ok \<longrightarrow> double_nearest x d \<or> double_nearest x (NextDouble d))"
proof (cases "ok \<or> unat d = kInfinityBits")
  case False
  assume "verdict x ok d"
  with False have v: "verdict x False d" "unat d < kInfinityBits"
    by (auto simp: verdict_def)
  have "upper_ok 52 kDenormalExponent x (unat d) \<or> lower_ok 52 kDenormalExponent x (Suc (unat d))"
    by (auto simp: upper_ok_def lower_ok_def)
  then show ?thesis
    using decided_below [OF v] decided_above [OF v] False by blast
qed (auto simp: verdict_def)

end
