(* ===== verification/Fixed_Dtoa.thy ===== *)
theory Fixed_Dtoa
  imports Digit_Generation Double_Arith
begin

unbundle bit_operations_syntax

text \<open>
  \<open>fixed-dtoa.cc\<close>: the digits of a double in fixed notation, from 64 and 128 bit integers.  \<open>FastFixedDtoa\<close> returns \<open>None\<close> inside the result where the C++ function
  returns false.
\<close>

section \<open>UInt128\<close>

record uint128 =
  high_bits :: u64
  low_bits :: u64

definition UInt128 :: "u64 \<Rightarrow> u64 \<Rightarrow> uint128" where
  "UInt128 high low = \<lparr>high_bits = high, low_bits = low\<rparr>"

definition UInt128_Multiply :: "uint128 \<Rightarrow> u32 \<Rightarrow> uint128 option" where
  "UInt128_Multiply this multiplicand = do {
     let kMask32 = 0xFFFFFFFF;
     let m = ucast multiplicand;
     let accumulator = (low_bits this AND kMask32) * m;
     let part = (ucast (accumulator AND kMask32) :: u32);
     let accumulator = drop_bit 32 accumulator;
     let accumulator = accumulator + drop_bit 32 (low_bits this) * m;
     let low = push_bit 32 accumulator + ucast part;
     let accumulator = drop_bit 32 accumulator;
     let accumulator = accumulator + (high_bits this AND kMask32) * m;
     let part = (ucast (accumulator AND kMask32) :: u32);
     let accumulator = drop_bit 32 accumulator;
     let accumulator = accumulator + drop_bit 32 (high_bits this) * m;
     let high = push_bit 32 accumulator + ucast part;
     ASSERT (drop_bit 32 accumulator = 0);
     Some \<lparr>high_bits = high, low_bits = low\<rparr> }"

definition UInt128_Shift :: "uint128 \<Rightarrow> int \<Rightarrow> uint128 option" where
  "UInt128_Shift this shift_amount = do {
     ASSERT (- 64 \<le> shift_amount \<and> shift_amount \<le> 64);
     if shift_amount = 0 then Some this
     else if shift_amount = - 64 then Some \<lparr>high_bits = low_bits this, low_bits = 0\<rparr>
     else if shift_amount = 64 then Some \<lparr>high_bits = 0, low_bits = high_bits this\<rparr>
     else if shift_amount \<le> 0 then do {
       high \<leftarrow> shl (high_bits this) (- shift_amount);
       up \<leftarrow> shr (low_bits this) (64 + shift_amount);
       low \<leftarrow> shl (low_bits this) (- shift_amount);
       Some \<lparr>high_bits = high + up, low_bits = low\<rparr> }
     else do {
       low \<leftarrow> shr (low_bits this) shift_amount;
       down \<leftarrow> shl (high_bits this) (64 - shift_amount);
       high \<leftarrow> shr (high_bits this) shift_amount;
       Some \<lparr>high_bits = high, low_bits = low + down\<rparr> } }"

definition UInt128_DivModPowerOf2 :: "uint128 \<Rightarrow> int \<Rightarrow> (int \<times> uint128) option" where
  "UInt128_DivModPowerOf2 this n =
    (if 64 \<le> n then do {
       top \<leftarrow> shr (high_bits this) (n - 64);
       let result = to_int top;
       back \<leftarrow> shl (word_of_int result) (n - 64);
       Some (result, this\<lparr>high_bits := high_bits this - back\<rparr>) }
     else do {
       part_low \<leftarrow> shr (low_bits this) n;
       part_high \<leftarrow> shl (high_bits this) (64 - n);
       let result = to_int (part_low + part_high);
       back \<leftarrow> shl part_low n;
       Some (result, \<lparr>high_bits = 0, low_bits = low_bits this - back\<rparr>) })"

definition UInt128_IsZero :: "uint128 \<Rightarrow> bool" where
  "UInt128_IsZero this \<longleftrightarrow> high_bits this = 0 \<and> low_bits this = 0"

definition UInt128_BitAt :: "uint128 \<Rightarrow> int \<Rightarrow> int option" where
  "UInt128_BitAt this position =
    (if 64 \<le> position then do { x \<leftarrow> shr (high_bits this) (position - 64); Some (to_int x AND 1) }
     else do { x \<leftarrow> shr (low_bits this) position; Some (to_int x AND 1) })"

section \<open>The digits of an integer\<close>

definition FillDigits32FixedLength :: "u32 \<Rightarrow> nat \<Rightarrow> char list \<Rightarrow> nat \<Rightarrow> (char list \<times> nat) option" where
  "FillDigits32FixedLength number requested_length buffer len = do {
     (number, buffer) \<leftarrow> for_down requested_length 0 (\<lambda>i (number, buffer). do {
       buffer \<leftarrow> wr buffer (len + i) (digit_char (unat (number mod 10)));
       Some (number div 10, buffer) }) (number, buffer);
     Some (buffer, len + requested_length) }"

definition FillDigits32_digit :: "nat \<Rightarrow> u32 \<times> char list \<times> nat \<Rightarrow> (u32 \<times> char list \<times> nat) option" where
  "FillDigits32_digit len = (\<lambda>(number, buffer, number_length). do {
     let digit = number mod 10;
     let number = number div 10;
     buffer \<leftarrow> wr buffer (len + number_length) (digit_char (unat digit));
     Some (number, buffer, number_length + 1) })"

definition FillDigits32_exchange :: "int \<times> int \<times> char list \<Rightarrow> (int \<times> int \<times> char list) option" where
  "FillDigits32_exchange = (\<lambda>(i, j, buffer). do {
     ASSERT (0 \<le> i \<and> 0 \<le> j);
     tmp \<leftarrow> rd buffer (nat i);
     c \<leftarrow> rd buffer (nat j);
     buffer \<leftarrow> wr buffer (nat i) c;
     buffer \<leftarrow> wr buffer (nat j) tmp;
     Some (i + 1, j - 1, buffer) })"

definition FillDigits32 :: "u32 \<Rightarrow> char list \<Rightarrow> nat \<Rightarrow> (char list \<times> nat) option" where
  "FillDigits32 number buffer len = do {
     (_, buffer, number_length) \<leftarrow> while_opt (\<lambda>(number, _). number \<noteq> 0) (FillDigits32_digit len) (number, buffer, 0);
     let i = int len;
     let j = int len + int number_length - 1;
     (_, _, buffer) \<leftarrow> while_opt (\<lambda>(i, j, _). i < j) FillDigits32_exchange (i, j, buffer);
     Some (buffer, len + number_length) }"

definition kTen7 :: u64 where "kTen7 = 10000000"

definition FillDigits64FixedLength :: "u64 \<Rightarrow> char list \<Rightarrow> nat \<Rightarrow> (char list \<times> nat) option" where
  "FillDigits64FixedLength number buffer len = do {
     let part2 = (ucast (number mod kTen7) :: u32);
     let number = number div kTen7;
     let part1 = (ucast (number mod kTen7) :: u32);
     let part0 = (ucast (number div kTen7) :: u32);
     (buffer, len) \<leftarrow> FillDigits32FixedLength part0 3 buffer len;
     (buffer, len) \<leftarrow> FillDigits32FixedLength part1 7 buffer len;
     FillDigits32FixedLength part2 7 buffer len }"

definition FillDigits64 :: "u64 \<Rightarrow> char list \<Rightarrow> nat \<Rightarrow> (char list \<times> nat) option" where
  "FillDigits64 number buffer len = do {
     let part2 = (ucast (number mod kTen7) :: u32);
     let number = number div kTen7;
     let part1 = (ucast (number mod kTen7) :: u32);
     let part0 = (ucast (number div kTen7) :: u32);
     if part0 \<noteq> 0 then do {
       (buffer, len) \<leftarrow> FillDigits32 part0 buffer len;
       (buffer, len) \<leftarrow> FillDigits32FixedLength part1 7 buffer len;
       FillDigits32FixedLength part2 7 buffer len }
     else if part1 \<noteq> 0 then do {
       (buffer, len) \<leftarrow> FillDigits32 part1 buffer len;
       FillDigits32FixedLength part2 7 buffer len }
     else FillDigits32 part2 buffer len }"

section \<open>Rounding and trimming\<close>

text \<open>The loop of \<open>RoundUp\<close>; the first component says that it has returned from the function.\<close>

primrec RoundUp_loop :: "nat \<Rightarrow> char list \<Rightarrow> (bool \<times> char list) option" where
  "RoundUp_loop 0 buffer = Some (False, buffer)"
| "RoundUp_loop (Suc i) buffer = do {
     c \<leftarrow> rd buffer (Suc i);
     if c \<noteq> digit_ten then Some (True, buffer)
     else do { buffer \<leftarrow> wr buffer (Suc i) (CHR ''0''); buffer \<leftarrow> incr buffer i; RoundUp_loop i buffer } }"

definition RoundUp :: "char list \<Rightarrow> nat \<Rightarrow> int \<Rightarrow> (char list \<times> nat \<times> int) option" where
  "RoundUp buffer len decimal_point =
    (if len = 0 then do { buffer \<leftarrow> wr buffer 0 (CHR ''1''); Some (buffer, 1, 1) }
     else do {
       buffer \<leftarrow> incr buffer (len - 1);
       (returned, buffer) \<leftarrow> RoundUp_loop (len - 1) buffer;
       if returned then Some (buffer, len, decimal_point)
       else do {
         c \<leftarrow> rd buffer 0;
         if c = digit_ten then do { buffer \<leftarrow> wr buffer 0 (CHR ''1''); Some (buffer, len, decimal_point + 1) }
         else Some (buffer, len, decimal_point) } })"

definition TrimZeros_shift :: "nat \<Rightarrow> nat \<Rightarrow> char list \<Rightarrow> char list option" where
  "TrimZeros_shift first_non_zero i buffer = do { c \<leftarrow> rd buffer i; wr buffer (i - first_non_zero) c }"

text \<open>The two scanning loops of \<open>TrimZeros\<close>, from the back and from the front.\<close>

primrec last_non_zero :: "char list \<Rightarrow> nat \<Rightarrow> nat option" where
  "last_non_zero buffer 0 = Some 0"
| "last_non_zero buffer (Suc n) = do {
     c \<leftarrow> rd buffer n;
     if c = CHR ''0'' then last_non_zero buffer n else Some (Suc n) }"

primrec leading_zeros :: "nat \<Rightarrow> char list \<Rightarrow> nat \<Rightarrow> nat option" where
  "leading_zeros 0 buffer i = Some i"
| "leading_zeros (Suc n) buffer i = do {
     c \<leftarrow> rd buffer i;
     if c = CHR ''0'' then leading_zeros n buffer (i + 1) else Some i }"

definition TrimZeros :: "char list \<Rightarrow> nat \<Rightarrow> int \<Rightarrow> (char list \<times> nat \<times> int) option" where
  "TrimZeros buffer len decimal_point = do {
     len \<leftarrow> last_non_zero buffer len;
     first_non_zero \<leftarrow> leading_zeros len buffer 0;
     if first_non_zero \<noteq> 0 then do {
       buffer \<leftarrow> for_up first_non_zero len (TrimZeros_shift first_non_zero) buffer;
       Some (buffer, len - first_non_zero, decimal_point - int first_non_zero) }
     else Some (buffer, len, decimal_point) }"

section \<open>The fractional digits\<close>

text \<open>The character \<open>'0' + digit\<close> depends on the digit modulo 256 only.\<close>

definition FillFractionals_digit :: "u64 \<times> int \<Rightarrow> (nat \<times> u64 \<times> int) option" where
  "FillFractionals_digit = (\<lambda>(fractionals, point). do {
     let fractionals = fractionals * 5;
     let point = point - 1;
     top \<leftarrow> shr fractionals point;
     let digit = to_int top;
     ASSERT (digit \<le> 9);
     back \<leftarrow> shl (word_of_int digit) point;
     Some (nat (digit mod 256), fractionals - back, point) })"

definition FillFractionals_digit128 :: "uint128 \<times> int \<Rightarrow> (nat \<times> uint128 \<times> int) option" where
  "FillFractionals_digit128 = (\<lambda>(fractionals128, point). do {
     fractionals128 \<leftarrow> UInt128_Multiply fractionals128 5;
     let point = point - 1;
     (digit, fractionals128) \<leftarrow> UInt128_DivModPowerOf2 fractionals128 point;
     ASSERT (digit \<le> 9);
     Some (nat (digit mod 256), fractionals128, point) })"

definition FillFractionals :: "u64 \<Rightarrow> int \<Rightarrow> int \<Rightarrow> char list \<Rightarrow> nat \<Rightarrow> int \<Rightarrow> (char list \<times> nat \<times> int) option" where
  "FillFractionals fractionals e fractional_count buffer len decimal_point = do {
     ASSERT (- 128 \<le> e \<and> e \<le> 0);
     if - e \<le> 64 then do {
       ASSERT (drop_bit 56 fractionals = 0);
       ((fractionals, point), buffer, len) \<leftarrow>
         emit_digits FillFractionals_digit (\<lambda>(fractionals, _). fractionals = 0) (nat fractional_count)
           ((fractionals, - e), buffer, len);
       half \<leftarrow> shr fractionals (point - 1);
       if half AND 1 = 1 then RoundUp buffer len decimal_point else Some (buffer, len, decimal_point) }
     else do {
       ASSERT (64 < - e \<and> - e \<le> 128);
       fractionals128 \<leftarrow> UInt128_Shift (UInt128 fractionals 0) (- e - 64);
       ((fractionals128, point), buffer, len) \<leftarrow>
         emit_digits FillFractionals_digit128 (\<lambda>(fractionals128, _). UInt128_IsZero fractionals128) (nat fractional_count)
           ((fractionals128, 128), buffer, len);
       half \<leftarrow> UInt128_BitAt fractionals128 (point - 1);
       if half = 1 then RoundUp buffer len decimal_point else Some (buffer, len, decimal_point) } }"

section \<open>FastFixedDtoa\<close>

definition kDoubleSignificandSize :: int where "kDoubleSignificandSize = 53"

text \<open>The quotient and the remainder of \<open>significand * 2 ^ e\<close> by \<open>10 ^ 17\<close>.\<close>

definition split_at_17 :: "u64 \<Rightarrow> int \<Rightarrow> (u32 \<times> u64) option" where
  "split_at_17 significand e = do {
     let kFive17 = (0xB1A2BC2EC5 :: u64);
     let divisor = kFive17;
     let divisor_power = 17;
     let dividend = significand;
     if divisor_power < e then do {
       dividend \<leftarrow> shl dividend (e - divisor_power);
       let quotient = (ucast (dividend div divisor) :: u32);
       remainder \<leftarrow> shl (dividend mod divisor) divisor_power;
       Some (quotient, remainder) }
     else do {
       divisor \<leftarrow> shl divisor (divisor_power - e);
       let quotient = (ucast (dividend div divisor) :: u32);
       remainder \<leftarrow> shl (dividend mod divisor) e;
       Some (quotient, remainder) } }"

definition FastFixedDtoa :: "double_bits \<Rightarrow> int \<Rightarrow> char list \<Rightarrow> (char list \<times> nat \<times> int) option option" where
  "FastFixedDtoa v fractional_count buffer = do {
     let kMaxUInt32 = 0xFFFFFFFF;
     let significand = Significand v;
     let e = Exponent v;
     if 20 < e then Some None
     else if 20 < fractional_count then Some None
     else do {
       (buffer, len, decimal_point) \<leftarrow>
         (if 64 < e + kDoubleSignificandSize then do {
            (quotient, remainder) \<leftarrow> split_at_17 significand e;
            (buffer, len) \<leftarrow> FillDigits32 quotient buffer 0;
            (buffer, len) \<leftarrow> FillDigits64FixedLength remainder buffer len;
            Some (buffer, len, int len) }
          else if 0 \<le> e then do {
            significand \<leftarrow> shl significand e;
            (buffer, len) \<leftarrow> FillDigits64 significand buffer 0;
            Some (buffer, len, int len) }
          else if - kDoubleSignificandSize < e then do {
            integrals \<leftarrow> shr significand (- e);
            whole \<leftarrow> shl integrals (- e);
            let fractionals = significand - whole;
            (buffer, len) \<leftarrow>
              (if kMaxUInt32 < integrals then FillDigits64 integrals buffer 0
               else FillDigits32 (ucast integrals) buffer 0);
            FillFractionals fractionals e fractional_count buffer len (int len) }
          else if e < - 128 then do {
            ASSERT (fractional_count \<le> 20);
            buffer \<leftarrow> wr buffer 0 (char_at 0);
            Some (buffer, 0, - fractional_count) }
          else FillFractionals significand e fractional_count buffer 0 0);
       (buffer, len, decimal_point) \<leftarrow> TrimZeros buffer len decimal_point;
       buffer \<leftarrow> wr buffer len (char_at 0);
       let decimal_point = (if len = 0 then - fractional_count else decimal_point);
       Some (Some (buffer, len, decimal_point)) } }"

end
