(* ===== verification/Fast_Dtoa.thy ===== *)
theory Fast_Dtoa
  imports Digit_Generation Cached_Powers Ieee_Boundaries
begin

unbundle bit_operations_syntax

text \<open>
  \<open>fast-dtoa.cc\<close>: Grisu3.  The digits of a double from 64 bit arithmetic on \<open>DiyFp\<close>s, with a check of
  the accumulated error that gives up where it does not decide the digits.  A function that returns
  false after it has written to the buffer has the buffer in its result.
\<close>

datatype FastDtoaMode = FAST_DTOA_SHORTEST | FAST_DTOA_SHORTEST_SINGLE | FAST_DTOA_PRECISION

definition kMinimalTargetExponent :: int where "kMinimalTargetExponent = - 60"
definition kMaximalTargetExponent :: int where "kMaximalTargetExponent = - 32"

section \<open>Rounding\<close>

text \<open>\<open>buffer[i]--\<close>\<close>

definition decr :: "char list \<Rightarrow> nat \<Rightarrow> char list option" where
  "decr buffer i = do { c \<leftarrow> rd buffer i; wr buffer i (char_at (code_of c - 1)) }"

definition RoundWeed_continue :: "u64 \<Rightarrow> u64 \<Rightarrow> u64 \<Rightarrow> u64 \<Rightarrow> bool" where
  "RoundWeed_continue small_distance unsafe_interval ten_kappa rest \<longleftrightarrow>
    rest < small_distance \<and> ten_kappa \<le> unsafe_interval - rest \<and>
    (rest + ten_kappa < small_distance \<or> rest + ten_kappa - small_distance \<le> small_distance - rest)"

definition RoundWeed :: "char list \<Rightarrow> nat \<Rightarrow> u64 \<Rightarrow> u64 \<Rightarrow> u64 \<Rightarrow> u64 \<Rightarrow> u64 \<Rightarrow> (bool \<times> char list) option" where
  "RoundWeed buffer len distance_too_high_w unsafe_interval rest ten_kappa unit = do {
     let small_distance = distance_too_high_w - unit;
     let big_distance = distance_too_high_w + unit;
     ASSERT (rest \<le> unsafe_interval);
     (buffer, rest) \<leftarrow> while_opt (\<lambda>(buffer, rest). RoundWeed_continue small_distance unsafe_interval ten_kappa rest)
       (\<lambda>(buffer, rest). do { buffer \<leftarrow> decr buffer (len - 1); Some (buffer, rest + ten_kappa) }) (buffer, rest);
     if rest < big_distance \<and> ten_kappa \<le> unsafe_interval - rest \<and>
       (rest + ten_kappa < big_distance \<or> rest + ten_kappa - big_distance < big_distance - rest)
     then Some (False, buffer)
     else Some (2 * unit \<le> rest \<and> rest \<le> unsafe_interval - 4 * unit, buffer) }"

definition RoundWeedCounted :: "char list \<Rightarrow> nat \<Rightarrow> u64 \<Rightarrow> u64 \<Rightarrow> u64 \<Rightarrow> int \<Rightarrow> (bool \<times> char list \<times> int) option" where
  "RoundWeedCounted buffer len rest ten_kappa unit kappa = do {
     ASSERT (rest < ten_kappa);
     if ten_kappa \<le> unit then Some (False, buffer, kappa)
     else if ten_kappa - unit \<le> unit then Some (False, buffer, kappa)
     else if rest < ten_kappa - rest \<and> 2 * unit \<le> ten_kappa - 2 * rest then Some (True, buffer, kappa)
     else if unit < rest \<and> ten_kappa - (rest - unit) \<le> rest - unit then do {
       buffer \<leftarrow> incr buffer (len - 1);
       buffer \<leftarrow> propagate_carry (len - 1) buffer;
       (buffer, kappa) \<leftarrow> carry_past_top buffer kappa;
       Some (True, buffer, kappa) }
     else Some (False, buffer, kappa) }"

definition kSmallPowersOfTen :: "u32 list" where
  "kSmallPowersOfTen =
    [0, 1, 10, 100, 1000, 10000, 100000, 1000000, 10000000, 100000000, 1000000000]"

text \<open>The result is \<open>(*power, *exponent_plus_one)\<close>; the shift by 12 of a positive int is a division.\<close>

definition BiggestPowerTen :: "u32 \<Rightarrow> int \<Rightarrow> (u32 \<times> int) option" where
  "BiggestPowerTen number number_bits = do {
     limit \<leftarrow> shl 1 (number_bits + 1);
     ASSERT (number < limit);
     let exponent_plus_one_guess = (number_bits + 1) * 1233 div 2 ^ 12;
     let exponent_plus_one_guess = exponent_plus_one_guess + 1;
     ASSERT (0 \<le> exponent_plus_one_guess);
     p \<leftarrow> rd kSmallPowersOfTen (nat exponent_plus_one_guess);
     let exponent_plus_one_guess = (if number < p then exponent_plus_one_guess - 1 else exponent_plus_one_guess);
     ASSERT (0 \<le> exponent_plus_one_guess);
     p \<leftarrow> rd kSmallPowersOfTen (nat exponent_plus_one_guess);
     Some (p, exponent_plus_one_guess) }"

section \<open>Digit generation\<close>

record grisu_integrals =
  gi_result :: "bool option"
  gi_integrals :: u32
  gi_divisor :: u32
  gi_kappa :: int
  gi_buffer :: "char list"
  gi_length :: nat

record grisu_fractionals =
  gf_result :: "bool option"
  gf_fractionals :: u64
  gf_unit :: u64
  gf_unsafe :: u64
  gf_kappa :: int
  gf_buffer :: "char list"
  gf_length :: nat

text \<open>
  The bodies of the two loops of \<open>DigitGen\<close>; the result component is set where the function returns.
\<close>

definition DigitGen_integrals :: "diy_fp \<Rightarrow> diy_fp \<Rightarrow> diy_fp \<Rightarrow> diy_fp \<Rightarrow> u64 \<Rightarrow> u64 \<Rightarrow> grisu_integrals \<Rightarrow> grisu_integrals option" where
  "DigitGen_integrals too_high w one unsafe_interval fractionals unit s = do {
     ASSERT (gi_divisor s \<noteq> 0);
     let digit = gi_integrals s div gi_divisor s;
     ASSERT (sint digit \<le> 9);
     buffer \<leftarrow> wr (gi_buffer s) (gi_length s) (digit_char (unat digit));
     let len = gi_length s + 1;
     let integrals = gi_integrals s mod gi_divisor s;
     let kappa = gi_kappa s - 1;
     let s = s\<lparr>gi_integrals := integrals, gi_kappa := kappa, gi_buffer := buffer, gi_length := len\<rparr>;
     high \<leftarrow> shl (ucast integrals) (- dfp_e one);
     let rest = high + fractionals;
     if rest < dfp_f unsafe_interval then do {
       distance \<leftarrow> Minus too_high w;
       ten_kappa \<leftarrow> shl (ucast (gi_divisor s)) (- dfp_e one);
       (result, buffer) \<leftarrow> RoundWeed buffer len (dfp_f distance) (dfp_f unsafe_interval) rest ten_kappa unit;
       Some (s\<lparr>gi_result := Some result, gi_buffer := buffer\<rparr>) }
     else Some (s\<lparr>gi_divisor := gi_divisor s div 10\<rparr>) }"

definition DigitGen_fractionals :: "diy_fp \<Rightarrow> diy_fp \<Rightarrow> diy_fp \<Rightarrow> grisu_fractionals \<Rightarrow> grisu_fractionals option" where
  "DigitGen_fractionals too_high w one s = do {
     let fractionals = gf_fractionals s * 10;
     let unit = gf_unit s * 10;
     let unsafe = gf_unsafe s * 10;
     top \<leftarrow> shr fractionals (- dfp_e one);
     let digit = to_int top;
     ASSERT (digit \<le> 9);
     buffer \<leftarrow> wr (gf_buffer s) (gf_length s) (digit_char (nat (digit mod 256)));
     let len = gf_length s + 1;
     let fractionals = fractionals AND (dfp_f one - 1);
     let kappa = gf_kappa s - 1;
     let s = \<lparr>gf_result = None, gf_fractionals = fractionals, gf_unit = unit, gf_unsafe = unsafe,
              gf_kappa = kappa, gf_buffer = buffer, gf_length = len\<rparr>;
     if fractionals < unsafe then do {
       distance \<leftarrow> Minus too_high w;
       (result, buffer) \<leftarrow> RoundWeed buffer len (dfp_f distance * unit) unsafe fractionals (dfp_f one) unit;
       Some (s\<lparr>gf_result := Some result, gf_buffer := buffer\<rparr>) }
     else Some s }"

text \<open>The result is the returned bool, the buffer, \<open>*length\<close> and \<open>*kappa\<close>.\<close>

definition DigitGen :: "diy_fp \<Rightarrow> diy_fp \<Rightarrow> diy_fp \<Rightarrow> char list \<Rightarrow> (bool \<times> char list \<times> nat \<times> int) option" where
  "DigitGen low w high buffer = do {
     ASSERT (dfp_e low = dfp_e w \<and> dfp_e w = dfp_e high);
     ASSERT (dfp_f low + 1 \<le> dfp_f high - 1);
     ASSERT (kMinimalTargetExponent \<le> dfp_e w \<and> dfp_e w \<le> kMaximalTargetExponent);
     let unit = 1;
     let too_low = DiyFp (dfp_f low - unit) (dfp_e low);
     let too_high = DiyFp (dfp_f high + unit) (dfp_e high);
     unsafe_interval \<leftarrow> Minus too_high too_low;
     one_f \<leftarrow> shl 1 (- dfp_e w);
     let one = DiyFp one_f (dfp_e w);
     top \<leftarrow> shr (dfp_f too_high) (- dfp_e one);
     let integrals = ucast top;
     let fractionals = dfp_f too_high AND (dfp_f one - 1);
     (divisor, divisor_exponent_plus_one) \<leftarrow> BiggestPowerTen integrals (kDiyFpSignificandSize - (- dfp_e one));
     s \<leftarrow> while_opt (\<lambda>s. gi_result s = None \<and> 0 < gi_kappa s)
       (DigitGen_integrals too_high w one unsafe_interval fractionals unit)
       \<lparr>gi_result = None, gi_integrals = integrals, gi_divisor = divisor,
        gi_kappa = divisor_exponent_plus_one, gi_buffer = buffer, gi_length = 0\<rparr>;
     case gi_result s of Some result \<Rightarrow> Some (result, gi_buffer s, gi_length s, gi_kappa s)
     | None \<Rightarrow> do {
         ASSERT (- 60 \<le> dfp_e one);
         ASSERT (fractionals < dfp_f one);
         ASSERT (dfp_f one \<le> 0xFFFFFFFFFFFFFFFF div 10);
         t \<leftarrow> while_opt (\<lambda>t. gf_result t = None) (DigitGen_fractionals too_high w one)
           \<lparr>gf_result = None, gf_fractionals = fractionals, gf_unit = unit, gf_unsafe = dfp_f unsafe_interval,
            gf_kappa = gi_kappa s, gf_buffer = gi_buffer s, gf_length = gi_length s\<rparr>;
         result \<leftarrow> gf_result t;
         Some (result, gf_buffer t, gf_length t, gf_kappa t) } }"

section \<open>Counted digits\<close>

definition DigitGenCounted_integrals :: "grisu_integrals \<times> int \<Rightarrow> (grisu_integrals \<times> int) option" where
  "DigitGenCounted_integrals = (\<lambda>(s, requested_digits). do {
     ASSERT (gi_divisor s \<noteq> 0);
     let digit = gi_integrals s div gi_divisor s;
     ASSERT (sint digit \<le> 9);
     buffer \<leftarrow> wr (gi_buffer s) (gi_length s) (digit_char (unat digit));
     let requested_digits = requested_digits - 1;
     let s = s\<lparr>gi_integrals := gi_integrals s mod gi_divisor s, gi_kappa := gi_kappa s - 1,
               gi_buffer := buffer, gi_length := gi_length s + 1\<rparr>;
     if requested_digits = 0 then Some (s\<lparr>gi_result := Some True\<rparr>, requested_digits)
     else Some (s\<lparr>gi_divisor := gi_divisor s div 10\<rparr>, requested_digits) })"

definition DigitGenCounted_fractionals :: "diy_fp \<Rightarrow> grisu_fractionals \<times> int \<Rightarrow> (grisu_fractionals \<times> int) option" where
  "DigitGenCounted_fractionals one = (\<lambda>(s, requested_digits). do {
     let fractionals = gf_fractionals s * 10;
     let w_error = gf_unit s * 10;
     top \<leftarrow> shr fractionals (- dfp_e one);
     let digit = to_int top;
     ASSERT (digit \<le> 9);
     buffer \<leftarrow> wr (gf_buffer s) (gf_length s) (digit_char (nat (digit mod 256)));
     Some (s\<lparr>gf_fractionals := fractionals AND (dfp_f one - 1), gf_unit := w_error, gf_kappa := gf_kappa s - 1,
             gf_buffer := buffer, gf_length := gf_length s + 1\<rparr>, requested_digits - 1) })"

text \<open>
  \<open>gi_result\<close> is set by the \<open>break\<close> of the first loop; \<open>gf_unit\<close> is the variable \<open>w_error\<close>.
\<close>

definition DigitGenCounted :: "diy_fp \<Rightarrow> int \<Rightarrow> char list \<Rightarrow> (bool \<times> char list \<times> nat \<times> int) option" where
  "DigitGenCounted w requested_digits buffer = do {
     ASSERT (kMinimalTargetExponent \<le> dfp_e w \<and> dfp_e w \<le> kMaximalTargetExponent);
     ASSERT (- 60 \<le> kMinimalTargetExponent);
     ASSERT (kMaximalTargetExponent \<le> - 32);
     let w_error = 1;
     one_f \<leftarrow> shl 1 (- dfp_e w);
     let one = DiyFp one_f (dfp_e w);
     top \<leftarrow> shr (dfp_f w) (- dfp_e one);
     let integrals = ucast top;
     let fractionals = dfp_f w AND (dfp_f one - 1);
     (divisor, divisor_exponent_plus_one) \<leftarrow> BiggestPowerTen integrals (kDiyFpSignificandSize - (- dfp_e one));
     (s, requested_digits) \<leftarrow> while_opt (\<lambda>(s, _). gi_result s = None \<and> 0 < gi_kappa s) DigitGenCounted_integrals
       (\<lparr>gi_result = None, gi_integrals = integrals, gi_divisor = divisor,
         gi_kappa = divisor_exponent_plus_one, gi_buffer = buffer, gi_length = 0\<rparr>, requested_digits);
     if requested_digits = 0 then do {
       high \<leftarrow> shl (ucast (gi_integrals s)) (- dfp_e one);
       let rest = high + fractionals;
       ten_kappa \<leftarrow> shl (ucast (gi_divisor s)) (- dfp_e one);
       (result, buffer, kappa) \<leftarrow> RoundWeedCounted (gi_buffer s) (gi_length s) rest ten_kappa w_error (gi_kappa s);
       Some (result, buffer, gi_length s, kappa) }
     else do {
       ASSERT (- 60 \<le> dfp_e one);
       ASSERT (fractionals < dfp_f one);
       ASSERT (dfp_f one \<le> 0xFFFFFFFFFFFFFFFF div 10);
       (t, requested_digits) \<leftarrow> while_opt (\<lambda>(t, requested_digits). 0 < requested_digits \<and> gf_unit t < gf_fractionals t)
         (DigitGenCounted_fractionals one)
         (\<lparr>gf_result = None, gf_fractionals = fractionals, gf_unit = w_error, gf_unsafe = 0,
           gf_kappa = gi_kappa s, gf_buffer = gi_buffer s, gf_length = gi_length s\<rparr>, requested_digits);
       if requested_digits \<noteq> 0 then Some (False, gf_buffer t, gf_length t, gf_kappa t)
       else do {
         (result, buffer, kappa) \<leftarrow>
           RoundWeedCounted (gf_buffer t) (gf_length t) (gf_fractionals t) (dfp_f one) (gf_unit t) (gf_kappa t);
         Some (result, buffer, gf_length t, kappa) } } }"

section \<open>Grisu3\<close>

text \<open>The search for the cached power, the same text in \<open>Grisu3\<close> and in \<open>Grisu3Counted\<close>.\<close>

definition target_power :: "diy_fp \<Rightarrow> (diy_fp \<times> int) option" where
  "target_power w = do {
     let ten_mk_minimal_binary_exponent = kMinimalTargetExponent - (dfp_e w + kDiyFpSignificandSize);
     let ten_mk_maximal_binary_exponent = kMaximalTargetExponent - (dfp_e w + kDiyFpSignificandSize);
     (ten_mk, mk) \<leftarrow> GetCachedPowerForBinaryExponentRange ten_mk_minimal_binary_exponent ten_mk_maximal_binary_exponent;
     ASSERT (kMinimalTargetExponent \<le> dfp_e w + dfp_e ten_mk + kDiyFpSignificandSize \<and>
             dfp_e w + dfp_e ten_mk + kDiyFpSignificandSize \<le> kMaximalTargetExponent);
     Some (ten_mk, mk) }"

text \<open>The result is the returned bool, the buffer, \<open>*length\<close> and \<open>*decimal_exponent\<close>.\<close>

definition Grisu3 :: "double_bits \<Rightarrow> FastDtoaMode \<Rightarrow> char list \<Rightarrow> (bool \<times> char list \<times> nat \<times> int) option" where
  "Grisu3 v mode buffer = do {
     w \<leftarrow> AsNormalizedDiyFp v;
     (boundary_minus, boundary_plus) \<leftarrow>
       (if mode = FAST_DTOA_SHORTEST then NormalizedBoundaries v
        else do {
          ASSERT (mode = FAST_DTOA_SHORTEST_SINGLE);
          Single_NormalizedBoundaries (single_of_double v) });
     ASSERT (dfp_e boundary_plus = dfp_e w);
     (ten_mk, mk) \<leftarrow> target_power w;
     let scaled_w = Times w ten_mk;
     ASSERT (dfp_e scaled_w = dfp_e boundary_plus + dfp_e ten_mk + kDiyFpSignificandSize);
     let scaled_boundary_minus = Times boundary_minus ten_mk;
     let scaled_boundary_plus = Times boundary_plus ten_mk;
     (result, buffer, len, kappa) \<leftarrow> DigitGen scaled_boundary_minus scaled_w scaled_boundary_plus buffer;
     Some (result, buffer, len, - mk + kappa) }"

definition Grisu3Counted :: "double_bits \<Rightarrow> int \<Rightarrow> char list \<Rightarrow> (bool \<times> char list \<times> nat \<times> int) option" where
  "Grisu3Counted v requested_digits buffer = do {
     w \<leftarrow> AsNormalizedDiyFp v;
     (ten_mk, mk) \<leftarrow> target_power w;
     let scaled_w = Times w ten_mk;
     (result, buffer, len, kappa) \<leftarrow> DigitGenCounted scaled_w requested_digits buffer;
     Some (result, buffer, len, - mk + kappa) }"

text \<open>
  The buffer comes back in both cases, \<open>(*length, *decimal_point)\<close> where the function returns true.
\<close>

definition FastDtoa :: "double_bits \<Rightarrow> FastDtoaMode \<Rightarrow> int \<Rightarrow> char list \<Rightarrow> (char list \<times> (nat \<times> int) option) option" where
  "FastDtoa v mode requested_digits buffer = do {
     ASSERT (double_less 0 v);
     ASSERT (\<not> IsSpecial v);
     (result, buffer, len, decimal_exponent) \<leftarrow>
       (if mode = FAST_DTOA_SHORTEST \<or> mode = FAST_DTOA_SHORTEST_SINGLE then Grisu3 v mode buffer
        else Grisu3Counted v requested_digits buffer);
     if result then do {
       let decimal_point = int len + decimal_exponent;
       buffer \<leftarrow> wr buffer len (char_at 0);
       Some (buffer, Some (len, decimal_point)) }
     else Some (buffer, None) }"

end
