(* ===== verification/Grisu_Weed.thy ===== *)
theory Grisu_Weed
  imports Fast_Dtoa
begin

unbundle bit_operations_syntax

text \<open>
  \<open>RoundWeed\<close> of \<open>fast-dtoa.cc\<close>: the last digit goes down as long as the number comes closer to the
  one that the digits stand for, which is only known up to \<open>unit\<close>.  The function returns true where
  no other last digit can be closer and the number is inside of the safe interval.
\<close>

section \<open>The last digit\<close>

lemma decr_digit:
  assumes "i < length b" and "b ! i = digit_char (Suc x)" and "x < 9"
  shows "decr b i = Some (b[i := digit_char x])"
  using assms code_of_digit_char [of "Suc x"]
  by (simp add: decr_def rd_def wr_def) (simp add: digit_char_def code_of_def add.commute)

lemma RoundWeed_continue_iff:
  assumes "unat d1 = S" and "unat u = U" and "unat k = K" and "unat r = R" and "R \<le> U"
  shows "RoundWeed_continue d1 u k r \<longleftrightarrow> R < S \<and> R + K \<le> U \<and> 2 * R + K \<le> 2 * S"
proof (cases "R + K \<le> U")
  case True
  then have "unat (r + k) = R + K" "unat (u - r) = U - R"
    using assms unat_lt64 [of u] by (simp_all add: unat_plus unat_minus)
  moreover from this have "unat (r + k - d1) = R + K - S" if "S \<le> R + K"
    using that assms by (simp add: unat_minus)
  moreover have "unat (d1 - r) = S - R" if "R < S"
    using that assms by (simp add: unat_minus)
  ultimately show ?thesis
    using assms True by (cases "S \<le> R + K") (auto simp: RoundWeed_continue_def word_nat_order)
next
  case False
  then have "\<not> k \<le> u - r"
    using assms by (simp add: unat_minus word_nat_order)
  then show ?thesis
    using False by (simp add: RoundWeed_continue_def)
qed

lemma RoundWeed_undecided_iff:
  fixes d2 u k r :: u64
  assumes "unat d2 = B" and "unat u = U" and "unat k = K" and "unat r = R" and "R \<le> U"
  shows "r < d2 \<and> k \<le> u - r \<and> (r + k < d2 \<or> r + k - d2 < d2 - r) \<longleftrightarrow> R < B \<and> R + K \<le> U \<and> 2 * R + K < 2 * B"
proof (cases "R + K \<le> U")
  case True
  then have "unat (r + k) = R + K" "unat (u - r) = U - R"
    using assms unat_lt64 [of u] by (simp_all add: unat_plus unat_minus)
  moreover from this have "unat (r + k - d2) = R + K - B" if "B \<le> R + K"
    using that assms by (simp add: unat_minus)
  moreover have "unat (d2 - r) = B - R" if "R < B"
    using that assms by (simp add: unat_minus)
  ultimately show ?thesis
    using assms True by (cases "B \<le> R + K") (auto simp: word_nat_order)
next
  case False
  then have "\<not> k \<le> u - r"
    using assms by (simp add: unat_minus word_nat_order)
  then show ?thesis
    using False by simp
qed

section \<open>The result\<close>

definition weeded :: "nat \<Rightarrow> nat \<Rightarrow> nat \<Rightarrow> nat \<Rightarrow> nat \<Rightarrow> bool" where
  "weeded D U K e R \<longleftrightarrow> 2 * e \<le> R \<and> R + 4 * e \<le> U \<and> (R + K \<le> U \<longrightarrow> 2 * (D + e) \<le> 2 * R + K)"

theorem RoundWeed_wp:
  assumes b: "0 < len" "len \<le> length b" "b ! (len - 1) = digit_char x" "x \<le> 9"
    and nats: "unat d = D" "unat u = U" "unat r = R" "unat k = K" "unat one = e"
    and "0 < K" and "R \<le> U" and e: "e \<le> D" "D + e < 2 ^ 64" "4 * e \<le> U" and x: "U \<le> x * K + R"
  shows "wp (RoundWeed b len d u r k one) (\<lambda>(result, b'). \<exists>m\<le>x. b' = b[len - 1 := digit_char (x - m)] \<and>
    R + m * K \<le> U \<and> (m = 0 \<or> 2 * (R + m * K) \<le> 2 * (D - e) + K) \<and> (result \<longrightarrow> weeded D U K e (R + m * K)))"
proof -
  define I where "I = (\<lambda>(b', r' :: u64). \<exists>m\<le>x. b' = b[len - 1 := digit_char (x - m)] \<and> unat r' = R + m * K \<and>
    R + m * K \<le> U \<and> (m = 0 \<or> 2 * (R + m * K) \<le> 2 * (D - e) + K))"
  have S: "unat (d - one) = D - e" and B: "unat (d + one) = D + e" and four: "unat (4 * one) = 4 * e" and two: "unat (2 * one) = 2 * e"
    using e nats unat_lt64 [of u] by (simp_all add: unat_minus unat_plus unat_times)
  have loop: "wp (while_opt (\<lambda>(buffer, rest). RoundWeed_continue (d - one) u k rest)
      (\<lambda>(buffer, rest). do { buffer \<leftarrow> decr buffer (len - 1); Some (buffer, rest + k) }) (b, r)) I"
  proof (rule while_opt_rule [where I = I and m = "\<lambda>(b', r'). U - unat r'"])
    show "I (b, r)"
      unfolding I_def prod.case using b nats \<open>R \<le> U\<close> by (intro exI [of _ 0]) (simp add: list_update_same_conv flip: b(3))
  next
    fix t
    assume I: "I t" and c: "case t of (buffer, rest) \<Rightarrow> RoundWeed_continue (d - one) u k rest"
    obtain b' r' where t: "t = (b', r')" by (cases t)
    obtain m where m: "m \<le> x" "b' = b[len - 1 := digit_char (x - m)]" "unat r' = R + m * K" "R + m * K \<le> U"
      using I by (auto simp: I_def t)
    have c': "R + m * K + K \<le> U" "2 * (R + m * K) + K \<le> 2 * (D - e)"
      using c RoundWeed_continue_iff [OF S nats(2,4) m(3,4)] by (simp_all add: t)
    have "m * K < x * K"
      using c'(1) x \<open>0 < K\<close> by linarith
    then have "m < x"
      by simp
    then obtain y where y: "x - m = Suc y" "y < 9" "y = x - Suc m"
      using b(4) by (auto simp: Suc_diff_Suc intro!: that [of "x - Suc m"])
    have "decr b' (len - 1) = Some (b'[len - 1 := digit_char y])"
      by (rule decr_digit) (use m(2) y b in simp_all)
    moreover have "unat (r' + k) = R + Suc m * K"
      using m(3) nats(2,4) c'(1) unat_lt64 [of u] by (simp add: unat_plus)
    moreover have "b'[len - 1 := digit_char y] = b[len - 1 := digit_char (x - Suc m)]"
      by (simp add: m(2) y(3))
    moreover have "R + Suc m * K \<le> U" "2 * (R + Suc m * K) \<le> 2 * (D - e) + K" "U - (R + Suc m * K) < U - (R + m * K)"
      using c' \<open>0 < K\<close> by simp_all
    ultimately show "wp (case t of (buffer, rest) \<Rightarrow> do { buffer \<leftarrow> decr buffer (len - 1); Some (buffer, rest + k) })
      (\<lambda>v. I v \<and> (case v of (b', r') \<Rightarrow> U - unat r') < (case t of (b', r') \<Rightarrow> U - unat r'))"
      using \<open>m < x\<close> m(3) by (auto simp: t I_def intro!: exI [of _ "Suc m"])
  qed simp
  obtain b' r' m where run: "while_opt (\<lambda>(buffer, rest). RoundWeed_continue (d - one) u k rest)
      (\<lambda>(buffer, rest). do { buffer \<leftarrow> decr buffer (len - 1); Some (buffer, rest + k) }) (b, r) = Some (b', r')"
    and m: "m \<le> x" "b' = b[len - 1 := digit_char (x - m)]" "unat r' = R + m * K" "R + m * K \<le> U"
      "m = 0 \<or> 2 * (R + m * K) \<le> 2 * (D - e) + K"
    using loop by (rule wp_pairE) (auto simp: I_def)
  have "ASSERT (r \<le> u) = Some ()"
    using \<open>R \<le> U\<close> by (simp add: ASSERT_def word_nat_order nats)
  then have "RoundWeed b len d u r k one = (
     if r' < d + one \<and> k \<le> u - r' \<and> (r' + k < d + one \<or> r' + k - (d + one) < d + one - r') then Some (False, b')
     else Some (2 * one \<le> r' \<and> r' \<le> u - 4 * one, b'))"
    unfolding RoundWeed_def Let_def by (simp only: run bind.simps prod.case)
  also have "\<dots> = Some (\<not> (R + m * K < D + e \<and> R + m * K + K \<le> U \<and> 2 * (R + m * K) + K < 2 * (D + e)) \<and>
      2 * e \<le> R + m * K \<and> R + m * K + 4 * e \<le> U, b')"
    unfolding RoundWeed_undecided_iff [OF B nats(2,4) m(3,4)] using e nats
    by (auto simp: word_nat_order unat_minus four two m(3))
  finally show ?thesis
    using m \<open>0 < K\<close> by (auto simp: weeded_def)
qed

end
