(* ===== verification/Grisu_Stage.thy ===== *)
theory Grisu_Stage
  imports Grisu_Weed Shortest_Decimal
begin

unbundle bit_operations_syntax

text \<open>
  The arithmetic of \<open>DigitGen\<close> in \<open>fast-dtoa.cc\<close>.  \<open>T\<close> is \<open>too_high\<close>, \<open>U\<close> the unsafe interval below
  it and \<open>D\<close> the distance of \<open>T\<close> from the number itself, all counted in units of the last place.  The
  second loop multiplies what is left by ten instead of dividing the power of ten, so that a stage of
  the generation has the unit \<open>c\<close>, a power of ten.
\<close>

section \<open>Between two digits\<close>

text \<open>
  The digits written, followed by the fraction \<open>r / L\<close>, are \<open>T\<close>; what is left is not smaller than the
  unsafe interval, and \<open>L\<close> is the place of the last digit written.
\<close>

definition gstage :: "nat \<Rightarrow> nat \<Rightarrow> nat \<Rightarrow> nat \<Rightarrow> nat \<Rightarrow> nat \<Rightarrow> nat \<Rightarrow> char list \<Rightarrow> nat \<Rightarrow> bool" where
  "gstage T U W N c L r b len \<longleftrightarrow> length b = N \<and> digits_in b 0 len \<and> 0 < c \<and> L * 10 ^ len = c * W \<and>
    T * c = dec_value (part b 0 len) * L + r \<and> r < L \<and> U * c \<le> r \<and>
    (if len = 0 then L \<le> 10 * r else b ! 0 \<noteq> CHR ''0'')"

lemma gstage_scale: "gstage T U W N c L r b len \<Longrightarrow> gstage T U W N (10 * c) (10 * L) (10 * r) b len"
  by (auto simp: gstage_def algebra_simps split: if_splits)

text \<open>The digits so far are few, because the unsafe interval is not too small.\<close>

lemma gstage_few:
  assumes g: "gstage T U W N c L r b len" and n: "W \<le> 10 ^ Suc n * U"
  shows "len \<le> n"
proof -
  have "0 < c" "U * c \<le> r" "r < L" "L * 10 ^ len = c * W"
    using g by (simp_all add: gstage_def)
  then have "U * c * 10 ^ len < c * W"
    by (metis le_less_trans mult_less_mono1 zero_less_numeral zero_less_power)
  also have "\<dots> \<le> c * (10 ^ Suc n * U)"
    using n by (rule mult_le_mono2)
  finally have "(c * U) * 10 ^ len < (c * U) * 10 ^ Suc n"
    by (simp only: ac_simps)
  then have "(10 :: nat) ^ len < 10 ^ Suc n"
    by (simp only: mult_less_cancel1)
  then have "len < Suc n"
    by (simp only: power_strict_increasing_iff)
  then show ?thesis
    by simp
qed

section \<open>One more digit\<close>

lemma gstage_digit:
  assumes g: "gstage T U W N c (10 * K) r b len" and "0 < K" and "len < N"
    and x: "x = r div K" and R: "R = r mod K"
  shows "x \<le> 9" and "R < K" and "len = 0 \<Longrightarrow> x \<noteq> 0" and "T * c = (10 * dec_value (part b 0 len) + x) * K + R"
    and "U * c \<le> x * K + R" and "x * K + R < 10 * K"
    and "U * c \<le> R \<Longrightarrow> gstage T U W N c K R (b[len := digit_char x]) (Suc len)"
proof -
  have r: "r = x * K + R"
    by (simp add: x R)
  show "R < K"
    using \<open>0 < K\<close> by (simp add: R)
  show "x * K + R < 10 * K" "U * c \<le> x * K + R"
    using g by (simp_all add: gstage_def flip: r)
  then have "x * K < 10 * K"
    by linarith
  then show x9: "x \<le> 9"
    using \<open>0 < K\<close> by simp
  show eq: "T * c = (10 * dec_value (part b 0 len) + x) * K + R"
    using g by (simp add: gstage_def r algebra_simps)
  show nz: "x \<noteq> 0" if "len = 0"
    using g that \<open>R < K\<close> by (intro notI) (simp add: gstage_def r)
  assume "U * c \<le> R"
  moreover have "K * 10 ^ Suc len = c * W"
    using g by (simp add: gstage_def ac_simps)
  moreover have "digits_in b 0 len" "length b = N" "0 < c" "if len = 0 then x \<noteq> 0 else b ! 0 \<noteq> CHR ''0''"
    using g nz by (auto simp: gstage_def split: if_splits)
  ultimately show "gstage T U W N c K R (b[len := digit_char x]) (Suc len)"
    using written_digit [of b len x] eq \<open>R < K\<close> \<open>len < N\<close> x9 by (simp add: gstage_def)
qed

section \<open>The last digit\<close>

text \<open>
  What the digits \<open>n\<close> are when the function returns true: \<open>R\<close> below \<open>T\<close>, not further down than needed
  and not to be moved closer, and no multiple of the next power of ten is in the unsafe interval.
\<close>

definition grisu_digits :: "nat \<Rightarrow> nat \<Rightarrow> nat \<Rightarrow> nat \<Rightarrow> nat \<Rightarrow> nat \<Rightarrow> bool" where
  "grisu_digits T U D W n len \<longleftrightarrow> (\<exists>c K R P G. 0 < c \<and> K * 10 ^ len = c * W \<and> T * c = n * K + R \<and>
    (R < K \<or> 2 * R \<le> 2 * (D * c - c) + K) \<and> weeded (D * c) (U * c) K c R \<and>
    T * c = P * (10 * K) + G \<and> G < 10 * K \<and> U * c \<le> G)"

lemma grisu_digitsI:
  assumes "0 < c" and "K * 10 ^ len = c * W" and "T * c = n * K + R" and "R < K \<or> 2 * R \<le> 2 * (D * c - c) + K"
    and "weeded (D * c) (U * c) K c R" and "T * c = P * (10 * K) + G" and "G < 10 * K" and "U * c \<le> G"
  shows "grisu_digits T U D W n len"
  unfolding grisu_digits_def using assms by blast

definition grisu_result :: "nat \<Rightarrow> nat \<Rightarrow> nat \<Rightarrow> nat \<Rightarrow> nat \<Rightarrow> char list \<Rightarrow> nat \<Rightarrow> bool" where
  "grisu_result T U D W N b len \<longleftrightarrow> 0 < len \<and> len \<le> N \<and> digits_in b 0 len \<and> b ! 0 \<noteq> CHR ''0'' \<and>
    grisu_digits T U D W (dec_value (part b 0 len)) len"

lemma gstage_weed:
  assumes g: "gstage T U W N c (10 * K) r b len" and "0 < K" and "len < N"
    and x: "x = r div K" and R: "R = r mod K" and less: "R < U * c"
    and nats: "unat d = D * c" "unat u = U * c" "unat rest = R" "unat k = K" "unat one = c"
    and D: "1 \<le> D" "D * c + c < 2 ^ 64" and U: "4 \<le> U"
  shows "wp (RoundWeed (b[len := digit_char x]) (Suc len) d u rest k one)
    (\<lambda>(result, b'). length b' = N \<and> (result \<longrightarrow> grisu_result T U D W N b' (Suc len)))"
proof -
  note dig = gstage_digit [OF g \<open>0 < K\<close> \<open>len < N\<close> x R]
  have b: "digits_in b 0 len" "length b = N" "0 < c" "0 < len \<Longrightarrow> b ! 0 \<noteq> CHR ''0''" and W: "K * 10 ^ Suc len = c * W"
    using g by (simp_all add: gstage_def ac_simps split: if_splits)
  have Uc: "4 * c \<le> U * c" "c \<le> D * c"
    using U D(1) by simp_all
  define P where "P = dec_value (part b 0 len)"
  have result: "grisu_result T U D W N (b[len := digit_char (x - m)]) (Suc len)"
    if m: "m \<le> x" "R + m * K \<le> U * c" "m = 0 \<or> 2 * (R + m * K) \<le> 2 * (D * c - c) + K"
      and weed: "weeded (D * c) (U * c) K c (R + m * K)" for m
  proof -
    have "R + m * K + 4 * c \<le> U * c"
      using weed by (simp add: weeded_def)
    then have "m * K < x * K"
      using \<open>0 < c\<close> dig(5) by linarith
    then have "m < x"
      by simp
    have first: "if len = 0 then x - m \<noteq> 0 else b ! 0 \<noteq> CHR ''0''"
      using b(4) \<open>m < x\<close> by simp
    have x9: "x - m \<le> 9"
      using dig(1) by simp
    have len: "len < length b"
      using b(2) \<open>len < N\<close> by simp
    note w = written_digit [OF b(1) len x9 first]
    have "(10 * P + x) * K = (10 * P + (x - m)) * K + m * K"
      using m(1) by (simp flip: add_mult_distrib)
    then have eq: "T * c = (10 * P + (x - m)) * K + (R + m * K)"
      using dig(4) by (simp add: P_def)
    have gap: "T * c = P * (10 * K) + (x * K + R)"
      using dig(4) by (simp add: P_def algebra_simps)
    have "R + m * K < K \<or> 2 * (R + m * K) \<le> 2 * (D * c - c) + K"
      using m(3) dig(2) by (cases "m = 0") simp_all
    then have "grisu_digits T U D W (10 * P + (x - m)) (Suc len)"
      by (rule grisu_digitsI [OF \<open>0 < c\<close> W eq _ weed gap dig(6,5)])
    then show ?thesis
      unfolding grisu_result_def w(3) P_def [symmetric] using w(1,2) \<open>len < N\<close> by simp
  qed
  have "wp (RoundWeed (b[len := digit_char x]) (Suc len) d u rest k one)
    (\<lambda>(result, b'). \<exists>m\<le>x. b' = (b[len := digit_char x])[Suc len - 1 := digit_char (x - m)] \<and>
      R + m * K \<le> U * c \<and> (m = 0 \<or> 2 * (R + m * K) \<le> 2 * (D * c - c) + K) \<and> (result \<longrightarrow> weeded (D * c) (U * c) K c (R + m * K)))"
    by (rule RoundWeed_wp [OF _ _ _ dig(1) nats \<open>0 < K\<close> less_imp_le [OF less] Uc(2) D(2) Uc(1) dig(5)])
      (simp_all add: b(2) \<open>len < N\<close> Suc_le_eq)
  then show ?thesis
    by (rule wp_mono) (use result b in auto)
qed

end
