(* ===== verification/Grisu_Digits.thy ===== *)
theory Grisu_Digits
  imports Grisu_Stage
begin

unbundle bit_operations_syntax

text \<open>
  \<open>DigitGen\<close> of \<open>fast-dtoa.cc\<close> returns, with no assertion failing, no word overflowing and no index
  leaving the buffer; where it returns true the digits are those of \<open>Grisu_Stage\<close>.
\<close>

section \<open>The first power of ten\<close>

lemma small_power: "i \<le> 9 \<Longrightarrow> unat (kSmallPowersOfTen ! Suc i) = 10 ^ i"
proof -
  have "map (\<lambda>i. unat (kSmallPowersOfTen ! Suc i)) [0..<10] = map (\<lambda>i. 10 ^ i) [0..<10]"
    by (simp add: kSmallPowersOfTen_def upt_rec)
  then show ?thesis if "i \<le> 9"
    using that by (simp only: list_eq_iff_nth_eq length_map length_upt) (auto dest: spec [of _ i])
qed

text \<open>\<open>1233 / 4096\<close> is close enough to the logarithm of 2 for the guess to be off by at most one.\<close>

lemma power_guess:
  assumes "4 \<le> nb" and "nb \<le> 30" and "g = Suc (Suc nb * 1233 div 4096)"
  shows "\<exists>i. g = Suc (Suc i) \<and> i \<le> 8" and "10 ^ (g - 2) \<le> (2 :: nat) ^ (nb - 2)" and "2 ^ nb \<le> (10 :: nat) ^ g"
proof -
  have "\<forall>nb\<in>set [4..<31]. 2 \<le> Suc (Suc nb * 1233 div 4096) \<and> Suc (Suc nb * 1233 div 4096) \<le> 10 \<and>
      10 ^ (Suc (Suc nb * 1233 div 4096) - 2) \<le> (2 :: nat) ^ (nb - 2) \<and> 2 ^ nb \<le> (10 :: nat) ^ Suc (Suc nb * 1233 div 4096)"
    by (simp add: upt_rec)
  moreover have "nb \<in> set [4..<31]"
    unfolding set_upt using assms by auto
  ultimately have "2 \<le> g \<and> g \<le> 10 \<and> 10 ^ (g - 2) \<le> (2 :: nat) ^ (nb - 2) \<and> 2 ^ nb \<le> (10 :: nat) ^ g"
    unfolding assms(3) by (rule bspec)
  then show "\<exists>i. g = Suc (Suc i) \<and> i \<le> 8" "10 ^ (g - 2) \<le> (2 :: nat) ^ (nb - 2)" "2 ^ nb \<le> (10 :: nat) ^ g"
    by (auto intro: exI [of _ "g - 2"])
qed

lemma BiggestPowerTen_wp:
  assumes nb: "4 \<le> nb" "nb \<le> 30" and n: "2 ^ (nb - 2) \<le> unat n" "unat n < 2 ^ nb"
  shows "wp (BiggestPowerTen n (int nb)) (\<lambda>(p, k). \<exists>j. k = int (Suc j) \<and> unat p = 10 ^ j \<and> 10 ^ j \<le> unat n \<and> unat n < 10 ^ Suc j)"
proof -
  obtain i where g: "Suc (Suc nb * 1233 div 4096) = Suc (Suc i)" "i \<le> 8"
    using power_guess(1) [OF nb refl] by blast
  note bounds = power_guess(2,3) [OF nb refl, unfolded g(1)]
  have low: "10 ^ i \<le> unat n"
    using bounds(1) n(1) by simp
  have up: "unat n < 10 ^ Suc (Suc i)"
    using bounds(2) n(2) by linarith
  have nb1: "(int nb + 1) * 1233 = int (Suc nb * 1233)"
    by simp
  have "(int nb + 1) * 1233 div 4096 = int (Suc nb * 1233 div 4096)"
    unfolding nb1 by (simp only: zdiv_int of_nat_numeral)
  also have "Suc nb * 1233 div 4096 = Suc i"
    using g(1) by simp
  finally have guess: "(int nb + 1) * 1233 div 4096 + 1 = int (Suc (Suc i))"
    by simp
  have "shl (1 :: u32) (int nb + 1) = Some (push_bit (Suc nb) 1)"
    using nb by (simp add: nat_add_distrib)
  moreover have "unat (push_bit (Suc nb) (1 :: u32)) = 2 ^ Suc nb"
  proof (subst unat_push)
    have "(2 :: nat) ^ Suc nb \<le> 2 ^ 31"
      using nb by (intro power_increasing) simp_all
    then show "unat (1 :: u32) * 2 ^ Suc nb < 2 ^ LENGTH(32)"
      by simp
  qed simp
  moreover have "unat n < 2 ^ Suc nb"
    using n(2) by simp
  moreover have power: "unat (kSmallPowersOfTen ! Suc (Suc i)) = 10 ^ Suc i" "unat (kSmallPowersOfTen ! Suc i) = 10 ^ i"
    using small_power [of "Suc i"] small_power [of i] g(2) by simp_all
  moreover have "length kSmallPowersOfTen = 11"
    by (simp add: kSmallPowersOfTen_def)
  moreover have "nat (2 + int i) = Suc (Suc i)" "nat (1 + int i) = Suc i"
    by simp_all
  ultimately have "BiggestPowerTen n (int nb) = Some (if n < kSmallPowersOfTen ! Suc (Suc i)
      then (kSmallPowersOfTen ! Suc i, int (Suc i)) else (kSmallPowersOfTen ! Suc (Suc i), int (Suc (Suc i))))"
    using g(2) guess by (simp add: BiggestPowerTen_def ASSERT_def rd_def Let_def word_less_nat_alt)
  moreover have "n < kSmallPowersOfTen ! Suc (Suc i) \<longleftrightarrow> unat n < 10 ^ Suc i"
    using power by (simp only: word_less_nat_alt)
  ultimately show ?thesis
    using low up power by (cases "unat n < 10 ^ Suc i") (auto simp: not_less intro: exI [of _ "Suc i"] exI [of _ i])
qed

section \<open>The digits of the integral part\<close>

lemma len64: "LENGTH(64) = 64"
  by simp

lemma unat_and_low: "unat (x AND (push_bit n 1 - 1)) = unat x mod 2 ^ n" for x :: u64
  by (simp add: unat_and_mask flip: mask_eq_exp_minus_1)

lemma divide_high:
  fixes f B i d :: nat
  assumes "f < B"
  shows "(i * B + f) div (d * B) = i div d" and "(i * B + f) mod (d * B) = i mod d * B + f"
proof -
  have low: "(i * B + f) div B = i" "(i * B + f) mod B = f"
    using assms by simp_all
  show "(i * B + f) div (d * B) = i div d"
    by (simp only: mult.commute [of d B] div_mult2_eq low)
  show "(i * B + f) mod (d * B) = i mod d * B + f"
    by (simp only: mult.commute [of d B] mod_mult2_eq low mult.commute [of "i mod d" B])
qed

lemma Minus_Some: "dfp_e x = dfp_e y \<Longrightarrow> unat (dfp_f y) \<le> unat (dfp_f x) \<Longrightarrow>
    Minus x y = Some (x\<lparr>dfp_f := dfp_f x - dfp_f y\<rparr>)"
  by (simp add: Minus_def Subtract_def ASSERT_def word_le_nat_alt)

text \<open>What both loops leave: a stage before the next digit, or the result.\<close>

definition stage_result :: "nat \<Rightarrow> nat \<Rightarrow> nat \<Rightarrow> nat \<Rightarrow> nat \<Rightarrow> bool option \<Rightarrow> char list \<Rightarrow> nat \<Rightarrow> bool" where
  "stage_result T U D W N res b len \<longleftrightarrow> length b = N \<and> (res = Some True \<longrightarrow> grisu_result T U D W N b len)"

text \<open>
  \<open>too_high\<close> and \<open>w\<close> with their distance \<open>D\<close>, the unsafe interval \<open>U\<close>, and \<open>one\<close>, which is two to the
  \<open>sh\<close>.
\<close>

definition grisu_numbers :: "nat \<Rightarrow> nat \<Rightarrow> nat \<Rightarrow> nat \<Rightarrow> diy_fp \<Rightarrow> diy_fp \<Rightarrow> diy_fp \<Rightarrow> u64 \<Rightarrow> bool" where
  "grisu_numbers T U D sh too_high w one u \<longleftrightarrow> 34 \<le> sh \<and> sh \<le> 60 \<and> dfp_e one = - int sh \<and> unat (dfp_f one) = 2 ^ sh \<and>
    dfp_f one = push_bit sh 1 \<and> dfp_e too_high = dfp_e w \<and> unat (dfp_f too_high) = T \<and>
    unat (dfp_f w) + D = T \<and> 1 \<le> D \<and> D < U \<and> 4 \<le> U \<and> U \<le> T \<and> unat u = U"

lemma distance_Some:
  assumes "grisu_numbers T U D sh too_high w one u"
  shows "\<exists>d. Minus too_high w = Some d \<and> unat (dfp_f d) = D"
  using assms by (auto simp: grisu_numbers_def Minus_Some unat_minus)

lemma DigitGen_integrals_wp:
  assumes nums: "grisu_numbers T U D sh too_high w one (dfp_f u)"
    and fr: "unat fr < 2 ^ sh" and W: "W \<le> 10 * T" and s: "gi_kappa s = int (Suc k)" "unat (gi_divisor s) = 10 ^ k" "gi_length s < N" "gi_result s = None"
    and g: "gstage T U W N 1 (10 * (10 ^ k * 2 ^ sh)) (unat (gi_integrals s) * 2 ^ sh + unat fr) (gi_buffer s) (gi_length s)"
  shows "wp (DigitGen_integrals too_high w one u fr 1 s) (\<lambda>s'. gi_kappa s' = int k \<and> gi_length s' = Suc (gi_length s) \<and>
    (case gi_result s' of
      None \<Rightarrow> gstage T U W N 1 (10 ^ k * 2 ^ sh) (unat (gi_integrals s') * 2 ^ sh + unat fr) (gi_buffer s') (gi_length s') \<and>
        unat (gi_divisor s') = 10 ^ k div 10
    | Some res \<Rightarrow> stage_result T U D W N (Some res) (gi_buffer s') (gi_length s')))"
proof -
  define i d where "i = unat (gi_integrals s)" and "d = (10 :: nat) ^ k"
  define b len where "b = gi_buffer s" and "len = gi_length s"
  define x R where "x = i div d" and "R = i mod d * 2 ^ sh + unat fr"
  have sh: "34 \<le> sh" "sh \<le> 60" and e: "- dfp_e one = int sh" and U: "unat (dfp_f u) = U" "4 \<le> U" "U \<le> T" "1 \<le> D" "D < U"
    using nums by (simp_all add: grisu_numbers_def)
  have T: "T < 2 ^ 64"
    using nums unat_lt64 [of "dfp_f too_high"] by (simp add: grisu_numbers_def)
  have K: "0 < d * 2 ^ sh"
    by (simp add: d_def)
  have xR: "x = (i * 2 ^ sh + unat fr) div (d * 2 ^ sh)" "R = (i * 2 ^ sh + unat fr) mod (d * 2 ^ sh)"
    by (simp_all add: x_def R_def divide_high [OF fr])
  note g' = g [folded i_def d_def b_def len_def]
  note dig = gstage_digit [OF g' K s(3) [folded len_def] xR]
  have digit: "unat (gi_integrals s div gi_divisor s) = x" and rem: "unat (gi_integrals s mod gi_divisor s) = i mod d"
    by (simp_all add: nat_words s(2) i_def d_def x_def)
  have "sint (gi_integrals s div gi_divisor s) \<le> 9"
    using dig(1) by (subst sint_small) (simp_all add: digit)
  moreover have "gi_divisor s \<noteq> 0"
    using s(2) by (auto simp: unat_eq_zero)
  moreover have "len < length b"
    using g' s(3) by (simp add: gstage_def len_def)
  moreover have R64: "R < 2 ^ 64"
  proof -
    have "R \<le> i * 2 ^ sh + unat fr"
      unfolding xR(2) by (rule mod_less_eq_dividend)
    also have "\<dots> \<le> T"
      using g' by (simp add: gstage_def)
    finally show ?thesis
      using T by simp
  qed
  then have "i mod d * 2 ^ sh < 2 ^ 64"
    by (simp add: R_def)
  then have high: "unat (push_bit sh (ucast (gi_integrals s mod gi_divisor s) :: u64)) = i mod d * 2 ^ sh"
    by (subst unat_push) (simp_all only: unat_u32_u64 rem len64)
  then have rest: "unat (push_bit sh (ucast (gi_integrals s mod gi_divisor s)) + fr) = R"
    using R64 by (subst unat_plus) (simp_all add: R_def)
  have ten: "unat (push_bit sh (ucast (gi_divisor s) :: u64)) = d * 2 ^ sh"
  proof (subst unat_push)
    have "d * 2 ^ sh * 10 ^ len * 10 \<le> T * 10"
      using g' W by (simp add: gstage_def)
    moreover have "d * 2 ^ sh * 1 \<le> d * 2 ^ sh * 10 ^ len"
      by (intro mult_le_mono2) simp
    ultimately have "d * 2 ^ sh \<le> T"
      by linarith
    then show "unat (ucast (gi_divisor s) :: u64) * 2 ^ sh < 2 ^ LENGTH(64)"
      using T by (simp add: nat_words s(2) d_def)
  qed (simp add: nat_words s(2) d_def)
  have run: "DigitGen_integrals too_high w one u fr 1 s = (
    let t = s\<lparr>gi_integrals := gi_integrals s mod gi_divisor s, gi_kappa := int k, gi_buffer := b[len := digit_char x], gi_length := Suc len\<rparr>;
        r = push_bit sh (ucast (gi_integrals s mod gi_divisor s)) + fr in
    if r < dfp_f u then do {
      distance \<leftarrow> Minus too_high w;
      (result, buffer) \<leftarrow> RoundWeed (b[len := digit_char x]) (Suc len) (dfp_f distance) (dfp_f u) r (push_bit sh (ucast (gi_divisor s))) 1;
      Some (t\<lparr>gi_result := Some result, gi_buffer := buffer\<rparr>) }
    else Some (t\<lparr>gi_divisor := gi_divisor s div 10\<rparr>))"
    using \<open>sint _ \<le> 9\<close> \<open>gi_divisor s \<noteq> 0\<close> \<open>len < length b\<close> sh
    by (simp add: DigitGen_integrals_def ASSERT_def wr_def Let_def e digit s(1) b_def len_def)
  obtain dist where dist: "Minus too_high w = Some dist" "unat (dfp_f dist) = D"
    using distance_Some [OF nums] by blast
  show ?thesis
  proof (cases "R < U")
    case True
    have "wp (RoundWeed (b[len := digit_char x]) (Suc len) (dfp_f dist) (dfp_f u)
        (push_bit sh (ucast (gi_integrals s mod gi_divisor s)) + fr) (push_bit sh (ucast (gi_divisor s))) 1)
      (\<lambda>(result, b'). length b' = N \<and> (result \<longrightarrow> grisu_result T U D W N b' (Suc len)))"
      by (rule gstage_weed [OF g' K s(3) [folded len_def] xR]) (use True U T dist rest ten in simp_all)
    then show ?thesis
      using True by (simp add: run Let_def word_less_nat_alt rest U dist wp_simps stage_result_def len_def split: prod.splits)
  next
    case False
    then have "gstage T U W N 1 (d * 2 ^ sh) R (b[len := digit_char x]) (Suc len)"
      by (intro dig(7)) simp
    then show ?thesis
      using False by (simp add: run Let_def word_less_nat_alt rest U R_def rem len_def i_def nat_words s(2,4) d_def)
  qed
qed

section \<open>The digits of the fraction\<close>

lemma DigitGen_fractionals_wp:
  assumes nums: "grisu_numbers T U D sh too_high w one u"
    and s: "unat (gf_unit s) = c" "unat (gf_unsafe s) = U * c" "gf_length s < N" "gf_result s = None"
    and g: "gstage T U W N c (2 ^ sh) (unat (gf_fractionals s)) (gf_buffer s) (gf_length s)"
  shows "wp (DigitGen_fractionals too_high w one s) (\<lambda>s'. gf_kappa s' = gf_kappa s - 1 \<and> gf_length s' = Suc (gf_length s) \<and>
    (case gf_result s' of
      None \<Rightarrow> gstage T U W N (10 * c) (2 ^ sh) (unat (gf_fractionals s')) (gf_buffer s') (gf_length s') \<and>
        unat (gf_unit s') = 10 * c \<and> unat (gf_unsafe s') = U * (10 * c)
    | Some res \<Rightarrow> stage_result T U D W N (Some res) (gf_buffer s') (gf_length s')))"
proof -
  define f where "f = unat (gf_fractionals s)"
  define b len where "b = gf_buffer s" and "len = gf_length s"
  define x R where "x = 10 * f div 2 ^ sh" and "R = 10 * f mod 2 ^ sh"
  have sh: "34 \<le> sh" "sh \<le> 60" and e: "- dfp_e one = int sh" "dfp_f one = push_bit sh 1" "unat (dfp_f one) = 2 ^ sh"
    and U: "4 \<le> U" "1 \<le> D" "D < U"
    using nums unfolding grisu_numbers_def by (blast, blast, linarith, blast+)
  note g' = gstage_scale [OF g, folded f_def b_def len_def]
  note dig = gstage_digit [OF g' _ s(3) [folded len_def] x_def R_def, simplified]
  have f: "f < 2 ^ sh" "U * c \<le> f"
    using g by (simp_all add: gstage_def f_def)
  have "(2 :: nat) ^ sh \<le> 2 ^ 60"
    using sh by (intro power_increasing) simp_all
  then have bounds: "10 * f < 2 ^ 64" "10 * (U * c) < 2 ^ 64"
    using f by simp_all
  have Dc: "(D + 1) * (10 * c) \<le> U * (10 * c)" "1 * (10 * c) \<le> U * (10 * c)"
    using U by (intro mult_le_mono1; simp)+
  have words: "unat (gf_fractionals s * 10) = 10 * f" "unat (gf_unit s * 10) = 10 * c" "unat (gf_unsafe s * 10) = U * (10 * c)"
    using bounds Dc by (simp_all add: unat_times s f_def)
  have digit: "to_int (drop_bit sh (gf_fractionals s * 10)) = int x"
    using dig(1) by (subst to_int_small) (simp_all add: nat_words words x_def)
  have rest: "unat (gf_fractionals s * 10 AND (push_bit sh 1 - 1)) = R"
    by (simp add: unat_and_low words R_def del: push_bit_of_1)
  have "len < length b"
    using g' s(3) by (simp add: gstage_def len_def)
  have run: "DigitGen_fractionals too_high w one s = (
    let fractionals = gf_fractionals s * 10 AND (dfp_f one - 1);
        t = \<lparr>gf_result = None, gf_fractionals = fractionals, gf_unit = gf_unit s * 10, gf_unsafe = gf_unsafe s * 10,
              gf_kappa = gf_kappa s - 1, gf_buffer = b[len := digit_char x], gf_length = Suc len\<rparr> in
    if fractionals < gf_unsafe s * 10 then do {
      distance \<leftarrow> Minus too_high w;
      (result, buffer) \<leftarrow> RoundWeed (b[len := digit_char x]) (Suc len) (dfp_f distance * (gf_unit s * 10)) (gf_unsafe s * 10)
        fractionals (dfp_f one) (gf_unit s * 10);
      Some (t\<lparr>gf_result := Some result, gf_buffer := buffer\<rparr>) }
    else Some t)"
    using dig(1) \<open>len < length b\<close> sh
    by (simp add: DigitGen_fractionals_def ASSERT_def wr_def Let_def e(1) digit b_def len_def)
  obtain dist where dist: "Minus too_high w = Some dist" "unat (dfp_f dist) = D"
    using distance_Some [OF nums] by blast
  have Dd: "unat (dfp_f dist * (gf_unit s * 10)) = D * (10 * c)"
    using bounds Dc by (subst unat_times) (simp_all add: dist words)
  show ?thesis
  proof (cases "R < U * (10 * c)")
    case True
    have "wp (RoundWeed (b[len := digit_char x]) (Suc len) (dfp_f dist * (gf_unit s * 10)) (gf_unsafe s * 10)
        (gf_fractionals s * 10 AND (dfp_f one - 1)) (dfp_f one) (gf_unit s * 10))
      (\<lambda>(result, b'). length b' = N \<and> (result \<longrightarrow> grisu_result T U D W N b' (Suc len)))"
      by (rule gstage_weed [OF g' _ s(3) [folded len_def] x_def R_def True Dd words(3) _ e(3) words(2) U(2)])
        (use bounds Dc U in \<open>simp_all add: e(2) rest del: push_bit_of_1\<close>)
    then show ?thesis
      using True by (simp add: run Let_def word_less_nat_alt rest words e(2) dist wp_simps stage_result_def len_def del: push_bit_of_1 split: prod.splits)
  next
    case False
    then have "gstage T U W N (10 * c) (2 ^ sh) R (b[len := digit_char x]) (Suc len)"
      by (intro dig(7)) simp
    then show ?thesis
      using False by (simp add: run Let_def word_less_nat_alt rest words e(2) len_def del: push_bit_of_1)
  qed
qed

section \<open>Both loops\<close>

definition integrals_inv :: "nat \<Rightarrow> nat \<Rightarrow> nat \<Rightarrow> nat \<Rightarrow> nat \<Rightarrow> nat \<Rightarrow> nat \<Rightarrow> nat \<Rightarrow> nat \<Rightarrow> grisu_integrals \<Rightarrow> bool" where
  "integrals_inv T U D W N n sh f k0 s \<longleftrightarrow> gi_length s \<le> Suc n \<and> (case gi_result s of
    None \<Rightarrow> \<exists>k. gi_kappa s = int k \<and> k + gi_length s = k0 \<and> (0 < k \<longrightarrow> unat (gi_divisor s) = 10 ^ (k - 1)) \<and>
      gstage T U W N 1 (10 ^ k * 2 ^ sh) (unat (gi_integrals s) * 2 ^ sh + f) (gi_buffer s) (gi_length s)
  | Some res \<Rightarrow> gi_kappa s = int k0 - int (gi_length s) \<and> stage_result T U D W N (Some res) (gi_buffer s) (gi_length s))"

lemma integrals_loop_wp:
  assumes nums: "grisu_numbers T U D sh too_high w one (dfp_f u)" and fr: "unat fr < 2 ^ sh"
    and W: "W \<le> 10 * T" "T \<le> 10 ^ n * U" and "n < N" and start: "integrals_inv T U D W N n sh (unat fr) k0 s"
  shows "wp (while_opt (\<lambda>s. gi_result s = None \<and> 0 < gi_kappa s) (DigitGen_integrals too_high w one u fr 1) s)
    (\<lambda>s. integrals_inv T U D W N n sh (unat fr) k0 s \<and> (gi_result s = None \<longrightarrow> gi_kappa s = 0))"
proof (rule while_opt_rule [where I = "integrals_inv T U D W N n sh (unat fr) k0" and m = "\<lambda>s. nat (gi_kappa s)", OF start])
  fix s
  assume I: "integrals_inv T U D W N n sh (unat fr) k0 s" and c: "gi_result s = None \<and> 0 < gi_kappa s"
  then obtain k where "gi_kappa s = int k" "k + gi_length s = k0" "0 < k \<longrightarrow> unat (gi_divisor s) = 10 ^ (k - 1)"
      "gstage T U W N 1 (10 ^ k * 2 ^ sh) (unat (gi_integrals s) * 2 ^ sh + unat fr) (gi_buffer s) (gi_length s)" "0 < k"
    by (auto simp: integrals_inv_def)
  then obtain j where j: "gi_kappa s = int (Suc j)" "Suc j + gi_length s = k0" "unat (gi_divisor s) = 10 ^ j"
      "gstage T U W N 1 (10 * (10 ^ j * 2 ^ sh)) (unat (gi_integrals s) * 2 ^ sh + unat fr) (gi_buffer s) (gi_length s)"
    by (cases k) (auto simp: mult.assoc)
  have few: "gi_length s \<le> n"
    by (rule gstage_few [OF j(4)]) (use W in simp)
  then have "gi_length s < N"
    using \<open>n < N\<close> by simp
  show "wp (DigitGen_integrals too_high w one u fr 1 s)
    (\<lambda>s'. integrals_inv T U D W N n sh (unat fr) k0 s' \<and> nat (gi_kappa s') < nat (gi_kappa s))"
    using DigitGen_integrals_wp [OF nums fr W(1) j(1,3) \<open>gi_length s < N\<close> conjunct1 [OF c] j(4)]
  proof (rule wp_mono)
    fix s' :: grisu_integrals
    assume s': "gi_kappa s' = int j \<and> gi_length s' = Suc (gi_length s) \<and> (case gi_result s' of
      None \<Rightarrow> gstage T U W N 1 (10 ^ j * 2 ^ sh) (unat (gi_integrals s') * 2 ^ sh + unat fr) (gi_buffer s') (gi_length s') \<and>
        unat (gi_divisor s') = 10 ^ j div 10
    | Some res \<Rightarrow> stage_result T U D W N (Some res) (gi_buffer s') (gi_length s'))"
    have "(10 :: nat) ^ j div 10 = 10 ^ (j - 1)" if "0 < j"
      using that by (cases j) simp_all
    then show "integrals_inv T U D W N n sh (unat fr) k0 s' \<and> nat (gi_kappa s') < nat (gi_kappa s)"
      using s' j(1,2) few by (auto simp: integrals_inv_def split: option.splits)
  qed
qed (auto simp: integrals_inv_def split: option.splits)

definition fractionals_inv :: "nat \<Rightarrow> nat \<Rightarrow> nat \<Rightarrow> nat \<Rightarrow> nat \<Rightarrow> nat \<Rightarrow> nat \<Rightarrow> nat \<Rightarrow> grisu_fractionals \<Rightarrow> bool" where
  "fractionals_inv T U D W N n sh k0 s \<longleftrightarrow> gf_length s \<le> Suc n \<and> gf_kappa s = int k0 - int (gf_length s) \<and> (case gf_result s of
    None \<Rightarrow> \<exists>c. unat (gf_unit s) = c \<and> unat (gf_unsafe s) = U * c \<and>
      gstage T U W N c (2 ^ sh) (unat (gf_fractionals s)) (gf_buffer s) (gf_length s)
  | Some res \<Rightarrow> stage_result T U D W N (Some res) (gf_buffer s) (gf_length s))"

lemma fractionals_loop_wp:
  assumes nums: "grisu_numbers T U D sh too_high w one u"
    and W: "W \<le> 10 * T" "T \<le> 10 ^ n * U" and "n < N" and start: "fractionals_inv T U D W N n sh k0 s"
  shows "wp (while_opt (\<lambda>t. gf_result t = None) (DigitGen_fractionals too_high w one) s)
    (\<lambda>s. fractionals_inv T U D W N n sh k0 s \<and> gf_result s \<noteq> None)"
proof (rule while_opt_rule [where I = "fractionals_inv T U D W N n sh k0" and m = "\<lambda>s. Suc n - gf_length s", OF start])
  fix s
  assume I: "fractionals_inv T U D W N n sh k0 s" and c: "gf_result s = None"
  then obtain c where s: "unat (gf_unit s) = c" "unat (gf_unsafe s) = U * c"
      "gstage T U W N c (2 ^ sh) (unat (gf_fractionals s)) (gf_buffer s) (gf_length s)"
    by (auto simp: fractionals_inv_def)
  have few: "gf_length s \<le> n"
    by (rule gstage_few [OF s(3)]) (use W in simp)
  then have "gf_length s < N"
    using \<open>n < N\<close> by simp
  show "wp (DigitGen_fractionals too_high w one s)
    (\<lambda>s'. fractionals_inv T U D W N n sh k0 s' \<and> Suc n - gf_length s' < Suc n - gf_length s)"
    using DigitGen_fractionals_wp [OF nums s(1,2) \<open>gf_length s < N\<close> c s(3)]
    by (rule wp_mono) (use I few in \<open>auto simp: fractionals_inv_def split: option.splits\<close>)
qed simp

section \<open>The digits of a number between two others\<close>

theorem DigitGen_wp:
  assumes e: "dfp_e low = - int sh" "dfp_e w = - int sh" "dfp_e high = - int sh" "34 \<le> sh" "sh \<le> 60"
    and order: "1 \<le> unat (dfp_f low)" "unat (dfp_f low) \<le> unat (dfp_f w)" "unat (dfp_f w) \<le> unat (dfp_f high)"
      "unat (dfp_f low) + 2 \<le> unat (dfp_f high)"
    and high: "2 ^ 62 \<le> unat (dfp_f high)" "unat (dfp_f high) < 2 ^ 64 - 1"
    and T: "T = unat (dfp_f high) + 1" and U: "U + unat (dfp_f low) = T + 1" and D: "D + unat (dfp_f w) = T"
    and n: "T \<le> 10 ^ n * U" "n < length b"
  shows "wp (DigitGen low w high b) (\<lambda>(result, b', len, kappa). length b' = length b \<and> (result \<longrightarrow> len \<le> Suc n \<and>
    (\<exists>k. kappa = int k - int len \<and> T < 10 ^ k * 2 ^ sh \<and> grisu_result T U D (10 ^ k * 2 ^ sh) (length b) b' len)))"
proof -
  define u where "u = DiyFp (dfp_f high + 1 - (dfp_f low - 1)) (dfp_e high)"
  define too_high where "too_high = DiyFp (dfp_f high + 1) (dfp_e high)"
  define one where "one = DiyFp (push_bit sh 1) (dfp_e w)"
  define ints where "ints = (ucast (drop_bit sh (dfp_f high + 1)) :: u32)"
  define fr where "fr = dfp_f high + 1 AND (push_bit sh 1 - 1)"
  have words: "unat (dfp_f high + 1) = T" "unat (dfp_f low - 1) = unat (dfp_f low) - 1"
    using high order by (simp_all add: unat_plus unat_minus T)
  have "unat (dfp_f high + 1 - (dfp_f low - 1)) = unat (dfp_f high + 1) - unat (dfp_f low - 1)"
    by (rule unat_minus) (use words order T in simp)
  then have u: "unat (dfp_f u) = U"
    using U T order by (simp add: u_def words)
  have sh_pow: "unat (push_bit sh 1 :: u64) = 2 ^ sh"
  proof (subst unat_push)
    have "(2 :: nat) ^ sh \<le> 2 ^ 60"
      using e by (intro power_increasing) simp_all
    then show "unat (1 :: u64) * 2 ^ sh < 2 ^ LENGTH(64)"
      by simp
  qed simp
  have nums: "grisu_numbers T U D sh too_high w one (dfp_f u)"
    unfolding grisu_numbers_def using e order U D T words(1) u sh_pow by (auto simp: too_high_def one_def simp del: push_bit_of_1)
  have fr: "unat fr = T mod 2 ^ sh" "unat fr < 2 ^ sh"
    by (simp_all add: fr_def unat_and_low words(1) del: push_bit_of_1)
  have "T < 2 ^ 64"
    unfolding words(1) [symmetric] by simp
  also have "(2 :: nat) ^ 64 = 2 ^ (64 - sh) * 2 ^ sh"
    using e by (simp flip: power_add)
  finally have ints_less: "T div 2 ^ sh < 2 ^ (64 - sh)"
    by (simp add: less_mult_imp_div_less)
  moreover have "(2 :: nat) ^ (64 - sh) \<le> 2 ^ 32"
    using e by (intro power_increasing) simp_all
  ultimately have ints: "unat ints = T div 2 ^ sh"
    by (simp add: ints_def nat_words words(1))
  have "(2 :: nat) ^ (64 - sh - 2) * 2 ^ sh = 2 ^ 62"
    using e by (simp flip: power_add)
  also have "\<dots> \<le> T"
    using high(1) T by simp
  finally have low: "2 ^ (64 - sh - 2) \<le> T div 2 ^ sh"
    by (simp add: less_eq_div_iff_mult_less_eq)
  have nb: "4 \<le> 64 - sh" "64 - sh \<le> 30"
    using e by simp_all
  obtain p k where big: "BiggestPowerTen ints (int (64 - sh)) = Some (p, int (Suc k))" "unat p = 10 ^ k"
      "10 ^ k \<le> T div 2 ^ sh" "T div 2 ^ sh < 10 ^ Suc k"
    using BiggestPowerTen_wp [OF nb, of ints, unfolded ints, OF low ints_less] by (rule wp_pairE) auto
  define W where "W = (10 :: nat) ^ Suc k * 2 ^ sh"
  have split: "unat ints * 2 ^ sh + unat fr = T"
    unfolding ints fr(1) by (rule div_mult_mod_eq)
  have TW: "T < W"
  proof -
    have "T < (T div 2 ^ sh + 1) * 2 ^ sh"
      using split fr(2) by (simp add: ints)
    also have "\<dots> \<le> W"
      unfolding W_def using big(4) by (intro mult_le_mono1) simp
    finally show ?thesis .
  qed
  have WT: "W \<le> 10 * T"
  proof -
    have "10 ^ k * 2 ^ sh \<le> T div 2 ^ sh * 2 ^ sh"
      using big(3) by (rule mult_le_mono1)
    also have "\<dots> \<le> T"
      by simp
    finally show ?thesis
      by (simp add: W_def)
  qed
  have UT: "U \<le> T"
    using U order by simp
  let ?s = "\<lparr>gi_result = None, gi_integrals = ints, gi_divisor = p, gi_kappa = int (Suc k), gi_buffer = b, gi_length = 0\<rparr>"
  have "gstage T U W (length b) 1 (10 ^ Suc k * 2 ^ sh) (unat ints * 2 ^ sh + unat fr) b 0"
    unfolding split gstage_def using TW WT UT by (auto simp: W_def digits_in_def)
  then have start: "integrals_inv T U D W (length b) n sh (unat fr) (Suc k) ?s"
    using big(2) by (auto simp: integrals_inv_def intro!: exI [of _ "Suc k"] simp del: power_Suc)
  obtain s where s: "while_opt (\<lambda>s. gi_result s = None \<and> 0 < gi_kappa s) (DigitGen_integrals too_high w one u fr 1) ?s = Some s"
      "integrals_inv T U D W (length b) n sh (unat fr) (Suc k) s" "gi_result s = None \<longrightarrow> gi_kappa s = 0"
    using integrals_loop_wp [OF nums fr(2) WT n start] by (auto elim: wpE)
  let ?t = "\<lparr>gf_result = None, gf_fractionals = fr, gf_unit = 1, gf_unsafe = dfp_f u,
      gf_kappa = gi_kappa s, gf_buffer = gi_buffer s, gf_length = gi_length s\<rparr>"
  have run: "DigitGen low w high b = (case gi_result s of Some result \<Rightarrow> Some (result, gi_buffer s, gi_length s, gi_kappa s)
     | None \<Rightarrow> do {
         ASSERT (- 60 \<le> dfp_e one);
         ASSERT (fr < dfp_f one);
         ASSERT (dfp_f one \<le> 0xFFFFFFFFFFFFFFFF div 10);
         t \<leftarrow> while_opt (\<lambda>t. gf_result t = None) (DigitGen_fractionals too_high w one) ?t;
         result \<leftarrow> gf_result t;
         Some (result, gf_buffer t, gf_length t, gf_kappa t) })"
  proof -
    have "ASSERT (dfp_e low = dfp_e w \<and> dfp_e w = dfp_e high) = Some ()"
      "ASSERT (dfp_f low + 1 \<le> dfp_f high - 1) = Some ()"
      "ASSERT (kMinimalTargetExponent \<le> dfp_e w \<and> dfp_e w \<le> kMaximalTargetExponent) = Some ()"
      using e order high by (simp_all add: ASSERT_def kMinimalTargetExponent_def kMaximalTargetExponent_def
          word_le_nat_alt unat_plus unat_minus)
    moreover have "Minus too_high (DiyFp (dfp_f low - 1) (dfp_e low)) = Some u"
      using e order T by (subst Minus_Some) (simp_all add: too_high_def u_def words)
    moreover have "shl 1 (- dfp_e w) = Some (push_bit sh (1 :: u64))" "shr (dfp_f too_high) (- dfp_e one) = Some (drop_bit sh (dfp_f high + 1))"
      "kDiyFpSignificandSize - (- dfp_e one) = int (64 - sh)"
      using e by (simp_all add: one_def too_high_def kDiyFpSignificandSize_def of_nat_diff)
    moreover have "ucast (drop_bit sh (dfp_f high + 1)) = ints" "dfp_f too_high AND (dfp_f one - 1) = fr"
      by (simp_all add: ints_def fr_def too_high_def one_def)
    ultimately show ?thesis
      unfolding DigitGen_def Let_def
      by (simp only: s(1) big(1) Option.bind_lunit prod.case flip: too_high_def one_def)
  qed
  have result: ?thesis if "DigitGen low w high b = Some (res, b', len, int (Suc k) - int len)" "len \<le> Suc n"
      "stage_result T U D W (length b) (Some res) b' len" for res b' len
    using that TW by (auto simp: stage_result_def W_def intro!: exI [of _ "Suc k"] simp del: power_Suc)
  show ?thesis
  proof (cases "gi_result s")
    case (Some res)
    then show ?thesis
      using s(2) by (intro result [of res "gi_buffer s" "gi_length s"]) (simp_all add: run integrals_inv_def)
  next
    case None
    have g: "gstage T U W (length b) 1 (2 ^ sh) (unat (gi_integrals s) * 2 ^ sh + unat fr) (gi_buffer s) (gi_length s)"
      and len: "gi_length s = Suc k" "gi_length s \<le> Suc n" "gi_kappa s = 0"
      using s(2,3) None by (auto simp: integrals_inv_def)
    have "unat (gi_integrals s) * 2 ^ sh + unat fr < 1 * 2 ^ sh"
      using g by (simp add: gstage_def)
    then have "unat (gi_integrals s) * 2 ^ sh < 1 * 2 ^ sh"
      by linarith
    then have "unat (gi_integrals s) = 0"
      by (simp only: mult_less_cancel2 less_one)
    with g len have start': "fractionals_inv T U D W (length b) n sh (Suc k) ?t"
      by (simp add: fractionals_inv_def u)
    obtain t where t: "while_opt (\<lambda>t. gf_result t = None) (DigitGen_fractionals too_high w one) ?t = Some t"
        "fractionals_inv T U D W (length b) n sh (Suc k) t" "gf_result t \<noteq> None"
      using fractionals_loop_wp [OF nums WT n start'] by (rule wpE) blast
    obtain res where res: "gf_result t = Some res"
      using t(3) by blast
    have "(2 :: nat) ^ sh \<le> 2 ^ 60"
      using e by (intro power_increasing) simp_all
    then have "dfp_f one \<le> 0xFFFFFFFFFFFFFFFF div 10" "fr < dfp_f one"
      using sh_pow fr(2) by (simp_all add: one_def word_nat_order nat_words)
    moreover have "- 60 \<le> dfp_e one"
      using e by (simp add: one_def)
    ultimately have "DigitGen low w high b = Some (res, gf_buffer t, gf_length t, gf_kappa t)"
      by (simp add: run None t(1) ASSERT_def res)
    then show ?thesis
      using t(2) res by (intro result [of res "gf_buffer t" "gf_length t"]) (simp_all add: fractionals_inv_def)
  qed
qed

end
