(* ===== verification/String_Builder.thy ===== *)
theory String_Builder
  imports Digit_Text Prelude
begin

text \<open>
  \<open>class StringBuilder\<close> of \<open>utils.h\<close>.  A \<open>const char*\<close> is the list of the characters from the pointer
  to the end of the array it points into; the string ends at the first 0-character, and \<open>strlen\<close>
  stops where there is none.
\<close>

definition NUL :: char where "NUL = char_at 0"

definition strlen :: "char list \<Rightarrow> nat option" where
  "strlen s = (if NUL \<in> set s then Some (length (takeWhile (\<lambda>c. c \<noteq> NUL) s)) else None)"

text \<open>A string literal.\<close>

definition c_string :: "char list \<Rightarrow> char list" where
  "c_string s = s @ [NUL]"

record string_builder =
  sb_buffer :: "char list"
  sb_position :: int

definition StringBuilder :: "char list \<Rightarrow> string_builder" where
  "StringBuilder buffer = \<lparr>sb_buffer = buffer, sb_position = 0\<rparr>"

definition is_finalized :: "string_builder \<Rightarrow> bool" where
  "is_finalized this \<longleftrightarrow> sb_position this < 0"

definition sb_size :: "string_builder \<Rightarrow> nat" where
  "sb_size this = length (sb_buffer this)"

definition position :: "string_builder \<Rightarrow> int option" where
  "position this = do { ASSERT (\<not> is_finalized this); Some (sb_position this) }"

definition Reset :: "string_builder \<Rightarrow> string_builder" where
  "Reset this = this\<lparr>sb_position := 0\<rparr>"

definition AddCharacter :: "string_builder \<Rightarrow> char \<Rightarrow> string_builder option" where
  "AddCharacter this c = do {
     ASSERT (c \<noteq> NUL);
     ASSERT (\<not> is_finalized this \<and> sb_position this < int (length (sb_buffer this)));
     buffer \<leftarrow> wr (sb_buffer this) (nat (sb_position this)) c;
     Some (this\<lparr>sb_buffer := buffer, sb_position := sb_position this + 1\<rparr>) }"

definition AddSubstring :: "string_builder \<Rightarrow> char list \<Rightarrow> int \<Rightarrow> string_builder option" where
  "AddSubstring this s n = do {
     ASSERT (\<not> is_finalized this \<and> sb_position this + n < int (length (sb_buffer this)));
     len \<leftarrow> strlen s;
     ASSERT (0 \<le> n \<and> nat n \<le> len);
     let pos = nat (sb_position this);
     Some (this\<lparr>sb_buffer := take pos (sb_buffer this) @ take (nat n) s @ drop (pos + nat n) (sb_buffer this),
                sb_position := sb_position this + n\<rparr>) }"

definition AddString :: "string_builder \<Rightarrow> char list \<Rightarrow> string_builder option" where
  "AddString this s = do { len \<leftarrow> strlen s; AddSubstring this s (int len) }"

definition AddPadding :: "string_builder \<Rightarrow> char \<Rightarrow> int \<Rightarrow> string_builder option" where
  "AddPadding this c count = for_up 0 (nat count) (\<lambda>_ this. AddCharacter this c) this"

definition Finalize :: "string_builder \<Rightarrow> (char list \<times> string_builder) option" where
  "Finalize this = do {
     ASSERT (\<not> is_finalized this \<and> sb_position this < int (length (sb_buffer this)));
     buffer \<leftarrow> wr (sb_buffer this) (nat (sb_position this)) NUL;
     len \<leftarrow> strlen buffer;
     ASSERT (int len = sb_position this);
     let this = \<lparr>sb_buffer = buffer, sb_position = - 1\<rparr>;
     ASSERT (is_finalized this);
     Some (buffer, this) }"

end
