(* ===== verification/Double_To_String.thy ===== *)
theory Double_To_String
  imports Bignum_Dtoa Fast_Dtoa Fixed_Dtoa String_Builder
begin

unbundle bit_operations_syntax

text \<open>
  \<open>class DoubleToStringConverter\<close> of \<open>double-conversion.h\<close> and \<open>double-conversion.cc\<close>.
  \<open>DoubleToAscii\<close> tries the fast algorithm of the mode and falls back to \<open>BignumDtoa\<close>; the four
  conversions format its digits.  A local array that the code does not initialise is an argument
  (\<open>decimal_rep\<close>): its contents are arbitrary.  A pointer that may be \<open>NULL\<close> is an option.
\<close>

datatype DtoaMode = SHORTEST | SHORTEST_SINGLE | FIXED | PRECISION

definition kMaxFixedDigitsBeforePoint :: int where "kMaxFixedDigitsBeforePoint = 60"
definition kMaxFixedDigitsAfterPoint :: int where "kMaxFixedDigitsAfterPoint = 60"
definition kMaxExponentialDigits :: int where "kMaxExponentialDigits = 120"
definition kMinPrecisionDigits :: int where "kMinPrecisionDigits = 1"
definition kMaxPrecisionDigits :: int where "kMaxPrecisionDigits = 120"
definition kBase10MaximalLength :: int where "kBase10MaximalLength = 17"

definition EMIT_POSITIVE_EXPONENT_SIGN :: int where "EMIT_POSITIVE_EXPONENT_SIGN = 1"
definition EMIT_TRAILING_DECIMAL_POINT :: int where "EMIT_TRAILING_DECIMAL_POINT = 2"
definition EMIT_TRAILING_ZERO_AFTER_POINT :: int where "EMIT_TRAILING_ZERO_AFTER_POINT = 4"
definition UNIQUE_ZERO :: int where "UNIQUE_ZERO = 8"

record double_to_string_converter =
  dts_flags :: int
  dts_infinity_symbol :: "char list option"
  dts_nan_symbol :: "char list option"
  dts_exponent_character :: char
  dts_decimal_in_shortest_low :: int
  dts_decimal_in_shortest_high :: int
  dts_max_leading_padding_zeroes :: int
  dts_max_trailing_padding_zeroes :: int

definition DoubleToStringConverter :: "int \<Rightarrow> char list option \<Rightarrow> char list option \<Rightarrow> char \<Rightarrow>
    int \<Rightarrow> int \<Rightarrow> int \<Rightarrow> int \<Rightarrow> double_to_string_converter option" where
  "DoubleToStringConverter flags infinity_symbol nan_symbol exponent_character low high leading trailing = do {
     ASSERT (flags AND EMIT_TRAILING_DECIMAL_POINT \<noteq> 0 \<or> \<not> (flags AND EMIT_TRAILING_ZERO_AFTER_POINT \<noteq> 0));
     Some \<lparr>dts_flags = flags, dts_infinity_symbol = infinity_symbol, dts_nan_symbol = nan_symbol,
       dts_exponent_character = exponent_character, dts_decimal_in_shortest_low = low,
       dts_decimal_in_shortest_high = high, dts_max_leading_padding_zeroes = leading,
       dts_max_trailing_padding_zeroes = trailing\<rparr> }"

definition EcmaScriptConverter :: "double_to_string_converter option" where
  "EcmaScriptConverter =
    (let flags = UNIQUE_ZERO OR EMIT_POSITIVE_EXPONENT_SIGN in
     DoubleToStringConverter flags (Some (c_string ''Infinity'')) (Some (c_string ''NaN'')) (CHR ''e'') (- 6) 21 6 0)"

section \<open>Digits\<close>

definition DtoaToBignumDtoaMode :: "DtoaMode \<Rightarrow> BignumDtoaMode" where
  "DtoaToBignumDtoaMode dtoa_mode =
    (case dtoa_mode of
       SHORTEST \<Rightarrow> BIGNUM_DTOA_SHORTEST
     | SHORTEST_SINGLE \<Rightarrow> BIGNUM_DTOA_SHORTEST_SINGLE
     | FIXED \<Rightarrow> BIGNUM_DTOA_FIXED
     | PRECISION \<Rightarrow> BIGNUM_DTOA_PRECISION)"

text \<open>
  The switch over the fast algorithms: the buffer, and \<open>(*length, *point)\<close> where it worked.
\<close>

definition fast_dtoa_of :: "double_bits \<Rightarrow> DtoaMode \<Rightarrow> int \<Rightarrow> char list \<Rightarrow> (char list \<times> (nat \<times> int) option) option" where
  "fast_dtoa_of v mode requested_digits vector =
    (case mode of
       SHORTEST \<Rightarrow> FastDtoa v FAST_DTOA_SHORTEST 0 vector
     | SHORTEST_SINGLE \<Rightarrow> FastDtoa v FAST_DTOA_SHORTEST_SINGLE 0 vector
     | FIXED \<Rightarrow> do {
         r \<leftarrow> FastFixedDtoa v requested_digits vector;
         case r of None \<Rightarrow> Some (vector, None)
         | Some (buffer, len, point) \<Rightarrow> Some (buffer, Some (len, point)) }
     | PRECISION \<Rightarrow> FastDtoa v FAST_DTOA_PRECISION requested_digits vector)"

text \<open>
  The result is the buffer, \<open>*sign\<close>, \<open>*length\<close> and \<open>*point\<close>; the last one is \<open>None\<close> where the
  function returns without setting it.
\<close>

definition DoubleToAscii :: "double_bits \<Rightarrow> DtoaMode \<Rightarrow> int \<Rightarrow> char list \<Rightarrow> (char list \<times> bool \<times> nat \<times> int option) option" where
  "DoubleToAscii v mode requested_digits vector = do {
     ASSERT (\<not> IsSpecial v);
     ASSERT (mode = SHORTEST \<or> mode = SHORTEST_SINGLE \<or> 0 \<le> requested_digits);
     let (sign, v) = (if Sign v < 0 then (True, double_uminus v) else (False, v));
     if mode = PRECISION \<and> requested_digits = 0 then do {
       vector \<leftarrow> wr vector 0 NUL;
       Some (vector, sign, 0, None) }
     else if double_equal v 0 then do {
       vector \<leftarrow> wr vector 0 (CHR ''0'');
       vector \<leftarrow> wr vector 1 NUL;
       Some (vector, sign, 1, Some 1) }
     else do {
       (vector, fast_worked) \<leftarrow> fast_dtoa_of v mode requested_digits vector;
       case fast_worked of Some (len, point) \<Rightarrow> Some (vector, sign, len, Some point)
       | None \<Rightarrow> do {
           let bignum_mode = DtoaToBignumDtoaMode mode;
           (vector, len, point) \<leftarrow> BignumDtoa v bignum_mode requested_digits vector;
           vector \<leftarrow> wr vector len NUL;
           Some (vector, sign, len, Some point) } } }"

section \<open>Representations\<close>

definition HandleSpecialValues :: "double_to_string_converter \<Rightarrow> double_bits \<Rightarrow> string_builder \<Rightarrow> (bool \<times> string_builder) option" where
  "HandleSpecialValues this value result_builder =
    (if IsInfinite value then
       (case dts_infinity_symbol this of None \<Rightarrow> Some (False, result_builder)
        | Some infinity_symbol \<Rightarrow> do {
            result_builder \<leftarrow>
              (if double_less value 0 then AddCharacter result_builder (CHR ''-'') else Some result_builder);
            result_builder \<leftarrow> AddString result_builder infinity_symbol;
            Some (True, result_builder) })
     else if IsNan value then
       (case dts_nan_symbol this of None \<Rightarrow> Some (False, result_builder)
        | Some nan_symbol \<Rightarrow> do {
            result_builder \<leftarrow> AddString result_builder nan_symbol;
            Some (True, result_builder) })
     else Some (False, result_builder))"

definition kMaxExponentLength :: nat where "kMaxExponentLength = 5"

text \<open>\<open>buffer[--first_char_pos] = '0' + (exponent % 10); exponent /= 10;\<close>\<close>

definition exponent_digit :: "int \<times> char list \<times> nat \<Rightarrow> (int \<times> char list \<times> nat) option" where
  "exponent_digit = (\<lambda>(e, buffer, first_char_pos). do {
     ASSERT (0 < first_char_pos);
     buffer \<leftarrow> wr buffer (first_char_pos - 1) (char_at (code_of CHR ''0'' + e mod 10));
     Some (e div 10, buffer, first_char_pos - 1) })"

definition CreateExponentialRepresentation :: "double_to_string_converter \<Rightarrow> char list \<Rightarrow> int \<Rightarrow> int \<Rightarrow>
    string_builder \<Rightarrow> string_builder option" where
  "CreateExponentialRepresentation this decimal_digits len e result_builder = do {
     ASSERT (len \<noteq> 0);
     c \<leftarrow> rd decimal_digits 0;
     result_builder \<leftarrow> AddCharacter result_builder c;
     result_builder \<leftarrow>
       (if len \<noteq> 1 then do {
          result_builder \<leftarrow> AddCharacter result_builder (CHR ''.'');
          AddSubstring result_builder (drop 1 decimal_digits) (len - 1) }
        else Some result_builder);
     result_builder \<leftarrow> AddCharacter result_builder (dts_exponent_character this);
     (e, result_builder) \<leftarrow>
       (if e < 0 then do {
          result_builder \<leftarrow> AddCharacter result_builder (CHR ''-'');
          Some (- e, result_builder) }
        else if dts_flags this AND EMIT_POSITIVE_EXPONENT_SIGN \<noteq> 0 then do {
          result_builder \<leftarrow> AddCharacter result_builder (CHR ''+'');
          Some (e, result_builder) }
        else Some (e, result_builder));
     if e = 0 then AddCharacter result_builder (CHR ''0'')
     else do {
       ASSERT (e < 10000);
       buffer \<leftarrow> wr (replicate (kMaxExponentLength + 1) NUL) kMaxExponentLength NUL;
       (_, buffer, first_char_pos) \<leftarrow> while_opt (\<lambda>(e, _). 0 < e) exponent_digit (e, buffer, kMaxExponentLength);
       AddSubstring result_builder (drop first_char_pos buffer) (int kMaxExponentLength - int first_char_pos) } }"

definition CreateDecimalRepresentation :: "double_to_string_converter \<Rightarrow> char list \<Rightarrow> int \<Rightarrow> int \<Rightarrow> int \<Rightarrow>
    string_builder \<Rightarrow> string_builder option" where
  "CreateDecimalRepresentation this decimal_digits len decimal_point digits_after_point result_builder = do {
     result_builder \<leftarrow>
       (if decimal_point \<le> 0 then do {
          result_builder \<leftarrow> AddCharacter result_builder (CHR ''0'');
          if 0 < digits_after_point then do {
            result_builder \<leftarrow> AddCharacter result_builder (CHR ''.'');
            result_builder \<leftarrow> AddPadding result_builder (CHR ''0'') (- decimal_point);
            ASSERT (len \<le> digits_after_point - (- decimal_point));
            result_builder \<leftarrow> AddSubstring result_builder decimal_digits len;
            let remaining_digits = digits_after_point - (- decimal_point) - len;
            AddPadding result_builder (CHR ''0'') remaining_digits }
          else Some result_builder }
        else if len \<le> decimal_point then do {
          result_builder \<leftarrow> AddSubstring result_builder decimal_digits len;
          result_builder \<leftarrow> AddPadding result_builder (CHR ''0'') (decimal_point - len);
          if 0 < digits_after_point then do {
            result_builder \<leftarrow> AddCharacter result_builder (CHR ''.'');
            AddPadding result_builder (CHR ''0'') digits_after_point }
          else Some result_builder }
        else do {
          ASSERT (0 < digits_after_point);
          result_builder \<leftarrow> AddSubstring result_builder decimal_digits decimal_point;
          result_builder \<leftarrow> AddCharacter result_builder (CHR ''.'');
          ASSERT (len - decimal_point \<le> digits_after_point);
          result_builder \<leftarrow> AddSubstring result_builder (drop (nat decimal_point) decimal_digits) (len - decimal_point);
          let remaining_digits = digits_after_point - (len - decimal_point);
          AddPadding result_builder (CHR ''0'') remaining_digits });
     if digits_after_point = 0 then do {
       result_builder \<leftarrow>
         (if dts_flags this AND EMIT_TRAILING_DECIMAL_POINT \<noteq> 0 then AddCharacter result_builder (CHR ''.'')
          else Some result_builder);
       if dts_flags this AND EMIT_TRAILING_ZERO_AFTER_POINT \<noteq> 0 then AddCharacter result_builder (CHR ''0'')
       else Some result_builder }
     else Some result_builder }"

section \<open>The conversions\<close>

text \<open>The minus sign, the same text in the four conversions.\<close>

definition add_sign :: "double_to_string_converter \<Rightarrow> bool \<Rightarrow> double_bits \<Rightarrow> string_builder \<Rightarrow> string_builder option" where
  "add_sign this sign value result_builder =
    (let unique_zero = (dts_flags this AND UNIQUE_ZERO \<noteq> 0) in
     if sign \<and> (\<not> double_equal value 0 \<or> \<not> unique_zero) then AddCharacter result_builder (CHR ''-'')
     else Some result_builder)"

text \<open>\<open>for (int i = decimal_rep_length; i < n; ++i) decimal_rep[i] = '0';\<close>\<close>

definition fill_zeros :: "char list \<Rightarrow> nat \<Rightarrow> nat \<Rightarrow> char list option" where
  "fill_zeros decimal_rep len n = for_up len n (\<lambda>i decimal_rep. wr decimal_rep i (CHR ''0'')) decimal_rep"

definition ToShortestIeeeNumber :: "double_to_string_converter \<Rightarrow> double_bits \<Rightarrow> char list \<Rightarrow> string_builder \<Rightarrow>
    DtoaMode \<Rightarrow> (bool \<times> string_builder) option" where
  "ToShortestIeeeNumber this value decimal_rep result_builder mode = do {
     ASSERT (mode = SHORTEST \<or> mode = SHORTEST_SINGLE);
     if IsSpecial value then HandleSpecialValues this value result_builder
     else do {
       (decimal_rep, sign, decimal_rep_length, point) \<leftarrow> DoubleToAscii value mode 0 decimal_rep;
       decimal_point \<leftarrow> point;
       result_builder \<leftarrow> add_sign this sign value result_builder;
       let e = decimal_point - 1;
       result_builder \<leftarrow>
         (if dts_decimal_in_shortest_low this \<le> e \<and> e < dts_decimal_in_shortest_high this then
            CreateDecimalRepresentation this decimal_rep (int decimal_rep_length) decimal_point
              (max 0 (int decimal_rep_length - decimal_point)) result_builder
          else CreateExponentialRepresentation this decimal_rep (int decimal_rep_length) e result_builder);
       Some (True, result_builder) } }"

definition ToShortest :: "double_to_string_converter \<Rightarrow> double_bits \<Rightarrow> char list \<Rightarrow> string_builder \<Rightarrow> (bool \<times> string_builder) option" where
  "ToShortest this value decimal_rep result_builder = ToShortestIeeeNumber this value decimal_rep result_builder SHORTEST"

definition ToShortestSingle :: "double_to_string_converter \<Rightarrow> single_bits \<Rightarrow> char list \<Rightarrow> string_builder \<Rightarrow> (bool \<times> string_builder) option" where
  "ToShortestSingle this value decimal_rep result_builder =
    ToShortestIeeeNumber this (double_of_single value) decimal_rep result_builder SHORTEST_SINGLE"

definition kFirstNonFixed :: double_bits where "kFirstNonFixed = 0x4C63E9E4E4C2F344"

definition ToFixed :: "double_to_string_converter \<Rightarrow> double_bits \<Rightarrow> int \<Rightarrow> char list \<Rightarrow> string_builder \<Rightarrow> (bool \<times> string_builder) option" where
  "ToFixed this value requested_digits decimal_rep result_builder = do {
     ASSERT (kMaxFixedDigitsBeforePoint = 60);
     if IsSpecial value then HandleSpecialValues this value result_builder
     else if kMaxFixedDigitsAfterPoint < requested_digits then Some (False, result_builder)
     else if \<not> double_less value kFirstNonFixed \<or> \<not> double_less (double_uminus kFirstNonFixed) value
     then Some (False, result_builder)
     else do {
       (decimal_rep, sign, decimal_rep_length, point) \<leftarrow> DoubleToAscii value FIXED requested_digits decimal_rep;
       decimal_point \<leftarrow> point;
       result_builder \<leftarrow> add_sign this sign value result_builder;
       result_builder \<leftarrow> CreateDecimalRepresentation this decimal_rep (int decimal_rep_length) decimal_point
         requested_digits result_builder;
       Some (True, result_builder) } }"

definition ToExponential :: "double_to_string_converter \<Rightarrow> double_bits \<Rightarrow> int \<Rightarrow> char list \<Rightarrow> string_builder \<Rightarrow> (bool \<times> string_builder) option" where
  "ToExponential this value requested_digits decimal_rep result_builder =
    (if IsSpecial value then HandleSpecialValues this value result_builder
     else if requested_digits < - 1 then Some (False, result_builder)
     else if kMaxExponentialDigits < requested_digits then Some (False, result_builder)
     else do {
       ASSERT (kBase10MaximalLength < kMaxExponentialDigits + 2);
       (decimal_rep, sign, decimal_rep_length, decimal_point) \<leftarrow>
         (if requested_digits = - 1 then do {
            (decimal_rep, sign, decimal_rep_length, point) \<leftarrow> DoubleToAscii value SHORTEST 0 decimal_rep;
            decimal_point \<leftarrow> point;
            Some (decimal_rep, sign, decimal_rep_length, decimal_point) }
          else do {
            (decimal_rep, sign, decimal_rep_length, point) \<leftarrow>
              DoubleToAscii value PRECISION (requested_digits + 1) decimal_rep;
            ASSERT (int decimal_rep_length \<le> requested_digits + 1);
            decimal_rep \<leftarrow> fill_zeros decimal_rep decimal_rep_length (nat (requested_digits + 1));
            decimal_point \<leftarrow> point;
            Some (decimal_rep, sign, nat (requested_digits + 1), decimal_point) });
       result_builder \<leftarrow> add_sign this sign value result_builder;
       let e = decimal_point - 1;
       result_builder \<leftarrow> CreateExponentialRepresentation this decimal_rep (int decimal_rep_length) e result_builder;
       Some (True, result_builder) })"

definition ToPrecision :: "double_to_string_converter \<Rightarrow> double_bits \<Rightarrow> int \<Rightarrow> char list \<Rightarrow> string_builder \<Rightarrow> (bool \<times> string_builder) option" where
  "ToPrecision this value precision decimal_rep result_builder =
    (if IsSpecial value then HandleSpecialValues this value result_builder
     else if precision < kMinPrecisionDigits \<or> kMaxPrecisionDigits < precision then Some (False, result_builder)
     else do {
       (decimal_rep, sign, decimal_rep_length, point) \<leftarrow> DoubleToAscii value PRECISION precision decimal_rep;
       ASSERT (int decimal_rep_length \<le> precision);
       decimal_point \<leftarrow> point;
       result_builder \<leftarrow> add_sign this sign value result_builder;
       let e = decimal_point - 1;
       let extra_zero = (if dts_flags this AND EMIT_TRAILING_ZERO_AFTER_POINT \<noteq> 0 then 1 else 0);
       result_builder \<leftarrow>
         (if dts_max_leading_padding_zeroes this < - decimal_point + 1 \<or>
             dts_max_trailing_padding_zeroes this < decimal_point - precision + extra_zero then do {
            decimal_rep \<leftarrow> fill_zeros decimal_rep decimal_rep_length (nat precision);
            CreateExponentialRepresentation this decimal_rep precision e result_builder }
          else CreateDecimalRepresentation this decimal_rep (int decimal_rep_length) decimal_point
            (max 0 (precision - decimal_point)) result_builder);
       Some (True, result_builder) })"

end
