(* ===== verification/Builder_Text.thy ===== *)
theory Builder_Text
  imports String_Builder
begin

text \<open>
  What the operations of \<open>StringBuilder\<close> promise.  \<open>builder n t this\<close> is the invariant of an object that
  is not finalized: an array of \<open>n\<close> characters whose first ones are the text \<open>t\<close>, with no 0-character
  among them, and the position after them.  Every operation of the class keeps it and appends.
\<close>

section \<open>Character sequences\<close>

text \<open>
  The interface that the padding loop uses: an object that holds a text and takes one character at a
  time while there is room.
\<close>

locale char_sink =
  fixes holds :: "nat \<Rightarrow> char list \<Rightarrow> 's \<Rightarrow> bool"
    and put :: "'s \<Rightarrow> char \<Rightarrow> 's option"
  assumes put_wp: "holds n t s \<Longrightarrow> c \<noteq> NUL \<Longrightarrow> length t < n \<Longrightarrow> wp (put s c) (holds n (t @ [c]))"
begin

lemma repeat_wp:
  assumes "holds n t s" and "c \<noteq> NUL" and "length t + k \<le> n"
  shows "wp (for_up 0 k (\<lambda>_ s. put s c) s) (holds n (t @ replicate k c))"
proof (rule for_up_rule [where I = "\<lambda>i. holds n (t @ replicate i c)"])
  fix i s
  assume "i < k" and I: "holds n (t @ replicate i c) s"
  then have "length (t @ replicate i c) < n"
    using assms(3) by simp
  from put_wp [OF I assms(2) this] show "wp (put s c) (holds n (t @ replicate (Suc i) c))"
    by (simp add: replicate_append_same)
qed (use assms(1) in simp_all)

end

section \<open>The invariant\<close>

definition builder :: "nat \<Rightarrow> char list \<Rightarrow> string_builder \<Rightarrow> bool" where
  "builder n t this \<longleftrightarrow> length (sb_buffer this) = n \<and> sb_position this = int (length t) \<and> length t \<le> n \<and>
    take (length t) (sb_buffer this) = t \<and> NUL \<notin> set t"

lemma builder_new: "length buffer = n \<Longrightarrow> builder n [] (StringBuilder buffer)"
  by (simp add: builder_def StringBuilder_def)

lemma builder_Reset: "length (sb_buffer this) = n \<Longrightarrow> builder n [] (Reset this)"
  by (simp add: builder_def Reset_def)

lemma builder_room: "builder n t this \<Longrightarrow> \<not> is_finalized this" "builder n t this \<Longrightarrow> sb_size this = n"
  "builder n t this \<Longrightarrow> position this = Some (int (length t))"
  by (simp_all add: builder_def is_finalized_def sb_size_def position_def ASSERT_def)

lemma AddCharacter_wp: "builder n t this \<Longrightarrow> c \<noteq> NUL \<Longrightarrow> length t < n \<Longrightarrow> wp (AddCharacter this c) (builder n (t @ [c]))"
  by (auto simp: AddCharacter_def wp_simps builder_def is_finalized_def take_Suc_conv_app_nth)

interpretation appended: char_sink builder AddCharacter
  by unfold_locales (rule AddCharacter_wp)

lemma AddPadding_wp:
  "builder n t this \<Longrightarrow> c \<noteq> NUL \<Longrightarrow> length t + nat k \<le> n \<Longrightarrow> wp (AddPadding this c k) (builder n (t @ replicate (nat k) c))"
  unfolding AddPadding_def by (rule appended.repeat_wp)

text \<open>The first \<open>k\<close> characters of a C string that has at least as many.\<close>

definition string_prefix :: "char list \<Rightarrow> nat \<Rightarrow> bool" where
  "string_prefix s k \<longleftrightarrow> NUL \<in> set s \<and> k \<le> length s \<and> NUL \<notin> set (take k s)"

lemma strlen_ge: "string_prefix s k \<Longrightarrow> \<exists>m. strlen s = Some m \<and> k \<le> m"
proof -
  assume s: "string_prefix s k"
  then have "takeWhile (\<lambda>c. c \<noteq> NUL) s = take k s @ takeWhile (\<lambda>c. c \<noteq> NUL) (drop k s)"
    using takeWhile_append2 [of "take k s" "\<lambda>c. c \<noteq> NUL" "drop k s"] by (auto simp: string_prefix_def)
  then have "k \<le> length (takeWhile (\<lambda>c. c \<noteq> NUL) s)"
    using s by (simp add: string_prefix_def)
  then show ?thesis
    using s by (simp add: strlen_def string_prefix_def)
qed

lemma AddSubstring_wp:
  assumes b: "builder n t this" and s: "string_prefix s k" and room: "length t + k < n"
  shows "wp (AddSubstring this s (int k)) (builder n (t @ take k s))"
proof -
  obtain m where m: "strlen s = Some m" "k \<le> m"
    using strlen_ge [OF s] by blast
  then show ?thesis
    using b s room by (auto simp: AddSubstring_def wp_simps builder_def is_finalized_def string_prefix_def)
qed

lemma strlen_c_string: "NUL \<notin> set s \<Longrightarrow> strlen (c_string s) = Some (length s)"
proof -
  assume "NUL \<notin> set s"
  then have "takeWhile (\<lambda>c. c \<noteq> NUL) (s @ [NUL]) = s"
    by (induction s) auto
  then show ?thesis
    by (simp add: strlen_def c_string_def)
qed

lemma AddString_wp:
  assumes "builder n t this" and "NUL \<notin> set s" and "length t + length s < n"
  shows "wp (AddString this (c_string s)) (builder n (t @ s))"
proof -
  have "string_prefix (c_string s) (length s)"
    using assms(2) by (simp add: string_prefix_def c_string_def)
  from AddSubstring_wp [OF assms(1) this assms(3)] show ?thesis
    by (simp add: AddString_def strlen_c_string [OF assms(2)]) (simp add: c_string_def)
qed

theorem Finalize_wp:
  assumes "builder n t this" and "length t < n"
  shows "wp (Finalize this) (\<lambda>(buffer, this'). is_finalized this' \<and> length buffer = n \<and> strlen buffer = Some (length t) \<and>
    take (length t) buffer = t \<and> sb_buffer this' = buffer)"
proof -
  define buffer where "buffer = (sb_buffer this)[length t := NUL]"
  have t: "take (length t) buffer = t" "buffer ! length t = NUL" "length t < length buffer"
    using assms by (simp_all add: buffer_def builder_def)
  then have split: "buffer = t @ NUL # drop (Suc (length t)) buffer"
    using id_take_nth_drop [OF t(3)] by simp
  have "takeWhile (\<lambda>c. c \<noteq> NUL) (t @ NUL # ys) = t" for ys
    using assms(1) by (subst takeWhile_append2) (auto simp: builder_def)
  then have "takeWhile (\<lambda>c. c \<noteq> NUL) buffer = t"
    by (subst split)
  moreover have "NUL \<in> set buffer"
    by (subst split) simp
  ultimately have "strlen buffer = Some (length t)"
    by (simp add: strlen_def)
  then show ?thesis
    using assms t(1) by (simp add: Finalize_def wp_simps builder_def is_finalized_def flip: buffer_def) (simp add: buffer_def)
qed

end
