(* ===== verification/Number_Text.thy ===== *)
theory Number_Text
  imports Double_To_String Builder_Text Bignum_Dtoa_Rounded
begin

unbundle bit_operations_syntax

text \<open>
  The texts that \<open>CreateDecimalRepresentation\<close> and \<open>CreateExponentialRepresentation\<close> of
  \<open>double-conversion.cc\<close> append to a builder: a text that reads as the number that the digits stand
  for, of the length that the arguments ask for.
\<close>

section \<open>Digits and zeros\<close>

abbreviation zeros :: "nat \<Rightarrow> char list" where "zeros n \<equiv> replicate n (CHR ''0'')"

lemma dec_value_padded: "dec_value (zeros a @ ds @ zeros b) = dec_value ds * 10 ^ b"
  by (simp add: dec_value_append dec_value_zeros)

lemma digit_not_NUL: "is_digit c \<Longrightarrow> c \<noteq> NUL"
  by (auto simp: is_digit_def NUL_def code_of_char_at)

text \<open>An array that starts with the digits \<open>ds\<close> and a 0-character somewhere after them.\<close>

definition digit_array :: "char list \<Rightarrow> char list \<Rightarrow> bool" where
  "digit_array a ds \<longleftrightarrow> (\<forall>c\<in>set ds. is_digit c) \<and> length ds \<le> length a \<and> take (length ds) a = ds \<and> NUL \<in> set (drop (length ds) a)"

lemma digit_array_prefix:
  assumes "digit_array a ds" and "i + k \<le> length ds"
  shows "string_prefix (drop i a) k" and "take k (drop i a) = take k (drop i ds)"
proof -
  have a: "a = ds @ drop (length ds) a"
    using assms(1) append_take_drop_id [of "length ds" a] by (simp add: digit_array_def)
  have "i \<le> length ds"
    using assms(2) by simp
  then have d: "drop i a = drop i ds @ drop (length ds) a"
    by (subst a) simp
  show t: "take k (drop i a) = take k (drop i ds)"
    using assms(2) unfolding d by simp
  have "NUL \<notin> set ds"
    using assms(1) digit_not_NUL by (auto simp: digit_array_def)
  then have "NUL \<notin> set (take k (drop i ds))"
    by (meson in_set_dropD in_set_takeD)
  moreover have "i + k \<le> length a"
    using assms by (simp add: digit_array_def)
  then have "k \<le> length (drop i a)"
    by simp
  moreover have "NUL \<in> set (drop i a)"
    using assms(1) by (simp add: d digit_array_def)
  ultimately show "string_prefix (drop i a) k"
    by (simp add: string_prefix_def t)
qed

lemma add_digits_wp:
  assumes "builder n t this" and "digit_array a ds" and "i + k \<le> length ds" and "length t + k < n"
  shows "wp (AddSubstring this (drop i a) (int k)) (builder n (t @ take k (drop i ds)))"
  using AddSubstring_wp [OF assms(1) digit_array_prefix(1) [OF assms(2,3)] assms(4)] digit_array_prefix(2) [OF assms(2,3)] by simp

section \<open>What an operation appends\<close>

text \<open>
  \<open>adds n m u\<close>: on a builder of \<open>n\<close> characters with room for \<open>u\<close> and the final 0-character, \<open>m\<close>
  returns and appends \<open>u\<close>.
\<close>

definition adds :: "nat \<Rightarrow> (string_builder \<Rightarrow> string_builder option) \<Rightarrow> char list \<Rightarrow> bool" where
  "adds n m u \<longleftrightarrow> (\<forall>t s. builder n t s \<and> length t + length u < n \<longrightarrow> wp (m s) (builder n (t @ u)))"

lemma adds_bind: "adds n m u \<Longrightarrow> adds n f v \<Longrightarrow> adds n (\<lambda>s. Option.bind (m s) f) (u @ v)"
  unfolding adds_def
proof (intro allI impI)
  fix t s
  assume m: "\<forall>t s. builder n t s \<and> length t + length u < n \<longrightarrow> wp (m s) (builder n (t @ u))"
    and f: "\<forall>t s. builder n t s \<and> length t + length v < n \<longrightarrow> wp (f s) (builder n (t @ v))"
    and b: "builder n t s \<and> length t + length (u @ v) < n"
  have "wp (m s) (builder n (t @ u))"
    using m b by simp
  then show "wp (Option.bind (m s) f) (builder n (t @ u @ v))"
    by (rule wp_seq) (use f b in \<open>force simp flip: append_assoc\<close>)
qed

lemma adds_Some: "adds n Some []"
  by (simp add: adds_def)

lemma adds_char: "c \<noteq> NUL \<Longrightarrow> adds n (\<lambda>s. AddCharacter s c) [c]"
  by (simp add: adds_def AddCharacter_wp)

lemma adds_padding: "c \<noteq> NUL \<Longrightarrow> adds n (\<lambda>s. AddPadding s c k) (replicate (nat k) c)"
  by (simp add: adds_def AddPadding_wp)

lemma adds_digits:
  assumes "digit_array a ds" and "i + k \<le> length ds" and "j = int k"
  shows "adds n (\<lambda>s. AddSubstring s (drop i a) j) (take k (drop i ds))"
  using add_digits_wp [OF _ assms(1,2)] assms(2) by (simp add: adds_def assms(3))

lemma adds_all_digits:
  assumes "digit_array a ds"
  shows "adds n (\<lambda>s. AddSubstring s a (int (length ds))) ds"
  using adds_digits [OF assms, of 0 "length ds"] by simp

lemma adds_assert: "P \<Longrightarrow> adds n m u \<Longrightarrow> adds n (\<lambda>s. Option.bind (ASSERT P) (\<lambda>_. m s)) u"
  by (simp add: ASSERT_def)

lemma adds_if: "(P \<Longrightarrow> adds n m u) \<Longrightarrow> (\<not> P \<Longrightarrow> adds n m' u) \<Longrightarrow> adds n (\<lambda>s. if P then m s else m' s) u"
  by (cases P) simp_all

lemma adds_optional: "adds n m u \<Longrightarrow> adds n (\<lambda>s. if P then m s else Some s) (if P then u else [])"
  by (simp add: adds_Some)

lemma adds_eq: "adds n m u \<Longrightarrow> u = v \<Longrightarrow> adds n m v"
  by simp

lemmas adds_rules = adds_bind adds_char adds_padding adds_Some adds_assert adds_optional

section \<open>Decimal notation\<close>

text \<open>The integer part and the fraction of the number with the digits \<open>ds\<close> and the point after \<open>pt\<close> of them.\<close>

definition decimal_notation :: "char list \<Rightarrow> int \<Rightarrow> nat \<Rightarrow> char list \<Rightarrow> char list \<Rightarrow> bool" where
  "decimal_notation ds pt digits ip fp \<longleftrightarrow> (\<forall>c\<in>set (ip @ fp). is_digit c) \<and> length fp = digits \<and> length ip = nat (max 1 pt) \<and>
    real (dec_value (ip @ fp)) * 10 powi (- int digits) = decimal_value ds pt"

lemma decimal_notationI:
  assumes "\<forall>c\<in>set (ip @ fp). is_digit c" and "length fp = digits" and "length ip = nat (max 1 pt)"
    and "dec_value (ip @ fp) = dec_value ds * 10 ^ k" and "int k = int digits + pt - int (length ds)"
  shows "decimal_notation ds pt digits ip fp"
proof -
  have split: "pt - int (length ds) = int k + - int digits"
    using assms(5) by simp
  have "(10 :: real) powi (pt - int (length ds)) = 10 ^ k * 10 powi (- int digits)"
    unfolding split by (subst power_int_add) simp_all
  then show ?thesis
    using assms(1-4) by (simp add: decimal_notation_def decimal_value_def)
qed

definition trailing_text :: "double_to_string_converter \<Rightarrow> char list" where
  "trailing_text this = (if dts_flags this AND EMIT_TRAILING_DECIMAL_POINT \<noteq> 0 then ''.'' else '''') @
    (if dts_flags this AND EMIT_TRAILING_ZERO_AFTER_POINT \<noteq> 0 then ''0'' else '''')"

definition decimal_text :: "double_to_string_converter \<Rightarrow> char list \<Rightarrow> char list \<Rightarrow> char list" where
  "decimal_text this ip fp = ip @ (if fp = [] then trailing_text this else ''.'' @ fp)"

lemma literal_not_NUL: "CHR ''.'' \<noteq> NUL" "CHR ''0'' \<noteq> NUL" "CHR ''-'' \<noteq> NUL" "CHR ''+'' \<noteq> NUL"
  by (simp_all add: NUL_def code_of_char_at code_of_def flip: code_of_inj) (simp_all add: char_at_def)

lemma is_digit_0 [simp]: "is_digit (CHR ''0'')"
  by (simp add: is_digit_def)

lemma adds_trailing:
  "adds n (\<lambda>s. do {
      s \<leftarrow> (if dts_flags c AND EMIT_TRAILING_DECIMAL_POINT \<noteq> 0 then AddCharacter s (CHR ''.'') else Some s);
      if dts_flags c AND EMIT_TRAILING_ZERO_AFTER_POINT \<noteq> 0 then AddCharacter s (CHR ''0'') else Some s }) (trailing_text c)"
  unfolding trailing_text_def by (intro adds_rules literal_not_NUL)

text \<open>The three cases of the code before the trailing characters.\<close>

lemma adds_small:
  assumes a: "digit_array a ds" and pt: "pt \<le> 0" "int (length ds) - pt \<le> int digits"
  obtains ip fp where "decimal_notation ds pt digits ip fp" and
    "adds n (\<lambda>s. do {
      s \<leftarrow> AddCharacter s (CHR ''0'');
      if 0 < int digits then do {
        s \<leftarrow> AddCharacter s (CHR ''.'');
        s \<leftarrow> AddPadding s (CHR ''0'') (- pt);
        ASSERT (int (length ds) \<le> int digits - (- pt));
        s \<leftarrow> AddSubstring s a (int (length ds));
        let remaining_digits = int digits - (- pt) - int (length ds);
        AddPadding s (CHR ''0'') remaining_digits }
      else Some s }) (ip @ (if fp = [] then '''' else ''.'' @ fp))"
proof
  define k where "k = nat (int digits + pt - int (length ds))"
  define fp where "fp = zeros (nat (- pt)) @ ds @ zeros k"
  have len: "length fp = digits"
    using pt by (simp add: fp_def k_def)
  show "decimal_notation ds pt digits ''0'' fp"
  proof (rule decimal_notationI [where k = k])
    show "dec_value (''0'' @ fp) = dec_value ds * 10 ^ k"
      using dec_value_padded [of "Suc (nat (- pt))" ds k] by (simp add: fp_def)
  qed (use a len pt in \<open>auto simp: fp_def digit_array_def k_def\<close>)
  have k: "nat (int digits - (- pt) - int (length ds)) = k" "int (length ds) \<le> int digits - (- pt)"
    using pt by (simp_all add: k_def)
  have "adds n (\<lambda>s. do {
      s \<leftarrow> AddCharacter s (CHR ''0'');
      if 0 < int digits then do {
        s \<leftarrow> AddCharacter s (CHR ''.'');
        s \<leftarrow> AddPadding s (CHR ''0'') (- pt);
        ASSERT (int (length ds) \<le> int digits - (- pt));
        s \<leftarrow> AddSubstring s a (int (length ds));
        AddPadding s (CHR ''0'') (int digits - (- pt) - int (length ds)) }
      else Some s }) (''0'' @ (if 0 < int digits then ''.'' @ zeros (nat (- pt)) @ ds @ zeros k else []))"
    unfolding k(1) [symmetric] by (intro adds_rules adds_all_digits [OF a] literal_not_NUL k)
  then show "adds n (\<lambda>s. do {
      s \<leftarrow> AddCharacter s (CHR ''0'');
      if 0 < int digits then do {
        s \<leftarrow> AddCharacter s (CHR ''.'');
        s \<leftarrow> AddPadding s (CHR ''0'') (- pt);
        ASSERT (int (length ds) \<le> int digits - (- pt));
        s \<leftarrow> AddSubstring s a (int (length ds));
        let remaining_digits = int digits - (- pt) - int (length ds);
        AddPadding s (CHR ''0'') remaining_digits }
      else Some s }) (''0'' @ (if fp = [] then '''' else ''.'' @ fp))"
    using len by (auto simp: fp_def Let_def split: if_splits)
qed

lemma adds_large:
  assumes a: "digit_array a ds" and pt: "0 < pt" "int (length ds) \<le> pt"
  obtains ip fp where "decimal_notation ds pt digits ip fp" and
    "adds n (\<lambda>s. do {
      s \<leftarrow> AddSubstring s a (int (length ds));
      s \<leftarrow> AddPadding s (CHR ''0'') (pt - int (length ds));
      if 0 < int digits then do {
        s \<leftarrow> AddCharacter s (CHR ''.'');
        AddPadding s (CHR ''0'') (int digits) }
      else Some s }) (ip @ (if fp = [] then '''' else ''.'' @ fp))"
proof
  define k where "k = nat (pt - int (length ds))"
  show "decimal_notation ds pt digits (ds @ zeros k) (zeros digits)"
  proof (rule decimal_notationI [where k = "k + digits"])
    show "dec_value ((ds @ zeros k) @ zeros digits) = dec_value ds * 10 ^ (k + digits)"
      by (simp add: dec_value_append dec_value_zeros power_add)
  qed (use a pt in \<open>auto simp: digit_array_def k_def\<close>)
  have "adds n (\<lambda>s. do {
      s \<leftarrow> AddSubstring s a (int (length ds));
      s \<leftarrow> AddPadding s (CHR ''0'') (pt - int (length ds));
      if 0 < int digits then do {
        s \<leftarrow> AddCharacter s (CHR ''.'');
        AddPadding s (CHR ''0'') (int digits) }
      else Some s }) (ds @ zeros k @ (if 0 < int digits then ''.'' @ zeros (nat (int digits)) else []))"
    unfolding k_def by (intro adds_rules adds_all_digits [OF a] literal_not_NUL)
  then show "adds n (\<lambda>s. do {
      s \<leftarrow> AddSubstring s a (int (length ds));
      s \<leftarrow> AddPadding s (CHR ''0'') (pt - int (length ds));
      if 0 < int digits then do {
        s \<leftarrow> AddCharacter s (CHR ''.'');
        AddPadding s (CHR ''0'') (int digits) }
      else Some s }) ((ds @ zeros k) @ (if zeros digits = [] then '''' else ''.'' @ zeros digits))"
    by (simp split: if_splits)
qed

lemma adds_inside:
  assumes a: "digit_array a ds" and pt: "0 < pt" "pt < int (length ds)" "int (length ds) - pt \<le> int digits"
  obtains ip fp where "decimal_notation ds pt digits ip fp" and
    "adds n (\<lambda>s. do {
      ASSERT (0 < int digits);
      s \<leftarrow> AddSubstring s a pt;
      s \<leftarrow> AddCharacter s (CHR ''.'');
      ASSERT (int (length ds) - pt \<le> int digits);
      s \<leftarrow> AddSubstring s (drop (nat pt) a) (int (length ds) - pt);
      let remaining_digits = int digits - (int (length ds) - pt);
      AddPadding s (CHR ''0'') remaining_digits }) (ip @ (if fp = [] then '''' else ''.'' @ fp))"
proof
  define p where "p = nat pt"
  define k where "k = nat (int digits - (int (length ds) - pt))"
  have p: "pt = int p" "p < length ds"
    using pt by (simp_all add: p_def)
  define fp where "fp = drop p ds @ zeros k"
  have len: "length fp = digits" "0 < int digits"
    using pt p by (simp_all add: fp_def k_def)
  show "decimal_notation ds pt digits (take p ds) fp"
  proof (rule decimal_notationI [where k = k])
    show "dec_value (take p ds @ fp) = dec_value ds * 10 ^ k"
      using dec_value_append [of ds "zeros k"] by (simp add: fp_def dec_value_zeros flip: append_assoc)
  qed (use a len pt in \<open>auto simp: fp_def digit_array_def k_def p_def dest: in_set_takeD in_set_dropD\<close>)
  have "adds n (\<lambda>s. do {
      ASSERT (0 < int digits);
      s \<leftarrow> AddSubstring s a (int p);
      s \<leftarrow> AddCharacter s (CHR ''.'');
      ASSERT (int (length ds) - pt \<le> int digits);
      s \<leftarrow> AddSubstring s (drop p a) (int (length ds) - pt);
      AddPadding s (CHR ''0'') (int digits - (int (length ds) - pt)) })
    (take p ds @ ''.'' @ take (length ds - p) (drop p ds) @ zeros (nat (int digits - (int (length ds) - pt))))"
  proof (intro adds_rules literal_not_NUL len pt adds_digits [OF a])
    show "adds n (\<lambda>s. AddSubstring s a (int p)) (take p ds)"
      using adds_digits [OF a, of 0 p] p by simp
  qed (use p in simp_all)
  then show "adds n (\<lambda>s. do {
      ASSERT (0 < int digits);
      s \<leftarrow> AddSubstring s a pt;
      s \<leftarrow> AddCharacter s (CHR ''.'');
      ASSERT (int (length ds) - pt \<le> int digits);
      s \<leftarrow> AddSubstring s (drop (nat pt) a) (int (length ds) - pt);
      let remaining_digits = int digits - (int (length ds) - pt);
      AddPadding s (CHR ''0'') remaining_digits }) (take p ds @ (if fp = [] then '''' else ''.'' @ fp))"
    using len p by (auto simp: fp_def k_def Let_def)
qed

theorem CreateDecimalRepresentation_adds:
  assumes a: "digit_array a ds" and digits: "int (length ds) - pt \<le> int digits"
  obtains ip fp where "decimal_notation ds pt digits ip fp" and
    "adds n (CreateDecimalRepresentation this a (int (length ds)) pt (int digits)) (decimal_text this ip fp)"
proof -
  define body where "body = (\<lambda>s. if pt \<le> 0 then do {
          s \<leftarrow> AddCharacter s (CHR ''0'');
          if 0 < int digits then do {
            s \<leftarrow> AddCharacter s (CHR ''.'');
            s \<leftarrow> AddPadding s (CHR ''0'') (- pt);
            ASSERT (int (length ds) \<le> int digits - (- pt));
            s \<leftarrow> AddSubstring s a (int (length ds));
            let remaining_digits = int digits - (- pt) - int (length ds);
            AddPadding s (CHR ''0'') remaining_digits }
          else Some s }
        else if int (length ds) \<le> pt then do {
          s \<leftarrow> AddSubstring s a (int (length ds));
          s \<leftarrow> AddPadding s (CHR ''0'') (pt - int (length ds));
          if 0 < int digits then do {
            s \<leftarrow> AddCharacter s (CHR ''.'');
            AddPadding s (CHR ''0'') (int digits) }
          else Some s }
        else do {
          ASSERT (0 < int digits);
          s \<leftarrow> AddSubstring s a pt;
          s \<leftarrow> AddCharacter s (CHR ''.'');
          ASSERT (int (length ds) - pt \<le> int digits);
          s \<leftarrow> AddSubstring s (drop (nat pt) a) (int (length ds) - pt);
          let remaining_digits = int digits - (int (length ds) - pt);
          AddPadding s (CHR ''0'') remaining_digits })"
  obtain ip fp where d: "decimal_notation ds pt digits ip fp" and
    "adds n body (ip @ (if fp = [] then '''' else ''.'' @ fp))"
  proof (cases "pt \<le> 0")
    case True
    then show thesis
      using adds_small [OF a True digits, of n] that by (auto simp: body_def)
  next
    case False
    then show thesis
      using adds_large [OF a, of pt digits n] adds_inside [OF a _ _ digits, of n] that
      by (cases "int (length ds) \<le> pt") (auto simp: body_def)
  qed
  have empty: "fp = [] \<longleftrightarrow> int digits = 0"
    using d by (auto simp: decimal_notation_def)
  have run: "CreateDecimalRepresentation this a (int (length ds)) pt (int digits) = (\<lambda>s. do {
      s \<leftarrow> body s;
      if int digits = 0 then do {
        s \<leftarrow> (if dts_flags this AND EMIT_TRAILING_DECIMAL_POINT \<noteq> 0 then AddCharacter s (CHR ''.'') else Some s);
        if dts_flags this AND EMIT_TRAILING_ZERO_AFTER_POINT \<noteq> 0 then AddCharacter s (CHR ''0'') else Some s }
      else Some s })"
    by (rule ext) (simp only: CreateDecimalRepresentation_def body_def)
  have "adds n (\<lambda>s. do {
      s \<leftarrow> body s;
      if int digits = 0 then do {
        s \<leftarrow> (if dts_flags this AND EMIT_TRAILING_DECIMAL_POINT \<noteq> 0 then AddCharacter s (CHR ''.'') else Some s);
        if dts_flags this AND EMIT_TRAILING_ZERO_AFTER_POINT \<noteq> 0 then AddCharacter s (CHR ''0'') else Some s }
      else Some s }) ((ip @ (if fp = [] then '''' else ''.'' @ fp)) @ (if int digits = 0 then trailing_text this else []))"
    by (intro adds_bind adds_optional adds_trailing) fact
  then have "adds n (CreateDecimalRepresentation this a (int (length ds)) pt (int digits)) (decimal_text this ip fp)"
    unfolding run by (rule adds_eq) (use empty in \<open>simp add: decimal_text_def\<close>)
  with d show thesis
    by (rule that)
qed

section \<open>Exponential notation\<close>

text \<open>The loop that writes the exponent from its last digit on, into an array of six characters.\<close>

definition exponent_inv :: "nat \<Rightarrow> int \<times> char list \<times> nat \<Rightarrow> bool" where
  "exponent_inv n = (\<lambda>(e, buffer, pos). \<exists>m ds. e = int m \<and> length buffer = 6 \<and> drop pos buffer = ds @ [NUL] \<and> pos + length ds = 5 \<and>
    (\<forall>c\<in>set ds. is_digit c) \<and> m * 10 ^ length ds + dec_value ds = n \<and> m < 10 ^ (pos - 1) \<and> (m = 0 \<longrightarrow> ds \<noteq> [] \<and> hd ds \<noteq> CHR ''0''))"

lemma exponent_digit_wp:
  assumes I: "exponent_inv n (e, buffer, pos)" and e: "0 < e"
  shows "wp (exponent_digit (e, buffer, pos)) (\<lambda>s. exponent_inv n s \<and> snd (snd s) < pos)"
proof -
  obtain m ds where m: "e = int m" "length buffer = 6" "drop pos buffer = ds @ [NUL]" "pos + length ds = 5"
      "\<forall>c\<in>set ds. is_digit c" "m * 10 ^ length ds + dec_value ds = n" "m < 10 ^ (pos - 1)"
    using I by (auto simp: exponent_inv_def)
  have "pos - 1 \<noteq> 0"
    using m(1,7) e by (cases "pos - 1") auto
  then obtain p where p: "pos = Suc (Suc p)"
    by (cases pos) (auto simp: not0_implies_Suc gr0_conv_Suc)
  define d where "d = m mod 10"
  have d: "d \<le> 9" "m = m div 10 * 10 + d"
    by (simp_all add: d_def)
  have char: "char_at (code_of CHR ''0'' + e mod 10) = digit_char d"
    by (simp add: m(1) d_def digit_char_def zmod_int add.commute)
  have "drop (Suc p) (buffer[Suc p := digit_char d]) = digit_char d # drop pos buffer"
    using m(2,4) p by (simp add: Cons_nth_drop_Suc [symmetric])
  moreover have "m div 10 < 10 ^ p"
    using m(7) p by (simp add: less_mult_imp_div_less mult.commute)
  moreover have "m div 10 * 10 ^ Suc (length ds) + dec_value (digit_char d # ds) = n"
  proof -
    have "dec_value (digit_char d # ds) = d * 10 ^ length ds + dec_value ds"
      using d(1) by (simp add: dec_value_Cons)
    moreover have "m * 10 ^ length ds = (m div 10 * 10 + d) * 10 ^ length ds"
      by (rule arg_cong [OF d(2)])
    ultimately show ?thesis
      using m(6) by (simp add: algebra_simps)
  qed
  moreover have "digit_char d \<noteq> CHR ''0''" if "m div 10 = 0"
  proof
    assume "digit_char d = CHR ''0''"
    then have "d = 0"
      using digit_of_digit_char [OF d(1)] by (simp add: digit_of_def)
    then show False
      using d(2) that e m(1) by simp
  qed
  ultimately have "exponent_inv n (int (m div 10), buffer[Suc p := digit_char d], Suc p)"
    unfolding exponent_inv_def using m p d(1) by (auto intro!: exI [of _ "m div 10"] exI [of _ "digit_char d # ds"])
  then show ?thesis
    using p m(2,4) char by (simp add: exponent_digit_def wp_simps m(1) zdiv_int)
qed

lemma exponent_inv_done:
  assumes "exponent_inv n (e, buffer, pos)" and "\<not> 0 < e"
  shows "\<exists>ds. digit_array (drop pos buffer) ds \<and> length ds = 5 - pos \<and> pos \<le> 5 \<and> dec_value ds = n \<and> ds \<noteq> [] \<and> hd ds \<noteq> CHR ''0''"
proof -
  obtain m ds where m: "e = int m" "drop pos buffer = ds @ [NUL]" "pos + length ds = 5" "\<forall>c\<in>set ds. is_digit c"
      "m * 10 ^ length ds + dec_value ds = n" "m = 0 \<longrightarrow> ds \<noteq> [] \<and> hd ds \<noteq> CHR ''0''"
    using assms(1) by (auto simp: exponent_inv_def)
  have "m = 0"
    using assms(2) m(1) by simp
  then show ?thesis
    using m by (intro exI [of _ ds]) (auto simp: digit_array_def)
qed

lemma exponent_loop_wp:
  assumes "0 < n" and "n < 10000"
  shows "wp (while_opt (\<lambda>(e, _). 0 < e) exponent_digit (int n, replicate 6 NUL, 5))
    (\<lambda>(_, buffer, pos). \<exists>ds. digit_array (drop pos buffer) ds \<and> length ds = 5 - pos \<and> pos \<le> 5 \<and> dec_value ds = n \<and> ds \<noteq> [] \<and> hd ds \<noteq> CHR ''0'')"
proof (rule while_opt_rule [where I = "exponent_inv n" and m = "\<lambda>(_, _, pos). pos"])
  show "exponent_inv n (int n, replicate 6 NUL, 5)"
    using assms by (simp add: exponent_inv_def)
  fix s
  assume I: "exponent_inv n s"
  obtain e buffer pos where s: "s = (e, buffer, pos)"
    by (cases s)
  show "case s of (e, _) \<Rightarrow> 0 < e \<Longrightarrow> wp (exponent_digit s) (\<lambda>u. exponent_inv n u \<and> (case u of (_, _, pos) \<Rightarrow> pos) < (case s of (_, _, pos) \<Rightarrow> pos))"
    using exponent_digit_wp [of n e buffer pos] I by (auto simp: s split_beta elim!: wp_mono)
  show "\<not> (case s of (e, _) \<Rightarrow> 0 < e) \<Longrightarrow> case s of (_, buffer, pos) \<Rightarrow>
      \<exists>ds. digit_array (drop pos buffer) ds \<and> length ds = 5 - pos \<and> pos \<le> 5 \<and> dec_value ds = n \<and> ds \<noteq> [] \<and> hd ds \<noteq> CHR ''0''"
    using exponent_inv_done [of n e buffer pos] I by (simp add: s)
qed

text \<open>The text of a number in exponential notation: its parts and what they read as.\<close>

definition exponential_text :: "double_to_string_converter \<Rightarrow> char list \<Rightarrow> int \<Rightarrow> char list \<Rightarrow> char list" where
  "exponential_text this ds e es = take 1 ds @ (if length ds \<noteq> 1 then ''.'' @ drop 1 ds else '''') @ [dts_exponent_character this] @
    (if e < 0 then ''-'' else if dts_flags this AND EMIT_POSITIVE_EXPONENT_SIGN \<noteq> 0 then ''+'' else '''') @ es"

definition exponent_notation :: "int \<Rightarrow> char list \<Rightarrow> bool" where
  "exponent_notation e es \<longleftrightarrow> (\<forall>c\<in>set es. is_digit c) \<and> es \<noteq> [] \<and> length es \<le> 5 \<and> int (dec_value es) = \<bar>e\<bar> \<and> (hd es = CHR ''0'' \<longrightarrow> es = ''0'')"

lemma adds_exponent:
  assumes "0 \<le> e" and "e < 10000"
  obtains es where "exponent_notation e es" and
    "adds n (\<lambda>s. if e = 0 then AddCharacter s (CHR ''0'')
     else do {
       ASSERT (e < 10000);
       buffer \<leftarrow> wr (replicate (kMaxExponentLength + 1) NUL) kMaxExponentLength NUL;
       (_, buffer, first_char_pos) \<leftarrow> while_opt (\<lambda>(e, _). 0 < e) exponent_digit (e, buffer, kMaxExponentLength);
       AddSubstring s (drop first_char_pos buffer) (int kMaxExponentLength - int first_char_pos) }) es"
proof (cases "e = 0")
  case True
  then have "exponent_notation e ''0''"
    by (simp add: exponent_notation_def dec_value_def digit_of_def)
  then show thesis
    using that [of "''0''"] adds_char [OF literal_not_NUL(2)] True by simp
next
  case False
  have b: "wr (replicate (kMaxExponentLength + 1) NUL) kMaxExponentLength NUL = Some (replicate 6 NUL)"
  proof -
    have "(replicate 6 NUL)[5 := NUL] = replicate 6 NUL"
      by (subst list_update_same_conv) simp_all
    then show ?thesis
      by (simp add: wr_def kMaxExponentLength_def)
  qed
  have "0 < nat e" "nat e < 10000"
    using False assms by simp_all
  from exponent_loop_wp [OF this] obtain x buffer pos ds where
    r: "while_opt (\<lambda>(e, _). 0 < e) exponent_digit (e, replicate 6 NUL, 5) = Some (x, buffer, pos)"
      "digit_array (drop pos buffer) ds" "length ds = 5 - pos" "pos \<le> 5" "dec_value ds = nat e" "ds \<noteq> []" "hd ds \<noteq> CHR ''0''"
    using assms(1) by (auto elim!: wpE)
  have "exponent_notation e ds"
    using r assms(1) by (auto simp: exponent_notation_def digit_array_def)
  moreover have "adds n (\<lambda>s. AddSubstring s (drop pos buffer) (int kMaxExponentLength - int pos)) ds"
    using adds_all_digits [OF r(2)] r(3,4) by (simp add: kMaxExponentLength_def of_nat_diff)
  ultimately show thesis
    using that [of ds] False assms(2) r(1) unfolding b by (simp add: ASSERT_def kMaxExponentLength_def)
qed

definition add_exponent :: "int \<Rightarrow> string_builder \<Rightarrow> string_builder option" where
  "add_exponent e s = (if e = 0 then AddCharacter s (CHR ''0'')
     else do {
       ASSERT (e < 10000);
       buffer \<leftarrow> wr (replicate (kMaxExponentLength + 1) NUL) kMaxExponentLength NUL;
       (_, buffer, first_char_pos) \<leftarrow> while_opt (\<lambda>(e, _). 0 < e) exponent_digit (e, buffer, kMaxExponentLength);
       AddSubstring s (drop first_char_pos buffer) (int kMaxExponentLength - int first_char_pos) })"

lemma CreateExponentialRepresentation_eq:
  assumes "digit_array a ds" and "ds \<noteq> []"
  shows "CreateExponentialRepresentation this a (int (length ds)) e = (\<lambda>s. do {
     s \<leftarrow> AddCharacter s (hd ds);
     s \<leftarrow> (if length ds \<noteq> 1 then do {
          s \<leftarrow> AddCharacter s (CHR ''.'');
          AddSubstring s (drop 1 a) (int (length ds) - 1) }
        else Some s);
     s \<leftarrow> AddCharacter s (dts_exponent_character this);
     s \<leftarrow> (if e < 0 then AddCharacter s (CHR ''-'')
        else if dts_flags this AND EMIT_POSITIVE_EXPONENT_SIGN \<noteq> 0 then AddCharacter s (CHR ''+'')
        else Some s);
     add_exponent \<bar>e\<bar> s })"
proof (rule ext)
  fix s
  have "rd a 0 = Some (hd ds)"
    using assms by (cases ds; cases a) (auto simp: digit_array_def rd_def)
  moreover have "int (length ds) \<noteq> 1 \<longleftrightarrow> length ds \<noteq> 1" "int (length ds) \<noteq> 0"
    using assms(2) by simp_all
  ultimately show "CreateExponentialRepresentation this a (int (length ds)) e s = do {
     s \<leftarrow> AddCharacter s (hd ds);
     s \<leftarrow> (if length ds \<noteq> 1 then do {
          s \<leftarrow> AddCharacter s (CHR ''.'');
          AddSubstring s (drop 1 a) (int (length ds) - 1) }
        else Some s);
     s \<leftarrow> AddCharacter s (dts_exponent_character this);
     s \<leftarrow> (if e < 0 then AddCharacter s (CHR ''-'')
        else if dts_flags this AND EMIT_POSITIVE_EXPONENT_SIGN \<noteq> 0 then AddCharacter s (CHR ''+'')
        else Some s);
     add_exponent \<bar>e\<bar> s }"
    unfolding CreateExponentialRepresentation_def add_exponent_def [symmetric]
    by (cases "e < 0"; cases "dts_flags this AND EMIT_POSITIVE_EXPONENT_SIGN \<noteq> 0") (simp_all add: ASSERT_def bind_assoc)
qed

theorem CreateExponentialRepresentation_adds:
  assumes a: "digit_array a ds" and ds: "ds \<noteq> []" and e: "\<bar>e\<bar> < 10000" and c: "dts_exponent_character this \<noteq> NUL"
  obtains es where "exponent_notation e es" and
    "adds n (CreateExponentialRepresentation this a (int (length ds)) e) (exponential_text this ds e es)"
proof -
  obtain es where es: "exponent_notation \<bar>e\<bar> es" and adds: "adds n (add_exponent \<bar>e\<bar>) es"
    using adds_exponent [of "\<bar>e\<bar>" n] e unfolding add_exponent_def [symmetric, abs_def] by auto
  have hd: "hd ds \<noteq> NUL"
    using a ds digit_not_NUL [of "hd ds"] by (simp add: digit_array_def)
  have rest: "adds n (\<lambda>s. AddSubstring s (drop 1 a) (int (length ds) - 1)) (drop 1 ds)"
    using adds_digits [OF a, of 1 "length ds - 1" "int (length ds) - 1" n] ds by (simp add: Suc_le_eq of_nat_diff)
  have sign: "adds n (\<lambda>s. if e < 0 then AddCharacter s (CHR ''-'')
        else if dts_flags this AND EMIT_POSITIVE_EXPONENT_SIGN \<noteq> 0 then AddCharacter s (CHR ''+'')
        else Some s) (if e < 0 then ''-'' else if dts_flags this AND EMIT_POSITIVE_EXPONENT_SIGN \<noteq> 0 then ''+'' else '''')"
    using adds_char [OF literal_not_NUL(3)] adds_char [OF literal_not_NUL(4)] adds_Some by simp
  have "adds n (CreateExponentialRepresentation this a (int (length ds)) e)
    ([hd ds] @ (if length ds \<noteq> 1 then [CHR ''.''] @ drop 1 ds else []) @ [dts_exponent_character this] @
      (if e < 0 then ''-'' else if dts_flags this AND EMIT_POSITIVE_EXPONENT_SIGN \<noteq> 0 then ''+'' else '''') @ es)"
    unfolding CreateExponentialRepresentation_eq [OF a ds]
    by (intro adds_bind adds_char adds_optional adds rest sign literal_not_NUL hd c)
  moreover have "[hd ds] = take 1 ds"
    using ds by (cases ds) simp_all
  ultimately have "adds n (CreateExponentialRepresentation this a (int (length ds)) e) (exponential_text this ds e es)"
    by (simp add: exponential_text_def)
  then show thesis
    using that [of es] es by (simp add: exponent_notation_def)
qed

end
