(* ===== verification/String_To_Double.thy ===== *)
theory String_To_Double
  imports Strtod String_Builder
begin

unbundle bit_operations_syntax

text \<open>
  \<open>class StringToDoubleConverter\<close> of \<open>double-conversion.h\<close> and \<open>double-conversion.cc\<close>.  A pointer
  into the input is an index; \<open>end\<close> is the length given by the caller.  The long function
  \<open>StringToIeee\<close> is cut at the blocks of its text: a block ends with a \<open>return\<close>, with
  \<open>goto parsing_done\<close>, or by falling through to the next one.
\<close>

definition kMaxSignificantDigits :: nat where "kMaxSignificantDigits = 772"
definition ALLOW_HEX :: int where "ALLOW_HEX = 1"
definition ALLOW_OCTALS :: int where "ALLOW_OCTALS = 2"
definition ALLOW_TRAILING_JUNK :: int where "ALLOW_TRAILING_JUNK = 4"
definition ALLOW_LEADING_SPACES :: int where "ALLOW_LEADING_SPACES = 8"
definition ALLOW_TRAILING_SPACES :: int where "ALLOW_TRAILING_SPACES = 16"
definition ALLOW_SPACES_AFTER_SIGN :: int where "ALLOW_SPACES_AFTER_SIGN = 32"

record string_to_double_converter =
  std_flags :: int
  std_empty_string_value :: double_bits
  std_junk_string_value :: double_bits
  std_infinity_symbol :: "char list option"
  std_nan_symbol :: "char list option"

definition StringToDoubleConverter :: "int \<Rightarrow> double_bits \<Rightarrow> double_bits \<Rightarrow> char list option \<Rightarrow> char list option \<Rightarrow>
    string_to_double_converter" where
  "StringToDoubleConverter flags empty_string_value junk_string_value infinity_symbol nan_symbol =
    \<lparr>std_flags = flags, std_empty_string_value = empty_string_value, std_junk_string_value = junk_string_value,
     std_infinity_symbol = infinity_symbol, std_nan_symbol = nan_symbol\<rparr>"

section \<open>Scanning\<close>

fun ConsumeSubString_rest :: "char list \<Rightarrow> nat \<Rightarrow> char list \<Rightarrow> nat \<Rightarrow> (bool \<times> nat) option" where
  "ConsumeSubString_rest input current [] stop = None"
| "ConsumeSubString_rest input current (x # substring) stop =
    (if x = NUL then Some (True, current + 1)
     else if current + 1 = stop then Some (False, current + 1)
     else do {
       c \<leftarrow> rd input (current + 1);
       if c \<noteq> x then Some (False, current + 1)
       else ConsumeSubString_rest input (current + 1) substring stop })"

text \<open>The result is the returned bool and \<open>*current\<close>.\<close>

definition ConsumeSubString :: "char list \<Rightarrow> nat \<Rightarrow> nat \<Rightarrow> char list \<Rightarrow> (bool \<times> nat) option" where
  "ConsumeSubString input current stop substring = do {
     c \<leftarrow> rd input current;
     x \<leftarrow> rd substring 0;
     ASSERT (c = x);
     ConsumeSubString_rest input current (drop 1 substring) stop }"

primrec AdvanceToNonspace_n :: "nat \<Rightarrow> char list \<Rightarrow> nat \<Rightarrow> (bool \<times> nat) option" where
  "AdvanceToNonspace_n 0 input current = Some (False, current)"
| "AdvanceToNonspace_n (Suc n) input current = do {
     c \<leftarrow> rd input current;
     if c \<noteq> CHR '' '' then Some (True, current) else AdvanceToNonspace_n n input (current + 1) }"

definition AdvanceToNonspace :: "char list \<Rightarrow> nat \<Rightarrow> nat \<Rightarrow> (bool \<times> nat) option" where
  "AdvanceToNonspace input current stop = AdvanceToNonspace_n (stop - current) input current"

definition isDigit :: "int \<Rightarrow> int \<Rightarrow> bool" where
  "isDigit x base \<longleftrightarrow>
    (code_of CHR ''0'' \<le> x \<and> x \<le> code_of CHR ''9'' \<and> x < code_of CHR ''0'' + base)
    \<or> (10 < base \<and> code_of CHR ''a'' \<le> x \<and> x < code_of CHR ''a'' + base - 10)
    \<or> (10 < base \<and> code_of CHR ''A'' \<le> x \<and> x < code_of CHR ''A'' + base - 10)"

definition SignedZero :: "bool \<Rightarrow> double_bits" where
  "SignedZero sign = (if sign then double_uminus 0 else 0)"

definition IsDecimalDigitForRadix :: "int \<Rightarrow> int \<Rightarrow> bool" where
  "IsDecimalDigitForRadix c base \<longleftrightarrow> code_of CHR ''0'' \<le> c \<and> c \<le> code_of CHR ''9'' \<and> c - code_of CHR ''0'' < base"

definition IsCharacterDigitForRadix :: "int \<Rightarrow> int \<Rightarrow> char \<Rightarrow> bool" where
  "IsCharacterDigitForRadix c base a_character \<longleftrightarrow>
    10 < base \<and> code_of a_character \<le> c \<and> c < code_of a_character + base - 10"

section \<open>Integers with a radix that is a power of two\<close>

primrec skip_zeros :: "nat \<Rightarrow> char list \<Rightarrow> nat \<Rightarrow> nat option" where
  "skip_zeros 0 input current = Some current"
| "skip_zeros (Suc n) input current = do {
     c \<leftarrow> rd input current;
     if c = CHR ''0'' then skip_zeros n input (current + 1) else Some current }"

text \<open>The value of a digit of the radix.\<close>

definition radix_digit :: "char \<Rightarrow> int \<Rightarrow> int option" where
  "radix_digit c base =
    (if IsDecimalDigitForRadix (code_of c) base then Some (code_of c - code_of CHR ''0'')
     else if IsCharacterDigitForRadix (code_of c) base (CHR ''a'') then Some (code_of c - code_of CHR ''a'' + 10)
     else if IsCharacterDigitForRadix (code_of c) base (CHR ''A'') then Some (code_of c - code_of CHR ''A'' + 10)
     else None)"

text \<open>\<open>while (overflow > 1) { overflow_bits_count++; overflow >>= 1; }\<close>\<close>

definition count_overflow_bits :: "int \<Rightarrow> nat option" where
  "count_overflow_bits overflow = do {
     (n, _) \<leftarrow> while_opt (\<lambda>(n, overflow). 1 < overflow) (\<lambda>(n, overflow). Some (n + 1, overflow div 2)) (1, overflow);
     Some n }"

text \<open>The digits after an overflow: \<open>for (;;) { ++current; if (...) break; zero_tail = ...; exponent += ...; }\<close>\<close>

primrec skip_tail :: "nat \<Rightarrow> char list \<Rightarrow> nat \<Rightarrow> nat \<Rightarrow> bool \<Rightarrow> int \<Rightarrow> (nat \<times> bool \<times> int) option" where
  "skip_tail 0 input current radix_log_2 zero_tail e = Some (current, zero_tail, e)"
| "skip_tail (Suc n) input current radix_log_2 zero_tail e = do {
     c \<leftarrow> rd input current;
     if \<not> isDigit (code_of c) (2 ^ radix_log_2) then Some (current, zero_tail, e)
     else skip_tail n input (current + 1) radix_log_2 (zero_tail \<and> c = CHR ''0'') (e + int radix_log_2) }"

datatype radix_flow = Radix_Junk | Radix_Break nat int int | Radix_Next nat int

text \<open>
  The branch of the loop that has found an overflow; \<open>Radix_Break\<close> has \<open>current\<close>, \<open>number\<close> and
  \<open>exponent\<close>.
\<close>

definition radix_overflow :: "nat \<Rightarrow> char list \<Rightarrow> nat \<Rightarrow> nat \<Rightarrow> bool \<Rightarrow> int \<Rightarrow> int \<Rightarrow> int \<Rightarrow> radix_flow option" where
  "radix_overflow radix_log_2 input current stop allow_trailing_junk significand_size number overflow = do {
     overflow_bits_count \<leftarrow> count_overflow_bits overflow;
     let dropped_bits_mask = push_bit overflow_bits_count 1 - 1;
     let dropped_bits = to_int (word_of_int number) AND dropped_bits_mask;
     let number = drop_bit overflow_bits_count number;
     (current, zero_tail, e) \<leftarrow>
       skip_tail (stop - (current + 1)) input (current + 1) radix_log_2 True (int overflow_bits_count);
     (junk, current) \<leftarrow>
       (if \<not> allow_trailing_junk then AdvanceToNonspace input current stop else Some (False, current));
     if junk then Some Radix_Junk
     else do {
       let middle_value = push_bit (overflow_bits_count - 1) 1;
       let number =
         (if middle_value < dropped_bits then number + 1
          else if dropped_bits = middle_value then
            (if number AND 1 \<noteq> 0 \<or> \<not> zero_tail then number + 1 else number)
          else number);
       let (number, e) =
         (if number AND push_bit (nat significand_size) 1 \<noteq> 0 then (drop_bit 1 number, e + 1) else (number, e));
       Some (Radix_Break current number e) } }"

text \<open>One pass of the loop.\<close>

definition radix_step :: "nat \<Rightarrow> char list \<Rightarrow> nat \<Rightarrow> bool \<Rightarrow> int \<Rightarrow> nat \<Rightarrow> int \<Rightarrow> radix_flow option" where
  "radix_step radix_log_2 input stop allow_trailing_junk significand_size current number = do {
     c \<leftarrow> rd input current;
     case radix_digit c (2 ^ radix_log_2) of
       None \<Rightarrow>
         if allow_trailing_junk then Some (Radix_Break current number 0)
         else do {
           (nonspace, current) \<leftarrow> AdvanceToNonspace input current stop;
           if nonspace then Some Radix_Junk else Some (Radix_Break current number 0) }
     | Some digit \<Rightarrow> do {
         let number = number * 2 ^ radix_log_2 + digit;
         let overflow = to_int (word_of_int (drop_bit (nat significand_size) number));
         if overflow \<noteq> 0 then
           radix_overflow radix_log_2 input current stop allow_trailing_junk significand_size number overflow
         else Some (Radix_Next (current + 1) number) } }"

primrec radix_loop :: "nat \<Rightarrow> nat \<Rightarrow> char list \<Rightarrow> nat \<Rightarrow> bool \<Rightarrow> int \<Rightarrow> nat \<Rightarrow> int \<Rightarrow> radix_flow option" where
  "radix_loop 0 radix_log_2 input stop allow_trailing_junk significand_size current number =
    Some (Radix_Break current number 0)"
| "radix_loop (Suc n) radix_log_2 input stop allow_trailing_junk significand_size current number = do {
     r \<leftarrow> radix_step radix_log_2 input stop allow_trailing_junk significand_size current number;
     case r of
       Radix_Next current number \<Rightarrow>
         radix_loop n radix_log_2 input stop allow_trailing_junk significand_size current number
     | _ \<Rightarrow> Some r }"

definition double_trunc_int :: "double_bits \<Rightarrow> int" where
  "double_trunc_int d = (if 0 \<le> double_scaled d then double_scaled d div 2 ^ 1074 else - ((- double_scaled d) div 2 ^ 1074))"

text \<open>The result is the returned double and \<open>*trailing_pointer\<close>, \<open>None\<close> where it is not set.\<close>

definition RadixStringToIeee :: "nat \<Rightarrow> char list \<Rightarrow> nat \<Rightarrow> nat \<Rightarrow> bool \<Rightarrow> bool \<Rightarrow> double_bits \<Rightarrow> bool \<Rightarrow>
    (double_bits \<times> nat option) option" where
  "RadixStringToIeee radix_log_2 input current stop sign allow_trailing_junk junk_string_value read_as_double = do {
     ASSERT (current \<noteq> stop);
     let significand_size = (if read_as_double then kSignificandSize else Single_kSignificandSize);
     current \<leftarrow> skip_zeros (stop - current) input current;
     if current = stop then Some (SignedZero sign, Some stop)
     else do {
       r \<leftarrow> radix_loop (stop - current) radix_log_2 input stop allow_trailing_junk significand_size current 0;
       case r of
         Radix_Break current number e \<Rightarrow> do {
           ASSERT (number < push_bit (nat significand_size) 1);
           ASSERT (double_trunc_int (double_of_int number) = number);
           if e = 0 then
             (if sign then
                (if number = 0 then Some (double_uminus 0, Some current)
                 else Some (double_of_int (- number), Some current))
              else Some (double_of_int number, Some current))
           else do {
             ASSERT (number \<noteq> 0);
             d \<leftarrow> Double_of_DiyFp (DiyFp (word_of_int number) e);
             Some (d, Some current) } }
       | _ \<Rightarrow> Some (junk_string_value, None) } }"

section \<open>The blocks of StringToIeee\<close>

datatype 'a flow = Return double_bits nat | Parsing_Done 'a | Next 'a

definition flow_bind :: "'a flow option \<Rightarrow> ('a \<Rightarrow> 'a flow option) \<Rightarrow> 'a flow option" where
  "flow_bind m f = do { r \<leftarrow> m; case r of Next s \<Rightarrow> f s | _ \<Rightarrow> Some r }"

record scan =
  sc_current :: nat
  sc_sign :: bool
  sc_leading_zero :: bool
  sc_octal :: bool
  sc_buffer :: "char list"
  sc_pos :: nat
  sc_exponent :: int
  sc_significant :: nat
  sc_insignificant :: int
  sc_dropped :: bool

definition kBufferSize :: nat where "kBufferSize = kMaxSignificantDigits + 10"

definition has_flag :: "string_to_double_converter \<Rightarrow> int \<Rightarrow> bool" where
  "has_flag this flag \<longleftrightarrow> std_flags this AND flag \<noteq> 0"

definition junk :: "string_to_double_converter \<Rightarrow> scan flow option" where
  "junk this = Some (Return (std_junk_string_value this) 0)"

definition parse_leading_spaces :: "string_to_double_converter \<Rightarrow> char list \<Rightarrow> nat \<Rightarrow> scan \<Rightarrow> scan flow option" where
  "parse_leading_spaces this input stop s =
    (if sc_current s = stop then Some (Return (std_empty_string_value this) 0)
     else if has_flag this ALLOW_LEADING_SPACES \<or> has_flag this ALLOW_TRAILING_SPACES then do {
       (nonspace, current) \<leftarrow> AdvanceToNonspace input (sc_current s) stop;
       if \<not> nonspace then Some (Return (std_empty_string_value this) current)
       else if \<not> has_flag this ALLOW_LEADING_SPACES \<and> current \<noteq> 0 then junk this
       else Some (Next (s\<lparr>sc_current := current\<rparr>)) }
     else Some (Next s))"

definition parse_sign :: "string_to_double_converter \<Rightarrow> char list \<Rightarrow> nat \<Rightarrow> scan \<Rightarrow> scan flow option" where
  "parse_sign this input stop s = do {
     c \<leftarrow> rd input (sc_current s);
     if c = CHR ''+'' \<or> c = CHR ''-'' then do {
       let sign = (c = CHR ''-'');
       let current = sc_current s + 1;
       (nonspace, next_non_space) \<leftarrow> AdvanceToNonspace input current stop;
       if \<not> nonspace then junk this
       else if \<not> has_flag this ALLOW_SPACES_AFTER_SIGN \<and> current \<noteq> next_non_space then junk this
       else Some (Next (s\<lparr>sc_current := next_non_space, sc_sign := sign\<rparr>)) }
     else Some (Next s) }"

text \<open>The two blocks for the symbols of infinity and of NaN.\<close>

definition parse_symbol :: "string_to_double_converter \<Rightarrow> char list \<Rightarrow> nat \<Rightarrow> char list option \<Rightarrow> double_bits \<Rightarrow> scan \<Rightarrow> scan flow option" where
  "parse_symbol this input stop symbol value s =
    (case symbol of None \<Rightarrow> Some (Next s)
     | Some symbol \<Rightarrow> do {
         c \<leftarrow> rd input (sc_current s);
         x \<leftarrow> rd symbol 0;
         if c = x then do {
           (consumed, current) \<leftarrow> ConsumeSubString input (sc_current s) stop symbol;
           if \<not> consumed then junk this
           else if \<not> (has_flag this ALLOW_TRAILING_SPACES \<or> has_flag this ALLOW_TRAILING_JUNK) \<and> current \<noteq> stop
           then junk this
           else do {
             (nonspace, current) \<leftarrow>
               (if \<not> has_flag this ALLOW_TRAILING_JUNK then AdvanceToNonspace input current stop
                else Some (False, current));
             if nonspace then junk this
             else do {
               ASSERT (sc_pos s = 0);
               Some (Return (if sc_sign s then double_uminus value else value) current) } } }
         else Some (Next s) })"

definition parse_leading_zero :: "string_to_double_converter \<Rightarrow> char list \<Rightarrow> nat \<Rightarrow> bool \<Rightarrow> scan \<Rightarrow> scan flow option" where
  "parse_leading_zero this input stop read_as_double s = do {
     c \<leftarrow> rd input (sc_current s);
     if c = CHR ''0'' then do {
       let current = sc_current s + 1;
       if current = stop then Some (Return (SignedZero (sc_sign s)) current)
       else do {
         x \<leftarrow> rd input current;
         if has_flag this ALLOW_HEX \<and> (x = CHR ''x'' \<or> x = CHR ''X'') then do {
           let current = current + 1;
           bad \<leftarrow> (if current = stop then Some True
                   else do { c \<leftarrow> rd input current; Some (\<not> isDigit (code_of c) 16) });
           if bad then junk this
           else do {
             (result, tail_pointer) \<leftarrow> RadixStringToIeee 4 input current stop (sc_sign s)
               (has_flag this ALLOW_TRAILING_JUNK) (std_junk_string_value this) read_as_double;
             case tail_pointer of None \<Rightarrow> Some (Return result 0)
             | Some tail \<Rightarrow> do {
                 (_, tail) \<leftarrow> (if has_flag this ALLOW_TRAILING_SPACES then AdvanceToNonspace input tail stop
                               else Some (False, tail));
                 Some (Return result tail) } } }
         else do {
           current \<leftarrow> skip_zeros (stop - current) input current;
           if current = stop then Some (Return (SignedZero (sc_sign s)) current)
           else Some (Next (s\<lparr>sc_current := current, sc_leading_zero := True,
                  sc_octal := has_flag this ALLOW_OCTALS\<rparr>)) } } }
     else Some (Next s) }"

text \<open>\<open>buffer[buffer_pos++] = c; significant_digits++;\<close> below the limit.\<close>

definition push_digit :: "char \<Rightarrow> scan \<Rightarrow> scan option" where
  "push_digit c s = do {
     ASSERT (sc_pos s < kBufferSize);
     buffer \<leftarrow> wr (sc_buffer s) (sc_pos s) c;
     Some (s\<lparr>sc_buffer := buffer, sc_pos := sc_pos s + 1, sc_significant := sc_significant s + 1\<rparr>) }"

primrec integer_digits :: "nat \<Rightarrow> char list \<Rightarrow> scan \<Rightarrow> scan flow option" where
  "integer_digits 0 input s = Some (Parsing_Done s)"
| "integer_digits (Suc n) input s = do {
     c \<leftarrow> rd input (sc_current s);
     if is_digit c then do {
       s \<leftarrow> (if sc_significant s < kMaxSignificantDigits then push_digit c s
             else Some (s\<lparr>sc_insignificant := sc_insignificant s + 1,
                          sc_dropped := sc_dropped s \<or> c \<noteq> CHR ''0''\<rparr>));
       let s = s\<lparr>sc_octal := sc_octal s \<and> code_of c < code_of CHR ''8'', sc_current := sc_current s + 1\<rparr>;
       integer_digits n input s }
     else Some (Next s) }"

primrec fraction_zeros :: "nat \<Rightarrow> char list \<Rightarrow> scan \<Rightarrow> scan flow option" where
  "fraction_zeros 0 input s = Some (Return (SignedZero (sc_sign s)) (sc_current s))"
| "fraction_zeros (Suc n) input s = do {
     c \<leftarrow> rd input (sc_current s);
     if c = CHR ''0'' then
       (if n = 0 then Some (Return (SignedZero (sc_sign s)) (sc_current s + 1))
        else fraction_zeros n input (s\<lparr>sc_current := sc_current s + 1, sc_exponent := sc_exponent s - 1\<rparr>))
     else Some (Next s) }"

primrec fraction_digits :: "nat \<Rightarrow> char list \<Rightarrow> scan \<Rightarrow> scan flow option" where
  "fraction_digits 0 input s = Some (Parsing_Done s)"
| "fraction_digits (Suc n) input s = do {
     c \<leftarrow> rd input (sc_current s);
     if is_digit c then do {
       s \<leftarrow> (if sc_significant s < kMaxSignificantDigits then do {
               s \<leftarrow> push_digit c s;
               Some (s\<lparr>sc_exponent := sc_exponent s - 1\<rparr>) }
             else Some (s\<lparr>sc_dropped := sc_dropped s \<or> c \<noteq> CHR ''0''\<rparr>));
       fraction_digits n input (s\<lparr>sc_current := sc_current s + 1\<rparr>) }
     else Some (Next s) }"

definition parse_fraction :: "string_to_double_converter \<Rightarrow> char list \<Rightarrow> nat \<Rightarrow> scan \<Rightarrow> scan flow option" where
  "parse_fraction this input stop s = do {
     let s = (if sc_significant s = 0 then s\<lparr>sc_octal := False\<rparr> else s);
     c \<leftarrow> rd input (sc_current s);
     if c = CHR ''.'' then
       (if sc_octal s \<and> \<not> has_flag this ALLOW_TRAILING_JUNK then junk this
        else if sc_octal s then Some (Parsing_Done s)
        else do {
          let s = s\<lparr>sc_current := sc_current s + 1\<rparr>;
          if sc_current s = stop then
            (if sc_significant s = 0 \<and> \<not> sc_leading_zero s then junk this else Some (Parsing_Done s))
          else flow_bind
            (if sc_significant s = 0 then fraction_zeros (stop - sc_current s) input s else Some (Next s))
            (\<lambda>s. fraction_digits (stop - sc_current s) input s) })
     else Some (Next s) }"

definition require_digits :: "string_to_double_converter \<Rightarrow> scan \<Rightarrow> scan flow option" where
  "require_digits this s =
    (if \<not> sc_leading_zero s \<and> sc_exponent s = 0 \<and> sc_significant s = 0 then junk this else Some (Next s))"

definition max_exponent :: int where "max_exponent = 2147483647 div 2"

primrec exponent_digits :: "nat \<Rightarrow> char list \<Rightarrow> nat \<Rightarrow> int \<Rightarrow> (nat \<times> int) option" where
  "exponent_digits 0 input current num = Some (current, num)"
| "exponent_digits (Suc n) input current num = do {
     c \<leftarrow> rd input current;
     if is_digit c then do {
       let digit = code_of c - code_of CHR ''0'';
       let num = (if max_exponent div 10 \<le> num \<and> \<not> (num = max_exponent div 10 \<and> digit \<le> max_exponent mod 10)
                  then max_exponent else num * 10 + digit);
       exponent_digits n input (current + 1) num }
     else Some (current, num) }"

definition parse_exponent :: "string_to_double_converter \<Rightarrow> char list \<Rightarrow> nat \<Rightarrow> scan \<Rightarrow> scan flow option" where
  "parse_exponent this input stop s = do {
     let allow_trailing_junk = has_flag this ALLOW_TRAILING_JUNK;
     c \<leftarrow> rd input (sc_current s);
     if c = CHR ''e'' \<or> c = CHR ''E'' then
       (if sc_octal s \<and> \<not> allow_trailing_junk then junk this
        else if sc_octal s then Some (Parsing_Done s)
        else do {
          let s = s\<lparr>sc_current := sc_current s + 1\<rparr>;
          if sc_current s = stop then (if allow_trailing_junk then Some (Parsing_Done s) else junk this)
          else do {
            c \<leftarrow> rd input (sc_current s);
            let (sign, s) =
              (if c = CHR ''+'' \<or> c = CHR ''-'' then (c, s\<lparr>sc_current := sc_current s + 1\<rparr>) else (CHR ''+'', s));
            bad \<leftarrow> (if sc_current s = stop then Some True
                    else do { c \<leftarrow> rd input (sc_current s); Some (\<not> is_digit c) });
            if bad then (if allow_trailing_junk then Some (Parsing_Done s) else junk this)
            else do {
              ASSERT (- (max_exponent div 2) \<le> sc_exponent s \<and> sc_exponent s \<le> max_exponent div 2);
              (current, num) \<leftarrow> exponent_digits (stop - sc_current s) input (sc_current s) 0;
              Some (Next (s\<lparr>sc_current := current,
                sc_exponent := sc_exponent s + (if sign = CHR ''-'' then - num else num)\<rparr>)) } } })
     else Some (Next s) }"

definition parse_trailing :: "string_to_double_converter \<Rightarrow> char list \<Rightarrow> nat \<Rightarrow> scan \<Rightarrow> scan flow option" where
  "parse_trailing this input stop s =
    (if \<not> (has_flag this ALLOW_TRAILING_SPACES \<or> has_flag this ALLOW_TRAILING_JUNK) \<and> sc_current s \<noteq> stop
     then junk this
     else do {
       (nonspace, current) \<leftarrow>
         (if \<not> has_flag this ALLOW_TRAILING_JUNK then AdvanceToNonspace input (sc_current s) stop
          else Some (False, sc_current s));
       if nonspace then junk this
       else do {
         (_, current) \<leftarrow>
           (if has_flag this ALLOW_TRAILING_SPACES then AdvanceToNonspace input current stop
            else Some (False, current));
         Some (Parsing_Done (s\<lparr>sc_current := current\<rparr>)) } })"

text \<open>After the label \<open>parsing_done\<close>.\<close>

definition parsing_done :: "string_to_double_converter \<Rightarrow> bool \<Rightarrow> scan \<Rightarrow> (double_bits \<times> nat) option" where
  "parsing_done this read_as_double s = do {
     let e = sc_exponent s + sc_insignificant s;
     if sc_octal s then do {
       (result, tail_pointer) \<leftarrow> RadixStringToIeee 3 (sc_buffer s) 0 (sc_pos s) (sc_sign s)
         (has_flag this ALLOW_TRAILING_JUNK) (std_junk_string_value this) read_as_double;
       ASSERT (tail_pointer \<noteq> None);
       Some (result, sc_current s) }
     else do {
       (buffer, pos, e) \<leftarrow>
         (if sc_dropped s then do {
            buffer \<leftarrow> wr (sc_buffer s) (sc_pos s) (CHR ''1'');
            Some (buffer, sc_pos s + 1, e - 1) }
          else Some (sc_buffer s, sc_pos s, e));
       ASSERT (pos < kBufferSize);
       buffer \<leftarrow> wr buffer pos NUL;
       converted \<leftarrow>
         (if read_as_double then Strtod (take pos buffer) e
          else do { f \<leftarrow> Strtof (take pos buffer) e; Some (double_of_single f) });
       Some (if sc_sign s then double_uminus converted else converted, sc_current s) } }"

text \<open>The result is the returned double and \<open>*processed_characters_count\<close>.\<close>

definition StringToIeee :: "string_to_double_converter \<Rightarrow> char list \<Rightarrow> bool \<Rightarrow> (double_bits \<times> nat) option" where
  "StringToIeee this input read_as_double = do {
     let stop = length input;
     r \<leftarrow>
       flow_bind (parse_leading_spaces this input stop
         \<lparr>sc_current = 0, sc_sign = False, sc_leading_zero = False, sc_octal = False,
          sc_buffer = replicate kBufferSize NUL, sc_pos = 0, sc_exponent = 0, sc_significant = 0,
          sc_insignificant = 0, sc_dropped = False\<rparr>)
       (\<lambda>s. flow_bind (parse_sign this input stop s)
       (\<lambda>s. flow_bind (parse_symbol this input stop (std_infinity_symbol this) kInfinity s)
       (\<lambda>s. flow_bind (parse_symbol this input stop (std_nan_symbol this) kNaN s)
       (\<lambda>s. flow_bind (parse_leading_zero this input stop read_as_double s)
       (\<lambda>s. flow_bind (integer_digits (stop - sc_current s) input s)
       (\<lambda>s. flow_bind (parse_fraction this input stop s)
       (\<lambda>s. flow_bind (require_digits this s)
       (\<lambda>s. flow_bind (parse_exponent this input stop s)
       (\<lambda>s. parse_trailing this input stop s)))))))));
     case r of
       Return value processed \<Rightarrow> Some (value, processed)
     | Parsing_Done s \<Rightarrow> parsing_done this read_as_double s
     | Next s \<Rightarrow> parsing_done this read_as_double s }"

definition StringToDouble :: "string_to_double_converter \<Rightarrow> char list \<Rightarrow> (double_bits \<times> nat) option" where
  "StringToDouble this buffer = StringToIeee this buffer True"

definition StringToFloat :: "string_to_double_converter \<Rightarrow> char list \<Rightarrow> (single_bits \<times> nat) option" where
  "StringToFloat this buffer = do { (d, processed) \<leftarrow> StringToIeee this buffer False; Some (single_of_double d, processed) }"

end
