(* ===== verification/Spec2Isabelle.thy ===== *)
theory Spec2Isabelle
  imports Prelude Positional Machine_Words Bignum Bignum_Add Bignum_Compare Bignum_Subtract Bignum_Multiply Bignum_Square Bignum_Divide Five_Powers Digit_Text Bignum_Decimal Bignum_Hex Digit_Generation Diy_Fp Ieee Ieee_Boundaries Double_Round Double_Arith Power_Estimate Bignum_Dtoa Bignum_Dtoa_Scale Bignum_Dtoa_Counted Bignum_Dtoa_Ready Bignum_Dtoa_Rounded Bignum_Dtoa_Shortest Shortest_Decimal Cached_Accuracy Cached_Range Strtod_Trim Strtod_Guess Diy_Rounding Diy_Error Diy_Decision Strtod_Diy Strtod_Compare Strtod_Correct Cached_Powers Fixed_Dtoa Fast_Dtoa Grisu_Weed Grisu_Stage Grisu_Digits Strtod String_Builder Double_To_String Builder_Text Number_Text String_To_Double
begin

unbundle bit_operations_syntax

text \<open>
  A verification library for the double-conversion library that the mobile app of this
  repository carries under \<open>packages/mobile/ios/Pods/DoubleConversion/double-conversion\<close>: the code
  that turns a double into the shortest (or a counted number of) decimal digits and back.  File
  names below are relative to that directory.

  Work in progress.
\<close>

section \<open>Objects for the witnesses\<close>

lemma bvalue_of: "bvalue (bignum_of [x]) = unat x" "bvalue (bignum_of [x, y]) = unat x + unat y * B28"
  by (simp_all add: bvalue_def bignum_of_def dv_Suc)

lemma exponent_of: "exponent (bignum_of ds) = 0" "used_digits (bignum_of ds) = length ds"
  "BigitLength (bignum_of ds) = length ds"
  by (simp_all add: bignum_of_def BigitLength_def)

lemma bignum_of_oks: "unat x < B28 \<Longrightarrow> x \<noteq> 0 \<Longrightarrow> bignum_ok (bignum_of [x])"
  "unat x < B28 \<Longrightarrow> unat y < B28 \<Longrightarrow> y \<noteq> 0 \<Longrightarrow> bignum_ok (bignum_of [x, y])"
  by (rule bignum_of_ok; simp)+

section \<open>BignumDtoa\<close>

lemma positive_doubleD: "double_less 0 v \<Longrightarrow> \<not> IsSpecial v \<Longrightarrow> 0 < unat v" "double_less 0 v \<Longrightarrow> \<not> IsSpecial v \<Longrightarrow> unat v < kInfinityBits"
  using positive_double_iff [of v] by blast+

lemma positive_doubleI: "0 < unat v \<Longrightarrow> unat v < 2047 * 2 ^ 52 \<Longrightarrow> double_less 0 v \<and> \<not> IsSpecial v"
  unfolding positive_double_iff kInfinityBits_def ..

text \<open>
  C1: in the mode \<open>BIGNUM_DTOA_SHORTEST\<close>, \<open>BignumDtoa\<close> returns for every positive finite double, given a
  buffer of 18 characters: no assertion fails, no index leaves an array, the loops end.  It writes between 1 and 17
  digits, the first one not zero, and a terminating null character; read back as \<open>0.digits * 10 ^ point\<close>
  and rounded to the nearest double (ties to even) they give the double again, every decimal that
  does has at least as many digits, and none of the same length is closer to the double.
\<close>

theorem BignumDtoa_shortest:
  assumes "double_less 0 v" and "\<not> IsSpecial v" and "17 < length buffer"
  shows "\<exists>b len pt. BignumDtoa v BIGNUM_DTOA_SHORTEST r buffer = Some (b, len, pt) \<and> 1 \<le> len \<and> len \<le> 17 \<and>
    length b = length buffer \<and> digits_in b 0 len \<and> b ! 0 \<noteq> CHR ''0'' \<and> b ! len = char_at 0 \<and>
    shortest_decimal (\<lambda>x. double_nearest x v) (double_value v) (take len b) pt"
  using wpD [OF BignumDtoa_shortest_wp [OF positive_doubleD [OF assms(1,2)] assms(3)]] by fastforce

theorem BignumDtoa_shortest_witness:
  "\<exists>b len pt. BignumDtoa 0x3FB999999999999A BIGNUM_DTOA_SHORTEST 0 (replicate 18 (CHR ''x'')) = Some (b, len, pt) \<and> 1 \<le> len \<and> len \<le> 17 \<and>
    length b = length (replicate 18 (CHR ''x'')) \<and> digits_in b 0 len \<and> b ! 0 \<noteq> CHR ''0'' \<and> b ! len = char_at 0 \<and>
    shortest_decimal (\<lambda>x. double_nearest x 0x3FB999999999999A) (double_value 0x3FB999999999999A) (take len b) pt"
  using positive_doubleI [of "0x3FB999999999999A"] by (intro BignumDtoa_shortest) simp_all

text \<open>
  C2: the same in the mode \<open>BIGNUM_DTOA_SHORTEST_SINGLE\<close> for a double that is the exact value of a positive
  finite float: the digits, at most 9, read back as the float.
\<close>

theorem BignumDtoa_shortest_single:
  assumes "0 < unat w" and "single_finite_pos w" and "9 < length buffer"
  shows "\<exists>b len pt. BignumDtoa (double_of_single w) BIGNUM_DTOA_SHORTEST_SINGLE r buffer = Some (b, len, pt) \<and> 1 \<le> len \<and> len \<le> 9 \<and>
    length b = length buffer \<and> digits_in b 0 len \<and> b ! 0 \<noteq> CHR ''0'' \<and> b ! len = char_at 0 \<and>
    shortest_decimal (\<lambda>x. single_nearest x w) (single_value w) (take len b) pt"
  using wpD [OF BignumDtoa_shortest_single_wp [OF assms]] by fastforce

theorem BignumDtoa_shortest_single_witness:
  "\<exists>b len pt. BignumDtoa (double_of_single 0x3DCCCCCD) BIGNUM_DTOA_SHORTEST_SINGLE 0 (replicate 10 (CHR ''x'')) = Some (b, len, pt) \<and>
    1 \<le> len \<and> len \<le> 9 \<and> length b = length (replicate 10 (CHR ''x'')) \<and> digits_in b 0 len \<and> b ! 0 \<noteq> CHR ''0'' \<and> b ! len = char_at 0 \<and>
    shortest_decimal (\<lambda>x. single_nearest x 0x3DCCCCCD) (single_value 0x3DCCCCCD) (take len b) pt"
  by (rule BignumDtoa_shortest_single) (simp_all add: single_finite_pos_iff)



text \<open>
  C4: in the mode \<open>BIGNUM_DTOA_PRECISION\<close>, \<open>BignumDtoa\<close> returns exactly the requested number of digits, and
  they are the double rounded half up at the last of them.
\<close>

theorem BignumDtoa_precision:
  assumes "double_less 0 v" and "\<not> IsSpecial v" and "1 \<le> count" and "count < int (length buffer)"
  shows "\<exists>b len pt. BignumDtoa v BIGNUM_DTOA_PRECISION count buffer = Some (b, len, pt) \<and> len = nat count \<and> b ! len = char_at 0 \<and>
    (\<exists>p. 10 powi (p - 1) \<le> double_value v \<and> double_value v < 10 powi p \<and>
      counted_result (length buffer) b len (rounded_at (double_value v) (p - count)) pt)"
  using wpD [OF BignumDtoa_precision_wp [OF positive_doubleD [OF assms(1,2)] assms(3,4)]] by fastforce

theorem BignumDtoa_precision_witness:
  "\<exists>b len pt. BignumDtoa 1 BIGNUM_DTOA_PRECISION 30 (replicate 31 (CHR ''x'')) = Some (b, len, pt) \<and> len = nat 30 \<and> b ! len = char_at 0 \<and>
    (\<exists>p. 10 powi (p - 1) \<le> double_value 1 \<and> double_value 1 < 10 powi p \<and>
      counted_result (length (replicate 31 (CHR ''x''))) b len (rounded_at (double_value 1) (p - 30)) pt)"
  using positive_doubleI [of 1] by (intro BignumDtoa_precision) simp_all

section \<open>Strtod\<close>



text \<open>
  C6: the digits that \<open>BignumDtoa\<close> writes for a positive finite double in the shortest mode are read back by
  \<open>Strtod\<close> as the same bits.
\<close>

theorem dtoa_strtod_roundtrip:
  assumes "double_less 0 v" and "\<not> IsSpecial v" and "17 < length buffer"
  shows "\<exists>b len pt. BignumDtoa v BIGNUM_DTOA_SHORTEST r buffer = Some (b, len, pt) \<and> len \<le> 17 \<and>
    Strtod (take len b) (pt - int len) = Some v"
proof -
  obtain b len pt where b: "BignumDtoa v BIGNUM_DTOA_SHORTEST r buffer = Some (b, len, pt)" "len \<le> 17" "length b = length buffer"
      "digits_in b 0 len" "double_nearest (decimal_value (take len b) pt) v"
    using wpD [OF BignumDtoa_shortest_wp [OF positive_doubleD [OF assms(1,2)] assms(3)]] unfolding shortest_decimal_def by fastforce
  have "\<forall>c\<in>set (take len b). is_digit c"
    using b(4) by (auto simp: digits_in_def in_set_conv_nth)
  moreover have "decimal_value (take len b) pt = real (dec_value (take len b)) * 10 powi (pt - int len)"
    using b(2,3) assms(3) by (simp add: decimal_value_def min_absorb2)
  ultimately show ?thesis
    using Strtod_unique b(1,2,5) by metis
qed

theorem dtoa_strtod_witness:
  "\<exists>b len pt. BignumDtoa 0x0000000000000001 BIGNUM_DTOA_SHORTEST 0 (replicate 18 (CHR ''x'')) = Some (b, len, pt) \<and> len \<le> 17 \<and>
    Strtod (take len b) (pt - int len) = Some 0x0000000000000001"
  using positive_doubleI [of "0x0000000000000001"] by (intro dtoa_strtod_roundtrip) simp_all

text \<open>
  C7: where \<open>DiyFpStrtod\<close> answers true its double is the nearest one, and where it answers false the
  nearest one is its double or the next, for all trimmed digits up to the decimal exponent 309.
\<close>

theorem DiyFpStrtod_sound:
  assumes "trimmed_digits t" and "t \<noteq> []" and "e + int (length t) \<le> 309"
  shows "\<exists>ok d. DiyFpStrtod t e = Some (ok, d) \<and> (ok \<longrightarrow> double_nearest (real (dec_value t) * 10 powi e) d) \<and>
    (\<not> ok \<longrightarrow> double_nearest (real (dec_value t) * 10 powi e) d \<or> double_nearest (real (dec_value t) * 10 powi e) (NextDouble d))"
proof -
  obtain ok d where d: "DiyFpStrtod t e = Some (ok, d)" "verdict (real (dec_value t) * 10 powi e) ok d"
    using DiyFpStrtod_wp [OF assms] by (rule wp_pairE) auto
  then show ?thesis
    using verdict_cases by blast
qed

theorem DiyFpStrtod_witness:
  "\<exists>ok d. DiyFpStrtod ''12345678901234567890123'' (- 330) = Some (ok, d) \<and>
    (ok \<longrightarrow> double_nearest (real (dec_value ''12345678901234567890123'') * 10 powi (- 330)) d) \<and>
    (\<not> ok \<longrightarrow> double_nearest (real (dec_value ''12345678901234567890123'') * 10 powi (- 330)) d \<or>
      double_nearest (real (dec_value ''12345678901234567890123'') * 10 powi (- 330)) (NextDouble d))"
  by (rule DiyFpStrtod_sound) (simp_all add: trimmed_digits_def is_digit_def code_of_def)



text \<open>
  C9: \<open>GetCachedPowerForDecimalExponent\<close> finds for every decimal exponent between -348 and 347 a normalised
  power of ten that is at most seven decades below it and within half a unit in the last place.
\<close>

theorem cached_power_bounds:
  assumes "- 348 \<le> e" and "e < 348"
  shows "\<exists>p d. GetCachedPowerForDecimalExponent e = Some (p, d) \<and> d \<le> e \<and> e < d + 8 \<and> 2 ^ 63 \<le> unat (dfp_f p) \<and>
    \<bar>diy_value p - 10 powi d\<bar> \<le> 2 powi dfp_e p / 2"
  using wpD [OF GetCachedPowerForDecimalExponent_wp [OF assms]] by fastforce

theorem cached_power_witness:
  "\<exists>p d. GetCachedPowerForDecimalExponent (- 17) = Some (p, d) \<and> d \<le> - 17 \<and> - 17 < d + 8 \<and> 2 ^ 63 \<le> unat (dfp_f p) \<and>
    \<bar>diy_value p - 10 powi d\<bar> \<le> 2 powi dfp_e p / 2"
  by (rule cached_power_bounds) simp_all

section \<open>Texts\<close>

lemma NUL_iff: "c = NUL \<longleftrightarrow> code_of c = 0" "NUL = c \<longleftrightarrow> code_of c = 0"
proof -
  have "code_of NUL = 0"
    by (simp add: NUL_def code_of_char_at)
  then show "c = NUL \<longleftrightarrow> code_of c = 0" "NUL = c \<longleftrightarrow> code_of c = 0"
    using code_of_inj [of c NUL] by auto
qed



text \<open>
  C11: \<open>CreateDecimalRepresentation\<close> appends a text in decimal notation that reads as the number of the
  digits, exactly: the requested number of digits after the point, and as many before it as the number
  has, at least one.
\<close>

theorem CreateDecimalRepresentation_text:
  assumes "builder n t s" and "digit_array a ds" and "int (length ds) - pt \<le> int digits" and "length t + nat (max 1 pt) + digits + 2 < n"
  shows "\<exists>ip fp s'. CreateDecimalRepresentation this a (int (length ds)) pt (int digits) s = Some s' \<and>
    decimal_notation ds pt digits ip fp \<and> builder n (t @ decimal_text this ip fp) s'"
proof -
  obtain ip fp where d: "decimal_notation ds pt digits ip fp" and
    adds: "adds n (CreateDecimalRepresentation this a (int (length ds)) pt (int digits)) (decimal_text this ip fp)"
    by (rule CreateDecimalRepresentation_adds [OF assms(2,3)])
  have "length (decimal_text this ip fp) \<le> nat (max 1 pt) + digits + 2"
    using d by (auto simp: decimal_text_def decimal_notation_def trailing_text_def)
  then have "wp (CreateDecimalRepresentation this a (int (length ds)) pt (int digits) s) (builder n (t @ decimal_text this ip fp))"
    using adds assms(1,4) unfolding adds_def by simp
  then show ?thesis
    using d by (auto elim!: wpE)
qed

theorem CreateDecimalRepresentation_witness:
  "\<exists>c ip fp s'. EcmaScriptConverter = Some c \<and>
    CreateDecimalRepresentation c (''125'' @ [NUL]) (int (length ''125'')) (- 1) (int 6) (StringBuilder (replicate 20 NUL)) = Some s' \<and>
    decimal_notation ''125'' (- 1) 6 ip fp \<and> builder 20 ([] @ decimal_text c ip fp) s'"
proof -
  obtain c where c: "EcmaScriptConverter = Some c"
    by (simp add: EcmaScriptConverter_def DoubleToStringConverter_def ASSERT_def Let_def UNIQUE_ZERO_def EMIT_POSITIVE_EXPONENT_SIGN_def
        EMIT_TRAILING_ZERO_AFTER_POINT_def EMIT_TRAILING_DECIMAL_POINT_def)
  have "\<exists>ip fp s'. CreateDecimalRepresentation c (''125'' @ [NUL]) (int (length ''125'')) (- 1) (int 6) (StringBuilder (replicate 20 NUL)) = Some s' \<and>
    decimal_notation ''125'' (- 1) 6 ip fp \<and> builder 20 ([] @ decimal_text c ip fp) s'"
    by (rule CreateDecimalRepresentation_text) (simp_all add: builder_new digit_array_def is_digit_def code_of_def)
  with c show ?thesis
    by blast
qed

text \<open>
  C12: \<open>CreateExponentialRepresentation\<close> appends the digits with a point after the first one, the
  exponent character, a sign and the exponent in decimal without leading zeros.
\<close>

theorem CreateExponentialRepresentation_text:
  assumes "builder n t s" and "digit_array a ds" and "ds \<noteq> []" and "\<bar>e\<bar> < 10000" and "dts_exponent_character this \<noteq> NUL"
    and "length t + length ds + 8 < n"
  shows "\<exists>es s'. CreateExponentialRepresentation this a (int (length ds)) e s = Some s' \<and> exponent_notation e es \<and>
    builder n (t @ exponential_text this ds e es) s'"
proof -
  obtain es where d: "exponent_notation e es" and
    adds: "adds n (CreateExponentialRepresentation this a (int (length ds)) e) (exponential_text this ds e es)"
    by (rule CreateExponentialRepresentation_adds [OF assms(2-5)])
  have "length (exponential_text this ds e es) \<le> length ds + 8"
    using d by (auto simp: exponential_text_def exponent_notation_def min_def)
  then have "wp (CreateExponentialRepresentation this a (int (length ds)) e s) (builder n (t @ exponential_text this ds e es))"
    using adds assms(1,6) unfolding adds_def by simp
  then show ?thesis
    using d by (auto elim!: wpE)
qed

theorem CreateExponentialRepresentation_witness:
  "\<exists>c es s'. EcmaScriptConverter = Some c \<and>
    CreateExponentialRepresentation c (''125'' @ [NUL]) (int (length ''125'')) (- 324) (StringBuilder (replicate 20 NUL)) = Some s' \<and>
    exponent_notation (- 324) es \<and> builder 20 ([] @ exponential_text c ''125'' (- 324) es) s'"
proof -
  obtain c where c: "EcmaScriptConverter = Some c" "dts_exponent_character c = CHR ''e''"
    by (simp add: EcmaScriptConverter_def DoubleToStringConverter_def ASSERT_def Let_def UNIQUE_ZERO_def EMIT_POSITIVE_EXPONENT_SIGN_def
        EMIT_TRAILING_ZERO_AFTER_POINT_def EMIT_TRAILING_DECIMAL_POINT_def)
  have "\<exists>es s'. CreateExponentialRepresentation c (''125'' @ [NUL]) (int (length ''125'')) (- 324) (StringBuilder (replicate 20 NUL)) = Some s' \<and>
    exponent_notation (- 324) es \<and> builder 20 ([] @ exponential_text c ''125'' (- 324) es) s'"
    by (rule CreateExponentialRepresentation_text) (simp_all add: builder_new digit_array_def is_digit_def code_of_def c(2) NUL_iff)
  with c(1) show ?thesis
    by blast
qed

section \<open>Bignum\<close>

text \<open>
  C13: \<open>AssignPowerUInt16\<close> leaves the exact power in the object: for a base \<open>m * 2 ^ s\<close> with \<open>m\<close>
  odd and below \<open>2 ^ k\<close>, and an exponent \<open>n\<close> whose \<open>k * n\<close> bits fit the array as the method checks
  it, the call returns, no assertion fires, no index leaves the array, no 64 bit product wraps, and
  the object is clamped and has the value \<open>base ^ n\<close>.
\<close>

theorem AssignPowerUInt16_correct:
  assumes "bignum_rep b" and "unat base = m * 2 ^ s" and "odd m" and "m < 2 ^ k"
    and "k * n div 28 + 2 \<le> 128"
  shows "\<exists>r. AssignPowerUInt16 b base n = Some r \<and> bignum_ok r \<and> bvalue r = unat base ^ n"
  using AssignPowerUInt16_wp [OF assms] by (rule wpD)

theorem AssignPowerUInt16_witness:
  "\<exists>r. AssignPowerUInt16 Bignum_new 10 324 = Some r \<and> bignum_ok r \<and> bvalue r = unat (10 :: u16) ^ 324"
  using AssignPowerUInt16_correct [of Bignum_new 10 5 1 3 324] by simp

text \<open>
  C14: \<open>DivideModuloIntBignum\<close> returns the quotient and leaves the remainder, with every assertion
  of the method holding on the way, for a quotient below 16 and a divisor whose most significant
  bigit is not full.
\<close>

theorem DivideModulo_correct:
  assumes "bignum_ok b" and "divisor_ok d" and "bvalue b < 16 * bvalue d"
    and "exponent d < exponent b \<Longrightarrow> BigitLength b - exponent d \<le> 128"
  shows "\<exists>q r. DivideModuloIntBignum b d = Some (q, r) \<and> bignum_ok r \<and>
    unat q = bvalue b div bvalue d \<and> bvalue r = bvalue b mod bvalue d"
  by (rule wp_pairE [OF DivideModuloIntBignum_wp [OF assms]]) auto

theorem DivideModulo_witness:
  "\<exists>q r. DivideModuloIntBignum (bignum_of [5, 9]) (bignum_of [7, 1]) = Some (q, r) \<and> bignum_ok r \<and>
    unat q = bvalue (bignum_of [5, 9]) div bvalue (bignum_of [7, 1]) \<and>
    bvalue r = bvalue (bignum_of [5, 9]) mod bvalue (bignum_of [7, 1])"
  by (rule DivideModulo_correct) (simp_all add: bignum_of_oks divisor_ok_def bvalue_of exponent_of, simp add: bignum_of_def)

text \<open>
  C15: the documented precondition of \<open>DivideModuloIntBignum\<close> (a quotient below 16 bits) is not enough
  for its assertions: with the quotient 256 it stops at the test of the divisor's most significant
  bigit, and with the quotient 1 and a remainder of one bigit at the test of equal lengths.
\<close>

theorem DivideModulo_stops:
  "bvalue (bignum_of [0, 1]) div bvalue (bignum_of [0x100000]) = 256 \<and>
   DivideModuloIntBignum (bignum_of [0, 1]) (bignum_of [0x100000]) = None \<and>
   bvalue (bignum_of [0, 0, 1]) div bvalue (bignum_of [0xFFFFFFF, 0xFFFFFFF]) = 1 \<and>
   DivideModuloIntBignum (bignum_of [0, 0, 1]) (bignum_of [0xFFFFFFF, 0xFFFFFFF]) = None"
  using divide_quotient_256 divide_short_remainder
  by (simp add: bvalue_of div_nat_eqI)

text \<open>
  C16: \<open>Square\<close> squares the value in place by the column method; the accumulator never wraps 64 bits
  and is zero at the end, as the method asserts.
\<close>

theorem Square_correct:
  assumes "bignum_ok b" and "2 * used_digits b \<le> 128"
  shows "\<exists>r. Square b = Some r \<and> bignum_ok r \<and> bvalue r = bvalue b * bvalue b \<and> exponent r \<le> 2 * exponent b"
  using Square_wp [OF assms] by (rule wpD)

theorem Square_witness:
  "\<exists>r. Square (bignum_of [3, 5]) = Some r \<and> bignum_ok r \<and> bvalue r = bvalue (bignum_of [3, 5]) * bvalue (bignum_of [3, 5]) \<and>
    exponent r \<le> 2 * exponent (bignum_of [3, 5])"
  by (rule Square_correct) (simp_all add: bignum_of_oks exponent_of)

text \<open>
  C17: \<open>MultiplyByPowerOfTen\<close> multiplies by \<open>10 ^ n\<close>: by powers of five in three loops, then by a
  shift.
\<close>

theorem MultiplyByPowerOfTen_correct:
  assumes "bignum_ok b" and "5 ^ n * bsig b < B28 ^ 127"
  shows "\<exists>r. MultiplyByPowerOfTen b n = Some r \<and> bignum_ok r \<and> bvalue r = 10 ^ n * bvalue b"
  using MultiplyByPowerOfTen_wp [OF assms] by (auto dest: wpD)

theorem MultiplyByPowerOfTen_witness:
  "\<exists>r. MultiplyByPowerOfTen (bignum_of [7]) 45 = Some r \<and> bignum_ok r \<and> bvalue r = 10 ^ 45 * bvalue (bignum_of [7])"
  by (rule MultiplyByPowerOfTen_correct) (simp_all add: bignum_of_oks, simp add: bignum_of_def dv_Suc)

text \<open>
  C18: \<open>MultiplyByUInt64\<close> multiplies by any 64 bit factor; the carry never exceeds the factor, so
  the sums of its three parts do not wrap.
\<close>

theorem MultiplyByUInt64_correct:
  assumes "bignum_ok b" and "unat factor * bsig b < B28 ^ 128"
  shows "\<exists>r. MultiplyByUInt64 b factor = Some r \<and> bignum_ok r \<and> bvalue r = unat factor * bvalue b"
  using MultiplyByUInt64_wp [OF assms] by (auto dest: wpD)

theorem MultiplyByUInt64_witness:
  "\<exists>r. MultiplyByUInt64 (bignum_of [0xFFFFFFF]) 0xFFFFFFFFFFFFFFFF = Some r \<and> bignum_ok r \<and>
    bvalue r = unat (0xFFFFFFFFFFFFFFFF :: u64) * bvalue (bignum_of [0xFFFFFFF])"
  by (rule MultiplyByUInt64_correct) (simp_all add: bignum_of_oks, simp add: bignum_of_def dv_Suc)

text \<open>C19: \<open>AddBignum\<close> adds, with both exponents aligned and every carry rippled.\<close>

theorem AddBignum_correct:
  assumes "bignum_ok b" and "bignum_ok other"
    and "1 + max (BigitLength b) (BigitLength other) - min (exponent b) (exponent other) \<le> 128"
  shows "\<exists>r. AddBignum b other = Some r \<and> bignum_ok r \<and> bvalue r = bvalue b + bvalue other"
  using AddBignum_wp [OF assms] by (auto dest: wpD)

theorem AddBignum_witness:
  "\<exists>r. AddBignum (bignum_of [0xFFFFFFF, 0xFFFFFFF]) (bignum_of [1]) = Some r \<and> bignum_ok r \<and>
    bvalue r = bvalue (bignum_of [0xFFFFFFF, 0xFFFFFFF]) + bvalue (bignum_of [1])"
  by (rule AddBignum_correct) (simp_all add: bignum_of_oks exponent_of)

text \<open>
  C20: \<open>SubtractTimes\<close> takes \<open>factor\<close> times the other number off, whichever of its two ways it goes and
  wherever its second loop leaves the method.
\<close>

theorem SubtractTimes_correct:
  assumes "bignum_ok b" and "bignum_ok other" and "0 \<le> factor" and "factor < int B28"
    and "nat factor * bvalue other \<le> bvalue b" and "exponent b \<le> exponent other"
  shows "\<exists>r. SubtractTimes b other factor = Some r \<and> bignum_ok r \<and> bvalue r = bvalue b - nat factor * bvalue other"
  using SubtractTimes_wp [OF assms] by (auto dest: wpD)

theorem SubtractTimes_witness:
  "\<exists>r. SubtractTimes (bignum_of [1, 2]) (bignum_of [9]) 7 = Some r \<and> bignum_ok r \<and>
    bvalue r = bvalue (bignum_of [1, 2]) - nat 7 * bvalue (bignum_of [9])"
  by (rule SubtractTimes_correct) (simp_all add: bignum_of_oks bvalue_of exponent_of)

text \<open>
  C21: \<open>PlusCompare\<close> compares \<open>a + b\<close> with \<open>c\<close> without adding: the early exits on the lengths and the
  running borrow decide as the numbers do.
\<close>

theorem PlusCompare_correct:
  assumes "bignum_ok a" and "bignum_ok b" and "bignum_ok c"
  shows "PlusCompare a b c = Some (if bvalue a + bvalue b < bvalue c then - 1
    else if bvalue c < bvalue a + bvalue b then 1 else 0)"
  using PlusCompare_eq [OF assms] by (simp add: cmp_def)

theorem PlusCompare_witness:
  "PlusCompare (bignum_of [0xFFFFFFF]) (bignum_of [1]) (bignum_of [0, 1]) = Some 0"
  using PlusCompare_correct [of "bignum_of [0xFFFFFFF]" "bignum_of [1]" "bignum_of [0, 1]"]
  by (simp add: bignum_of_oks bvalue_of)

text \<open>
  C22: \<open>AssignDecimalString\<close> reads a decimal text of up to 1054 digits exactly.
\<close>

theorem AssignDecimalString_correct:
  assumes "bignum_rep b" and "\<forall>c\<in>set s. is_digit c" and "length s \<le> 1054"
  shows "\<exists>r. AssignDecimalString b s = Some r \<and> bignum_ok r \<and> bvalue r = dec_value s \<and> exponent r = 0"
  using AssignDecimalString_wp [OF assms] by (rule wpD)

theorem AssignDecimalString_witness:
  "\<exists>r. AssignDecimalString Bignum_new ''12345678901234567890123'' = Some r \<and> bignum_ok r \<and>
    bvalue r = dec_value ''12345678901234567890123'' \<and> exponent r = 0"
  by (rule AssignDecimalString_correct) (simp_all add: is_digit_def code_of_def)

section \<open>DiyFp, Double and Single\<close>

text \<open>
  C23: \<open>DiyFp::Multiply\<close> is the exact 128 bit product rounded half up to its upper 64 bits, hence off by
  at most half a unit in the last place, although it is computed from 32 bit halves.
\<close>

theorem DiyFp_Multiply_correct:
  "unat (dfp_f (Multiply x y)) = (unat (dfp_f x) * unat (dfp_f y) + 2 ^ 63) div 2 ^ 64 \<and>
   \<bar>diy_value (Multiply x y) - diy_value x * diy_value y\<bar> \<le> 2 powi (dfp_e x + dfp_e y + 63)"
  using Multiply_f Multiply_error by blast

text \<open>
  C24: \<open>DiyFp::Normalize\<close> terminates on every nonzero significand, keeps the value and sets the most
  significant bit.
\<close>

theorem DiyFp_Normalize_correct:
  assumes "dfp_f x \<noteq> 0"
  shows "\<exists>r. Normalize x = Some r \<and> diy_value r = diy_value x \<and> 2 ^ 63 \<le> unat (dfp_f r)"
  using Normalize_value [OF assms] by (rule wpD)

theorem DiyFp_Normalize_witness:
  "\<exists>r. Normalize (DiyFp 5 3) = Some r \<and> diy_value r = diy_value (DiyFp 5 3) \<and> 2 ^ 63 \<le> unat (dfp_f r)"
  by (rule DiyFp_Normalize_correct) simp

text \<open>
  C25: \<open>Double::NormalizedBoundaries\<close> gives the midpoints to the two neighbours of the double, the upper
  one normalized and both with the same exponent.
\<close>

theorem NormalizedBoundaries_midpoints:
  assumes "double_finite_pos d" and "d \<noteq> 0"
  shows "\<exists>m_minus m_plus. NormalizedBoundaries d = Some (m_minus, m_plus) \<and>
    dfp_e m_minus = dfp_e m_plus \<and> 2 ^ 63 \<le> unat (dfp_f m_plus) \<and>
    diy_value m_plus = (double_value d + enc_real 52 kDenormalExponent (Suc (unat d))) / 2 \<and>
    diy_value m_minus = (enc_real 52 kDenormalExponent (unat d - 1) + double_value d) / 2"
  by (rule wp_pairE [OF NormalizedBoundaries_wp [OF assms]]) auto

theorem NormalizedBoundaries_witness:
  "\<exists>m_minus m_plus. NormalizedBoundaries 0x3FF0000000000000 = Some (m_minus, m_plus) \<and>
    dfp_e m_minus = dfp_e m_plus \<and> 2 ^ 63 \<le> unat (dfp_f m_plus) \<and>
    diy_value m_plus = (double_value 0x3FF0000000000000 + enc_real 52 kDenormalExponent (Suc (unat (0x3FF0000000000000 :: u64)))) / 2 \<and>
    diy_value m_minus = (enc_real 52 kDenormalExponent (unat (0x3FF0000000000000 :: u64) - 1) + double_value 0x3FF0000000000000) / 2"
  by (rule NormalizedBoundaries_midpoints) (simp_all add: double_finite_pos_iff)

text \<open>
  C26: the same for \<open>Single::NormalizedBoundaries\<close>.
\<close>

theorem Single_NormalizedBoundaries_midpoints:
  assumes "single_finite_pos d" and "d \<noteq> 0"
  shows "\<exists>m_minus m_plus. Single_NormalizedBoundaries d = Some (m_minus, m_plus) \<and>
    dfp_e m_minus = dfp_e m_plus \<and> 2 ^ 63 \<le> unat (dfp_f m_plus) \<and>
    diy_value m_plus = (single_value d + enc_real 23 Single_kDenormalExponent (Suc (unat d))) / 2 \<and>
    diy_value m_minus = (enc_real 23 Single_kDenormalExponent (unat d - 1) + single_value d) / 2"
  by (rule wp_pairE [OF Single_NormalizedBoundaries_wp [OF assms]]) auto

theorem Single_NormalizedBoundaries_witness:
  "\<exists>m_minus m_plus. Single_NormalizedBoundaries 0x3F800000 = Some (m_minus, m_plus) \<and>
    dfp_e m_minus = dfp_e m_plus \<and> 2 ^ 63 \<le> unat (dfp_f m_plus) \<and>
    diy_value m_plus = (single_value 0x3F800000 + enc_real 23 Single_kDenormalExponent (Suc (unat (0x3F800000 :: u32)))) / 2 \<and>
    diy_value m_minus = (enc_real 23 Single_kDenormalExponent (unat (0x3F800000 :: u32) - 1) + single_value 0x3F800000) / 2"
  by (rule Single_NormalizedBoundaries_midpoints) (simp_all add: single_finite_pos_iff)

text \<open>
  C27: a finite double that is not negative goes to a \<open>DiyFp\<close> and back to the same bits.
\<close>

theorem DiyFp_roundtrip:
  assumes "double_finite_pos d"
  shows "Option.bind (AsDiyFp d) DiyFpToUint64 = Some d"
proof -
  obtain v where v: "AsDiyFp d = Some v" "dfp_f v = Significand d" "dfp_e v = Exponent d" "diy_value v = double_value d"
    using AsDiyFp_wp [OF assms] by (auto elim: wpE)
  have "enc_exp 52 (unat d) < 2046"
    using assms by (simp add: enc_exp_def double_finite_pos_iff less_mult_imp_div_less less_diff_conv2)
  then have "wp (DiyFpToUint64 v) (\<lambda>r. double_finite_pos r \<and> double_value r = diy_value v)"
    using enc_sig_less [of 52 "unat d"]
    by (intro DiyFpToUint64_wp) (simp_all add: v double_accessors [OF assms] kDenormalExponent_def kMaxExponent_def)
  then obtain r where r: "DiyFpToUint64 v = Some r" "double_finite_pos r" "double_value r = double_value d"
    by (auto simp: v elim: wpE)
  then have "unat r = unat d"
    using assms by (simp add: double_value_def double_finite_pos_def enc_real_def enc_val_inject)
  then show ?thesis
    by (simp add: v(1) r(1) word_unat_eq_iff)
qed

theorem DiyFp_roundtrip_witness: "Option.bind (AsDiyFp 0x7FEFFFFFFFFFFFFF) DiyFpToUint64 = Some 0x7FEFFFFFFFFFFFFF"
  by (rule DiyFp_roundtrip) (simp add: double_finite_pos_iff)

text \<open>
  C28: \<open>NextDouble\<close> goes up to the next pattern: the value does not decrease (it grows except from
  \<open>-0.0\<close>) and no double has a value in between.
\<close>

theorem NextDouble_adjacent:
  assumes "\<not> IsNan d" and "d \<noteq> kInfinity"
  shows "double_value d \<le> double_value (NextDouble d) \<and>
    (double_value d = double_value (NextDouble d) \<longleftrightarrow> d = kSignMask) \<and>
    \<not> (double_value d < double_value x \<and> double_value x < double_value (NextDouble d))"
proof -
  have k: "double_key (NextDouble d) = double_key d + 1"
    by (rule NextDouble_key [OF assms])
  have "double_key kSignMask = - 1"
    by (simp add: double_key_def kSignMask_def)
  then have "double_value d < double_value (NextDouble d) \<or> d = kSignMask"
    using double_value_less [of d "NextDouble d"] k by (auto simp flip: double_key_inject)
  moreover have "double_value kSignMask = double_value (NextDouble kSignMask)"
    by (simp add: NextDouble_def double_value_def kSignMask_def Sign_def kInfinity_def Significand_def IsDenormal_def
        kExponentMask_def kSignificandMask_def enc_real_def)
  moreover have "double_key d < double_key x \<and> double_key x < double_key d + 1 \<or>
      \<not> (double_value d < double_value x \<and> double_value x < double_value (NextDouble d))"
    using double_order [of d x] double_order [of x "NextDouble d"] k by auto
  ultimately show ?thesis
    by fastforce
qed

theorem NextDouble_witness:
  "double_value 0x3FF0000000000000 \<le> double_value (NextDouble 0x3FF0000000000000) \<and>
    (double_value 0x3FF0000000000000 = double_value (NextDouble 0x3FF0000000000000) \<longleftrightarrow> (0x3FF0000000000000 :: u64) = kSignMask) \<and>
    \<not> (double_value 0x3FF0000000000000 < double_value 0 \<and> double_value 0 < double_value (NextDouble 0x3FF0000000000000))"
  by (rule NextDouble_adjacent) (simp_all add: IsNan_iff kInfinity_def)

text \<open>
  C29: \<open>PreviousDouble\<close> undoes \<open>NextDouble\<close> on every double that is neither NaN nor positive infinity,
  through both zeros and from negative infinity on.
\<close>

theorem PreviousDouble_inverse:
  assumes "\<not> IsNan d" and "d \<noteq> kInfinity"
  shows "PreviousDouble (NextDouble d) = d"
proof -
  have k: "double_key (NextDouble d) = double_key d + 1"
    by (rule NextDouble_key [OF assms])
  have "double_key (NextDouble d) \<le> 2047 * 2 ^ 52 \<and> - (2047 * 2 ^ 52) \<le> double_key (NextDouble d)"
  proof (cases "unat d < 2 ^ 63")
    case True
    then have "unat d \<le> 2047 * 2 ^ 52" "unat d \<noteq> 2047 * 2 ^ 52"
      using assms by (simp_all add: IsNan_iff not_less word_unat_eq_iff double_infinity)
    then have "unat d < 2047 * 2 ^ 52"
      by linarith
    then have "int (unat d) < 2047 * 2 ^ 52"
      by (metis of_nat_less_iff of_nat_mult of_nat_numeral of_nat_power)
    then show ?thesis
      unfolding k double_key_pos [OF True] by linarith
  next
    case False
    then obtain m where m: "unat d = 2 ^ 63 + m" "unat d mod 2 ^ 63 = m"
      by (rule double_negE)
    then have "m \<le> 2047 * 2 ^ 52"
      using assms(1) by (simp add: IsNan_iff)
    then show ?thesis
      by (simp add: k double_key_neg [OF m(1)])
  qed
  then have "\<not> IsNan (NextDouble d)" and "NextDouble d \<noteq> kInfinity OR kSignMask"
    by (rule key_not_nan, rule key_not_minus_infinity)
  then have "double_key (PreviousDouble (NextDouble d)) = double_key d"
    using k by (simp add: PreviousDouble_key)
  then show ?thesis
    by (simp add: double_key_inject)
qed

theorem PreviousDouble_witness: "PreviousDouble (NextDouble 0x8000000000000000) = 0x8000000000000000"
  by (rule PreviousDouble_inverse) (simp_all add: IsNan_iff kInfinity_def)

end
